(* ===== verification/Prelude.thy ===== *)
theory Prelude
  imports Main "HOL-Library.Word" "HOL-Library.Multiset"
begin

text \<open>
  What every component of the development shares: the names of the model's machine types, the
  values a Go panic carries, the slice operations of the language that the sources use, decimal
  printing (\<open>strconv.Itoa\<close>), and generic lemmas on lists, sums over a list of goroutines, and
  32-bit counters.
\<close>

unbundle bit_operations_syntax

section \<open>Machine types and panics\<close>

text \<open>\<open>atomic.Int32\<close> counters wrap at 32 bits; \<open>uint\<close> has 64 bits on the supported platforms.\<close>

type_synonym int32 = "32 word"
type_synonym uint = "64 word"

text \<open>
  A panic is a value: the message of an explicit \<open>panic(...)\<close> call, or the run-time errors the
  sources can raise (dereferencing \<open>nil\<close>, indexing out of range).
\<close>

datatype go_panic = PanicMsg string | NilDeref | IndexRange

text \<open>Collections of the development: definitions a proof unfolds, and counting lemmas.\<close>

named_theorems op_defs "definitions of the executor's operations"
named_theorems counting "sums over the goroutines and queues"

section \<open>Slices\<close>

text \<open>\<open>copy(dst, src)\<close> overwrites a prefix of \<open>dst\<close> and copies \<open>min (len dst) (len src)\<close> elements.\<close>

definition go_copy :: "'a list \<Rightarrow> 'a list \<Rightarrow> 'a list" where
  "go_copy dst src = take (length dst) src @ drop (length src) dst"

text \<open>\<open>xs[lo:hi]\<close> for \<open>lo \<le> hi \<le> len xs\<close>.\<close>

definition go_slice :: "'a list \<Rightarrow> nat \<Rightarrow> nat \<Rightarrow> 'a list" where
  "go_slice xs lo hi = take (hi - lo) (drop lo xs)"

lemma length_go_copy [simp]: "length (go_copy dst src) = length dst"
  by (simp add: go_copy_def)

lemma nth_go_copy:
  "i < length dst \<Longrightarrow> go_copy dst src ! i = (if i < length src then src ! i else dst ! i)"
  by (auto simp: go_copy_def nth_append min_def)

section \<open>Decimal printing\<close>

fun itoa :: "nat \<Rightarrow> string" where
  "itoa n = (if n < 10 then [char_of (48 + n)] else itoa (n div 10) @ [char_of (48 + n mod 10)])"

declare itoa.simps [simp del]

section \<open>Division\<close>

text \<open>Go's \<open>/\<close> and \<open>%\<close> truncate towards zero.\<close>

definition quot :: "int \<Rightarrow> int \<Rightarrow> int" where
  "quot a b = sgn a * (\<bar>a\<bar> div b)"

definition remn :: "int \<Rightarrow> int \<Rightarrow> int" where
  "remn a b = sgn a * (\<bar>a\<bar> mod b)"

section \<open>Lists\<close>

lemma sum_list_update:
  fixes f :: "'a \<Rightarrow> nat"
  assumes "i < length xs"
  shows "sum_list (map f (xs[i := y])) + f (xs ! i) = sum_list (map f xs) + f y"
  using assms
proof (induction xs arbitrary: i)
  case Nil
  then show ?case by simp
next
  case (Cons x xs)
  then show ?case by (cases i) auto
qed

lemma sum_list_nth_le:
  fixes f :: "'a \<Rightarrow> nat"
  assumes "i < length xs"
  shows "f (xs ! i) \<le> sum_list (map f xs)"
  using sum_list_update [OF assms, of f "xs ! i"] elem_le_sum_list [of i "map f xs"] assms by simp

lemma sum_list_ge_member:
  fixes f :: "'a \<Rightarrow> nat"
  shows "x \<in> set xs \<Longrightarrow> f x \<le> sum_list (map f xs)"
  by (metis in_set_conv_nth sum_list_nth_le)

lemma count_list_sum_list:
  "count_list (concat xss) x = sum_list (map (\<lambda>xs. count_list xs x) xss)"
  by (induction xss) auto

lemma length_filter_le_sum:
  "length (filter P xs) = sum_list (map (\<lambda>x. if P x then 1 else 0) xs)"
  by (induction xs) auto

section \<open>Counters\<close>

text \<open>A 32-bit counter that counts less than \<open>2^32\<close> things is zero only when there is none.\<close>

lemma of_nat_int32_eq_0: "k < 2 ^ 32 \<Longrightarrow> (of_nat k = (0 :: int32)) = (k = 0)"
  by (simp add: word_of_nat_eq_0_iff nat_dvd_not_less dvd_imp_le) (metis dvd_imp_le dvd_0_right gr0I leD)

lemma unat_of_nat_int32: "k < 2 ^ 32 \<Longrightarrow> unat (of_nat k :: int32) = k"
  by (simp add: unat_of_nat take_bit_nat_eq_self)

end
