(* ===== verification/Flow_Graph.thy ===== *)
theory Flow_Graph
  imports Prelude "HOL-Library.AList"
begin

text \<open>
  The task graph: \<open>node.go\<close>, \<open>graph.go\<close>, \<open>flow.go\<close>, \<open>task.go\<close> and \<open>taskflow.go\<close>. Pointers are
  numbers into a heap that holds the nodes, the graphs and the taskflows; allocation takes the next
  number, and 0 is \<open>nil\<close>. A node's user function has no value here: what it does when it is called
  is an input of the executor's steps. The second half states what the building calls promise: the
  edge lists of a heap agree with each other, and a condition's branch table lists its successors.
\<close>

section \<open>Nodes, graphs, taskflows\<close>

type_synonym nid = nat
type_synonym gid = nat
type_synonym tfid = nat

type_synonym nodeType = string

definition nodeSubflow :: nodeType where "nodeSubflow = ''subflow''"
definition nodeStatic :: nodeType where "nodeStatic = ''static''"
definition nodeCondition :: nodeType where "nodeCondition = ''condition''"

definition kNodeStateIdle :: int32 where "kNodeStateIdle = 1"
definition kNodeStateWaiting :: int32 where "kNodeStateWaiting = 2"
definition kNodeStateRunning :: int32 where "kNodeStateRunning = 3"
definition kNodeStateFinished :: int32 where "kNodeStateFinished = 4"

definition HIGH :: uint where "HIGH = 1"
definition NORMAL :: uint where "NORMAL = 2"
definition LOW :: uint where "LOW = 3"

text \<open>The dynamic type of a node's \<open>ptr\<close>: a subflow holds its graph, a condition its branch table.\<close>

datatype node_ptr = PNil | PStatic | PSubflow gid | PCondition "(uint \<times> nid) list"

record inner_node =
  nname :: string
  successors :: "nid list"
  dependents :: "nid list"
  Typ :: nodeType
  ptr :: node_ptr
  nstate :: int32
  njoin :: int32
  ngraph :: gid
  priority :: uint

record egraph =
  gname :: string
  gnodes :: "nid list"
  gjoin :: int32
  entries :: "nid list"
  instantiated :: bool
  canceled :: bool

record taskflow =
  graph :: gid
  frozen :: bool

record heap =
  hnode :: "nid \<Rightarrow> inner_node"
  hgraph :: "gid \<Rightarrow> egraph"
  hflow :: "tfid \<Rightarrow> taskflow"
  nnext :: nat
  gnext :: nat
  fnext :: nat

definition nil_node :: inner_node where
  "nil_node = \<lparr>nname = [], successors = [], dependents = [], Typ = [], ptr = PNil, nstate = 0,
     njoin = 0, ngraph = 0, priority = 0\<rparr>"

definition nil_graph :: egraph where
  "nil_graph = \<lparr>gname = [], gnodes = [], gjoin = 0, entries = [], instantiated = False,
     canceled = False\<rparr>"

definition empty_heap :: heap where
  "empty_heap = \<lparr>hnode = (\<lambda>_. nil_node), hgraph = (\<lambda>_. nil_graph),
     hflow = (\<lambda>_. \<lparr>graph = 0, frozen = False\<rparr>), nnext = 1, gnext = 1, fnext = 1\<rparr>"

definition upd_node :: "nid \<Rightarrow> (inner_node \<Rightarrow> inner_node) \<Rightarrow> heap \<Rightarrow> heap" where
  "upd_node n f h = h\<lparr>hnode := (hnode h)(n := f (hnode h n))\<rparr>"

definition upd_graph :: "gid \<Rightarrow> (egraph \<Rightarrow> egraph) \<Rightarrow> heap \<Rightarrow> heap" where
  "upd_graph g f h = h\<lparr>hgraph := (hgraph h)(g := f (hgraph h g))\<rparr>"

section \<open>Operations of a node\<close>

definition node_recyclable :: "heap \<Rightarrow> nid \<Rightarrow> bool" where
  "node_recyclable h n \<longleftrightarrow> njoin (hnode h n) = 0"

definition node_ref :: "nid \<Rightarrow> heap \<Rightarrow> heap" where
  "node_ref n = upd_node n (\<lambda>x. x\<lparr>njoin := njoin x + 1\<rparr>)"

definition node_deref :: "nid \<Rightarrow> heap \<Rightarrow> heap" where
  "node_deref n = upd_node n (\<lambda>x. x\<lparr>njoin := njoin x - 1\<rparr>)"

definition set_state :: "int32 \<Rightarrow> nid \<Rightarrow> heap \<Rightarrow> heap" where
  "set_state st n = upd_node n (\<lambda>x. x\<lparr>nstate := st\<rparr>)"

text \<open>\<open>innerNode.setup\<close>: back to idle, one reference per dependent that is not a condition.\<close>

definition node_setup :: "nid \<Rightarrow> heap \<Rightarrow> heap" where
  "node_setup n h =
     fold (\<lambda>dep h'. if Typ (hnode h' dep) = nodeCondition then h' else node_ref n h')
       (dependents (hnode h n)) (set_state kNodeStateIdle n h)"

text \<open>One iteration of \<open>innerNode.drop\<close>, and the whole loop.\<close>

definition drop_one :: "nid \<Rightarrow> nid \<Rightarrow> heap \<Rightarrow> heap" where
  "drop_one n v h = (if Typ (hnode h n) \<noteq> nodeCondition then node_deref v h else h)"

definition node_drop :: "nid \<Rightarrow> heap \<Rightarrow> heap" where
  "node_drop n h = fold (drop_one n) (successors (hnode h n)) h"

text \<open>\<open>innerNode.precede\<close>: the two appends, in the code's order.\<close>

definition precede :: "nid \<Rightarrow> nid \<Rightarrow> heap \<Rightarrow> heap" where
  "precede n v h =
     upd_node v (\<lambda>x. x\<lparr>dependents := dependents x @ [n]\<rparr>)
       (upd_node n (\<lambda>x. x\<lparr>successors := successors x @ [v]\<rparr>) h)"

definition hasCondPredecessor :: "heap \<Rightarrow> nid \<Rightarrow> bool" where
  "hasCondPredecessor h n \<longleftrightarrow> list_ex (\<lambda>dep. Typ (hnode h dep) = nodeCondition) (dependents (hnode h n))"

text \<open>\<open>newNode\<close>; the clock's nanoseconds name an anonymous node.\<close>

definition newNode :: "string \<Rightarrow> nat \<Rightarrow> heap \<Rightarrow> nid \<times> heap" where
  "newNode name ns h =
     (let name' = (if length name = 0 then ''N_'' @ itoa ns else name);
          n = nnext h
      in (n, h\<lparr>hnode := (hnode h)(n := nil_node\<lparr>nname := name', priority := NORMAL\<rparr>),
               nnext := n + 1\<rparr>))"

section \<open>Operations of a graph\<close>

definition newGraph :: "string \<Rightarrow> heap \<Rightarrow> gid \<times> heap" where
  "newGraph name h =
     (let g = gnext h
      in (g, h\<lparr>hgraph := (hgraph h)(g := nil_graph\<lparr>gname := name\<rparr>), gnext := g + 1\<rparr>))"

definition graph_ref :: "gid \<Rightarrow> heap \<Rightarrow> heap" where
  "graph_ref g = upd_graph g (\<lambda>x. x\<lparr>gjoin := gjoin x + 1\<rparr>)"

text \<open>The counter part of \<open>eGraph.deref\<close>; the signal that follows is the executor's.\<close>

definition graph_deref :: "gid \<Rightarrow> heap \<Rightarrow> heap" where
  "graph_deref g = upd_graph g (\<lambda>x. x\<lparr>gjoin := gjoin x - 1\<rparr>)"

definition graph_reset :: "gid \<Rightarrow> heap \<Rightarrow> heap" where
  "graph_reset g h =
     fold (\<lambda>n. upd_node n (\<lambda>x. x\<lparr>njoin := 0\<rparr>)) (gnodes (hgraph h g))
       (upd_graph g (\<lambda>x. x\<lparr>gjoin := 0, entries := []\<rparr>) h)"

definition graph_push :: "gid \<Rightarrow> nid list \<Rightarrow> heap \<Rightarrow> heap" where
  "graph_push g ns h =
     fold (\<lambda>n. upd_node n (\<lambda>x. x\<lparr>ngraph := g\<rparr>)) ns
       (upd_graph g (\<lambda>x. x\<lparr>gnodes := gnodes x @ ns\<rparr>) h)"

definition setup_one :: "gid \<Rightarrow> nid \<Rightarrow> heap \<Rightarrow> heap" where
  "setup_one g n h =
     (let h1 = node_setup n h
      in if length (dependents (hnode h1 n)) = 0
         then upd_graph g (\<lambda>x. x\<lparr>entries := entries x @ [n]\<rparr>) h1 else h1)"

definition graph_setup :: "gid \<Rightarrow> heap \<Rightarrow> heap" where
  "graph_setup g h =
     (let h1 = graph_reset g h in fold (setup_one g) (gnodes (hgraph h1 g)) h1)"

definition graph_recyclable :: "heap \<Rightarrow> gid \<Rightarrow> bool" where
  "graph_recyclable h g \<longleftrightarrow> gjoin (hgraph h g) = 0"

definition graph_cancel :: "gid \<Rightarrow> heap \<Rightarrow> heap" where
  "graph_cancel g = upd_graph g (\<lambda>x. x\<lparr>canceled := True\<rparr>)"

section \<open>Building: \<open>flow.go\<close>, \<open>task.go\<close>, \<open>taskflow.go\<close>\<close>

definition NewStatic :: "string \<Rightarrow> nat \<Rightarrow> heap \<Rightarrow> nid \<times> heap" where
  "NewStatic name ns h =
     (let (n, h1) = newNode name ns h
      in (n, upd_node n (\<lambda>x. x\<lparr>ptr := PStatic, Typ := nodeStatic\<rparr>) h1))"

definition NewSubflow :: "string \<Rightarrow> nat \<Rightarrow> heap \<Rightarrow> nid \<times> heap" where
  "NewSubflow name ns h =
     (let (n, h1) = newNode name ns h; (g, h2) = newGraph name h1
      in (n, upd_node n (\<lambda>x. x\<lparr>ptr := PSubflow g, Typ := nodeSubflow\<rparr>) h2))"

definition NewCondition :: "string \<Rightarrow> nat \<Rightarrow> heap \<Rightarrow> nid \<times> heap" where
  "NewCondition name ns h =
     (let (n, h1) = newNode name ns h
      in (n, upd_node n (\<lambda>x. x\<lparr>ptr := PCondition [], Typ := nodeCondition\<rparr>) h1))"

text \<open>The building calls a client makes on a \<open>TaskFlow\<close> or, in a subflow's function, on a \<open>Subflow\<close>.\<close>

datatype build =
    BTask string nat
  | BSubflow string nat
  | BCondition string nat
  | BPrecede nid "nid list"
  | BSucceed nid "nid list"
  | BPriority nid uint

definition branch_put :: "nid \<Rightarrow> node_ptr \<Rightarrow> node_ptr" where
  "branch_put v p =
     (case p of PCondition m \<Rightarrow> PCondition (AList.update (of_nat (length m)) v m) | _ \<Rightarrow> p)"

definition Task_Precede :: "nid \<Rightarrow> nid list \<Rightarrow> heap \<Rightarrow> heap" where
  "Task_Precede t tasks h =
     (let h1 = (case ptr (hnode h t) of
                  PCondition _ \<Rightarrow> fold (\<lambda>v. upd_node t (\<lambda>x. x\<lparr>ptr := branch_put v (ptr x)\<rparr>)) tasks h
                | _ \<Rightarrow> h)
      in fold (precede t) tasks h1)"

definition Task_Succeed :: "nid \<Rightarrow> nid list \<Rightarrow> heap \<Rightarrow> heap" where
  "Task_Succeed t tasks h = fold (\<lambda>v. precede v t) tasks h"

definition Task_Name :: "heap \<Rightarrow> nid \<Rightarrow> string" where
  "Task_Name h t = nname (hnode h t)"

definition Task_Priority :: "nid \<Rightarrow> uint \<Rightarrow> heap \<Rightarrow> heap" where
  "Task_Priority t p = upd_node t (\<lambda>x. x\<lparr>priority := p\<rparr>)"

text \<open>The methods of \<open>Subflow\<close>: create a node, push it into the subflow's graph.\<close>

fun subflow_call :: "gid \<Rightarrow> build \<Rightarrow> heap \<Rightarrow> heap" where
  "subflow_call g (BTask name ns) h = (let (n, h1) = NewStatic name ns h in graph_push g [n] h1)"
| "subflow_call g (BSubflow name ns) h = (let (n, h1) = NewSubflow name ns h in graph_push g [n] h1)"
| "subflow_call g (BCondition name ns) h = (let (n, h1) = NewCondition name ns h in graph_push g [n] h1)"
| "subflow_call g (BPrecede t ts) h = Task_Precede t ts h"
| "subflow_call g (BSucceed t ts) h = Task_Succeed t ts h"
| "subflow_call g (BPriority t p) h = Task_Priority t p h"

definition NewTaskFlow :: "string \<Rightarrow> heap \<Rightarrow> tfid \<times> heap" where
  "NewTaskFlow name h =
     (let (g, h1) = newGraph name h; t = fnext h1
      in (t, h1\<lparr>hflow := (hflow h1)(t := \<lparr>graph = g, frozen = False\<rparr>), fnext := t + 1\<rparr>))"

definition TaskFlow_Reset :: "tfid \<Rightarrow> heap \<Rightarrow> heap" where
  "TaskFlow_Reset t h = h\<lparr>hflow := (hflow h)(t := (hflow h t)\<lparr>frozen := False\<rparr>)\<rparr>"

definition TaskFlow_Name :: "heap \<Rightarrow> tfid \<Rightarrow> string" where
  "TaskFlow_Name h t = gname (hgraph h (graph (hflow h t)))"

definition TaskFlow_push :: "tfid \<Rightarrow> nid list \<Rightarrow> heap \<Rightarrow> go_panic + heap" where
  "TaskFlow_push t ns h =
     (if frozen (hflow h t) then Inl (PanicMsg ''Taskflow is frozen, cannot new tasks'')
      else Inr (graph_push (graph (hflow h t)) ns h))"

fun taskflow_call :: "tfid \<Rightarrow> build \<Rightarrow> heap \<Rightarrow> go_panic + heap" where
  "taskflow_call t (BTask name ns) h = (let (n, h1) = NewStatic name ns h in TaskFlow_push t [n] h1)"
| "taskflow_call t (BSubflow name ns) h = (let (n, h1) = NewSubflow name ns h in TaskFlow_push t [n] h1)"
| "taskflow_call t (BCondition name ns) h = (let (n, h1) = NewCondition name ns h in TaskFlow_push t [n] h1)"
| "taskflow_call t (BPrecede u ts) h = Inr (Task_Precede u ts h)"
| "taskflow_call t (BSucceed u ts) h = Inr (Task_Succeed u ts h)"
| "taskflow_call t (BPriority u p) h = Inr (Task_Priority u p h)"

fun taskflow_calls :: "tfid \<Rightarrow> build list \<Rightarrow> heap \<Rightarrow> go_panic + heap" where
  "taskflow_calls t [] h = Inr h"
| "taskflow_calls t (c # cs) h =
     (case taskflow_call t c h of Inl e \<Rightarrow> Inl e | Inr h1 \<Rightarrow> taskflow_calls t cs h1)"

section \<open>What the operations do to the heap\<close>

lemma upd_node_simps [simp]:
  "hnode (upd_node n f h) = (hnode h)(n := f (hnode h n))" "hgraph (upd_node n f h) = hgraph h"
  "hflow (upd_node n f h) = hflow h" "nnext (upd_node n f h) = nnext h"
  "gnext (upd_node n f h) = gnext h" "fnext (upd_node n f h) = fnext h"
  by (simp_all add: upd_node_def)

lemma upd_graph_simps [simp]:
  "hgraph (upd_graph g k h) = (hgraph h)(g := k (hgraph h g))" "hnode (upd_graph g k h) = hnode h"
  "hflow (upd_graph g k h) = hflow h" "nnext (upd_graph g k h) = nnext h"
  "gnext (upd_graph g k h) = gnext h" "fnext (upd_graph g k h) = fnext h"
  by (simp_all add: upd_graph_def)

lemma nodeType_distinct [simp]:
  "nodeStatic \<noteq> nodeCondition" "nodeSubflow \<noteq> nodeCondition" "nodeStatic \<noteq> nodeSubflow"
  "nodeCondition \<noteq> nodeStatic" "nodeCondition \<noteq> nodeSubflow" "nodeSubflow \<noteq> nodeStatic"
  "nodeStatic \<noteq> []" "nodeSubflow \<noteq> []" "nodeCondition \<noteq> []"
  by (simp_all add: nodeStatic_def nodeSubflow_def nodeCondition_def)

lemma kNodeState_distinct [simp]:
  "kNodeStateWaiting \<noteq> kNodeStateIdle" "kNodeStateRunning \<noteq> kNodeStateIdle"
  "kNodeStateFinished \<noteq> kNodeStateIdle"
  by (simp_all add: kNodeStateIdle_def kNodeStateWaiting_def kNodeStateRunning_def
      kNodeStateFinished_def)

text \<open>Every counter update touches one field of one node; the shape of the graph is not touched.\<close>

definition strong_deps :: "heap \<Rightarrow> nid \<Rightarrow> nid list" where
  "strong_deps h n = filter (\<lambda>d. Typ (hnode h d) \<noteq> nodeCondition) (dependents (hnode h n))"

lemma fold_node_ref:
  "fold (\<lambda>dep h'. if Typ (hnode h' dep) = nodeCondition then h' else node_ref n h') ds h =
   upd_node n (\<lambda>x. x\<lparr>njoin := njoin x +
     of_nat (length (filter (\<lambda>d. Typ (hnode h d) \<noteq> nodeCondition) ds))\<rparr>) h"
proof (induction ds arbitrary: h)
  case Nil
  then show ?case by (simp add: upd_node_def)
next
  case (Cons d ds)
  have "Typ (hnode (node_ref n h) x) = Typ (hnode h x)" for x by (simp add: node_ref_def)
  with Cons show ?case
    by (simp add: node_ref_def upd_node_def algebra_simps)
qed

lemma node_setup_eq:
  "node_setup n h = upd_node n (\<lambda>x. x\<lparr>nstate := kNodeStateIdle,
     njoin := njoin x + of_nat (length (strong_deps h n))\<rparr>) h"
proof -
  have "Typ (hnode (set_state st n h) x) = Typ (hnode h x)" for st x by (simp add: set_state_def)
  then show ?thesis
    by (simp add: node_setup_def fold_node_ref strong_deps_def set_state_def upd_node_def)
qed

lemma fold_upd_node:
  "hgraph (fold (\<lambda>n. upd_node n f) ns h) = hgraph h"
  "hflow (fold (\<lambda>n. upd_node n f) ns h) = hflow h"
  "nnext (fold (\<lambda>n. upd_node n f) ns h) = nnext h"
  "gnext (fold (\<lambda>n. upd_node n f) ns h) = gnext h"
  "fnext (fold (\<lambda>n. upd_node n f) ns h) = fnext h"
  by (induction ns arbitrary: h) simp_all

lemma fold_upd_node_hnode:
  "(\<And>x. f (f x) = f x) \<Longrightarrow>
   hnode (fold (\<lambda>n. upd_node n f) ns h) m = (if m \<in> set ns then f (hnode h m) else hnode h m)"
  by (induction ns arbitrary: h) auto

lemma graph_reset_eq:
  "hnode (graph_reset g h) m =
     (if m \<in> set (gnodes (hgraph h g)) then (hnode h m)\<lparr>njoin := 0\<rparr> else hnode h m)"
  "hgraph (graph_reset g h) = (hgraph h)(g := (hgraph h g)\<lparr>gjoin := 0, entries := []\<rparr>)"
  by (simp_all add: graph_reset_def fold_upd_node_hnode fold_upd_node)

lemma fold_setup_one:
  assumes "distinct ns"
  shows "hnode (fold (setup_one g) ns h) m =
      (if m \<in> set ns then (hnode h m)\<lparr>nstate := kNodeStateIdle,
          njoin := njoin (hnode h m) + of_nat (length (strong_deps h m))\<rparr> else hnode h m)"
    and "hgraph (fold (setup_one g) ns h) = (hgraph h)(g := (hgraph h g)\<lparr>entries :=
          entries (hgraph h g) @ filter (\<lambda>n. dependents (hnode h n) = []) ns\<rparr>)"
  using assms
proof (induction ns arbitrary: h)
  case (Cons n ns)
  have s: "strong_deps (setup_one g n h) k = strong_deps h k"
    "dependents (hnode (setup_one g n h) k) = dependents (hnode h k)" for k h
    by (auto simp: strong_deps_def setup_one_def Let_def node_setup_eq intro!: filter_cong)
  have n: "hnode (setup_one g n h) k = (if k = n then (hnode h n)\<lparr>nstate := kNodeStateIdle,
      njoin := njoin (hnode h n) + of_nat (length (strong_deps h n))\<rparr> else hnode h k)" for k h
    by (auto simp: setup_one_def Let_def node_setup_eq)
  have e: "hgraph (setup_one g n h) = (hgraph h)(g := (hgraph h g)\<lparr>entries :=
          entries (hgraph h g) @ filter (\<lambda>n. dependents (hnode h n) = []) [n]\<rparr>)" for h
    by (auto simp: setup_one_def Let_def node_setup_eq)
  {
    case 1
    then show ?case using Cons.IH(1) [of "setup_one g n h"] by (auto simp: s(1) n)
  next
    case 2
    then show ?case using Cons.IH(2) [of "setup_one g n h"] by (auto simp: s(2) e)
  }
qed simp_all

lemma graph_setup_hnode:
  assumes "distinct (gnodes (hgraph h g))"
  shows "hnode (graph_setup g h) m =
    (if m \<in> set (gnodes (hgraph h g)) then (hnode h m)\<lparr>nstate := kNodeStateIdle,
        njoin := of_nat (length (strong_deps h m))\<rparr> else hnode h m)"
proof -
  have "strong_deps (graph_reset g h) k = strong_deps h k" for k
    by (auto simp: strong_deps_def graph_reset_eq intro!: filter_cong)
  then show ?thesis
    using fold_setup_one(1) [OF assms, of g "graph_reset g h" m]
    by (simp add: graph_setup_def Let_def graph_reset_eq)
qed

lemma graph_setup_hgraph:
  assumes "distinct (gnodes (hgraph h g))"
  shows "hgraph (graph_setup g h) = (hgraph h)(g := (hgraph h g)\<lparr>gjoin := 0,
    entries := filter (\<lambda>n. dependents (hnode h n) = []) (gnodes (hgraph h g))\<rparr>)"
proof -
  have "dependents (hnode (graph_reset g h) n) = dependents (hnode h n)" for n
    by (simp add: graph_reset_eq)
  then show ?thesis
    using fold_setup_one(2) [OF assms, of g "graph_reset g h"]
    by (simp add: graph_setup_def Let_def graph_reset_eq)
qed

section \<open>Heaps the building calls make\<close>

text \<open>
  The invariant of a heap: both ends of an edge record it equally often; edges join allocated
  nodes; a graph lists exactly the nodes that point back to it, once each; the type tag of a node
  agrees with its payload.
\<close>

fun ptr_type :: "node_ptr \<Rightarrow> nodeType" where
  "ptr_type PNil = []"
| "ptr_type PStatic = nodeStatic"
| "ptr_type (PSubflow g) = nodeSubflow"
| "ptr_type (PCondition m) = nodeCondition"

definition typ_ok :: "inner_node \<Rightarrow> bool" where
  "typ_ok x \<longleftrightarrow> Typ x = ptr_type (ptr x)"

definition allocated :: "heap \<Rightarrow> nid \<Rightarrow> bool" where
  "allocated h n \<longleftrightarrow> 0 < n \<and> n < nnext h"

definition edges_ok :: "heap \<Rightarrow> bool" where
  "edges_ok h \<longleftrightarrow>
     (\<forall>n m. count_list (successors (hnode h n)) m = count_list (dependents (hnode h m)) n) \<and>
     (\<forall>n. \<forall>m \<in> set (successors (hnode h n)) \<union> set (dependents (hnode h n)). allocated h n \<and> allocated h m)"

definition graphs_ok :: "heap \<Rightarrow> bool" where
  "graphs_ok h \<longleftrightarrow>
     (\<forall>g. distinct (gnodes (hgraph h g))) \<and>
     (\<forall>g n. n \<in> set (gnodes (hgraph h g)) \<longleftrightarrow> 0 < g \<and> allocated h n \<and> ngraph (hnode h n) = g) \<and>
     (\<forall>n. \<not> allocated h n \<longrightarrow> hnode h n = nil_node) \<and>
     (\<forall>g. g = 0 \<or> gnext h \<le> g \<longrightarrow> hgraph h g = nil_graph) \<and> (\<forall>n. ngraph (hnode h n) < gnext h)"

definition wf_heap :: "heap \<Rightarrow> bool" where
  "wf_heap h \<longleftrightarrow> edges_ok h \<and> graphs_ok h \<and> (\<forall>n. typ_ok (hnode h n)) \<and> 0 < nnext h \<and> 0 < gnext h"

text \<open>A call names tasks that exist; that is all a client of the API can do.\<close>

fun args_ok :: "heap \<Rightarrow> build \<Rightarrow> bool" where
  "args_ok h (BPrecede t ts) = (allocated h t \<and> list_all (allocated h) ts)"
| "args_ok h (BSucceed t ts) = (allocated h t \<and> list_all (allocated h) ts)"
| "args_ok h (BPriority t p) = allocated h t"
| "args_ok h _ = True"

inductive built :: "heap \<Rightarrow> bool" where
  empty: "built empty_heap"
| flow: "built h \<Longrightarrow> NewTaskFlow name h = (t, h') \<Longrightarrow> built h'"
| reset: "built h \<Longrightarrow> built (TaskFlow_Reset t h)"
| tf_call: "built h \<Longrightarrow> 0 < graph (hflow h t) \<Longrightarrow> graph (hflow h t) < gnext h \<Longrightarrow> args_ok h c \<Longrightarrow>
    taskflow_call t c h = Inr h' \<Longrightarrow> built h'"
| sf_call: "built h \<Longrightarrow> 0 < g \<Longrightarrow> g < gnext h \<Longrightarrow> args_ok h c \<Longrightarrow> built (subflow_call g c h)"

lemma wf_empty: "wf_heap empty_heap"
  by (auto simp: wf_heap_def edges_ok_def graphs_ok_def empty_heap_def nil_node_def nil_graph_def
      typ_ok_def allocated_def)

lemma precede_simps [simp]:
  "hgraph (precede n v h) = hgraph h" "hflow (precede n v h) = hflow h"
  "nnext (precede n v h) = nnext h" "gnext (precede n v h) = gnext h"
  "successors (hnode (precede n v h) m) = successors (hnode h m) @ (if m = n then [v] else [])"
  "dependents (hnode (precede n v h) m) = dependents (hnode h m) @ (if m = v then [n] else [])"
  "ngraph (hnode (precede n v h) m) = ngraph (hnode h m)"
  "ptr (hnode (precede n v h) m) = ptr (hnode h m)" "Typ (hnode (precede n v h) m) = Typ (hnode h m)"
  "m \<noteq> n \<Longrightarrow> m \<noteq> v \<Longrightarrow> hnode (precede n v h) m = hnode h m"
  by (simp_all add: precede_def)

lemma precede_wf: "wf_heap h \<Longrightarrow> allocated h n \<Longrightarrow> allocated h v \<Longrightarrow> wf_heap (precede n v h)"
  unfolding wf_heap_def
proof (elim conjE, intro conjI)
  assume e: "edges_ok h" and g: "graphs_ok h" and a: "allocated h n" "allocated h v"
  have al: "allocated (precede n v h) m = allocated h m" for m by (simp add: allocated_def)
  have c: "count_list (successors (hnode h x)) y = count_list (dependents (hnode h y)) x" for x y
    using e by (simp add: edges_ok_def)
  show "edges_ok (precede n v h)"
    unfolding edges_ok_def al
    using e a by (auto simp: c edges_ok_def)
  have "hnode (precede n v h) m = nil_node" if "\<not> allocated h m" for m
    using that a g by (cases "m = n \<or> m = v") (auto simp: graphs_ok_def)
  then show "graphs_ok (precede n v h)"
    using g unfolding graphs_ok_def al by simp
  have "typ_ok (hnode (precede n v h) m) = typ_ok (hnode h m)" for m
    by (simp add: typ_ok_def)
  then show "\<forall>m. typ_ok (hnode h m) \<Longrightarrow> \<forall>m. typ_ok (hnode (precede n v h) m)" by simp
qed simp_all

lemma fold_precede_wf:
  "wf_heap h \<Longrightarrow> allocated h t \<Longrightarrow> list_all (allocated h) ts \<Longrightarrow>
   wf_heap (fold (precede t) ts h) \<and> wf_heap (fold (\<lambda>v. precede v t) ts h)"
proof (induction ts arbitrary: h)
  case (Cons v ts)
  have "list_all (allocated h') ts = list_all (allocated h) ts" if "nnext h' = nnext h" for h'
    using that by (simp add: allocated_def list_all_iff)
  with Cons show ?case
    using precede_wf [of h t v] precede_wf [of h v t] by (simp add: allocated_def)
qed simp

text \<open>Updates of fields the invariant does not read, and payload updates that keep the type tag.\<close>

lemma upd_node_wf:
  assumes "wf_heap h" "allocated h n" "typ_ok (f (hnode h n))"
    "\<And>x. successors (f x) = successors x" "\<And>x. dependents (f x) = dependents x"
    "\<And>x. ngraph (f x) = ngraph x"
  shows "wf_heap (upd_node n f h)"
proof -
  have al: "allocated (upd_node n f h) m = allocated h m" for m by (simp add: allocated_def)
  have x: "successors (hnode (upd_node n f h) m) = successors (hnode h m)"
    "dependents (hnode (upd_node n f h) m) = dependents (hnode h m)"
    "ngraph (hnode (upd_node n f h) m) = ngraph (hnode h m)" for m
    using assms(4-6) by simp_all
  have g: "graphs_ok h" and e: "edges_ok h" using assms(1) by (simp_all add: wf_heap_def)
  have nil: "\<forall>m. \<not> allocated h m \<longrightarrow> hnode (upd_node n f h) m = nil_node"
    using g assms(2) by (auto simp: graphs_ok_def)
  have "edges_ok (upd_node n f h)" using e unfolding edges_ok_def al x .
  moreover have "graphs_ok (upd_node n f h)"
    using g nil unfolding graphs_ok_def al x upd_node_simps(2,5) by blast
  moreover have "typ_ok (hnode (upd_node n f h) m)" for m
    using assms(1,3) by (simp add: wf_heap_def)
  ultimately show ?thesis using assms(1) by (simp add: wf_heap_def)
qed

lemma branch_put_typ: "typ_ok x \<Longrightarrow> typ_ok (x\<lparr>ptr := branch_put v (ptr x)\<rparr>)"
  by (cases "ptr x") (simp_all add: typ_ok_def branch_put_def)

lemma fold_branch_wf:
  "wf_heap h \<Longrightarrow> allocated h t \<Longrightarrow>
   wf_heap (fold (\<lambda>v. upd_node t (\<lambda>x. x\<lparr>ptr := branch_put v (ptr x)\<rparr>)) ts h) \<and>
   nnext (fold (\<lambda>v. upd_node t (\<lambda>x. x\<lparr>ptr := branch_put v (ptr x)\<rparr>)) ts h) = nnext h"
proof (induction ts arbitrary: h)
  case (Cons v ts)
  from Cons.prems have "typ_ok (hnode h t)" by (simp add: wf_heap_def)
  then have "wf_heap (upd_node t (\<lambda>x. x\<lparr>ptr := branch_put v (ptr x)\<rparr>) h)"
    using Cons.prems by (intro upd_node_wf) (auto intro: branch_put_typ)
  from Cons.IH [OF this] Cons.prems show ?case by (simp add: allocated_def)
qed simp

lemma Task_Precede_wf:
  assumes "wf_heap h" "allocated h t" "list_all (allocated h) ts"
  shows "wf_heap (Task_Precede t ts h)"
proof -
  let ?h = "fold (\<lambda>v. upd_node t (\<lambda>x. x\<lparr>ptr := branch_put v (ptr x)\<rparr>)) ts h"
  have h: "wf_heap ?h" "nnext ?h = nnext h" using fold_branch_wf [OF assms(1,2)] by auto
  then have "allocated ?h t" "list_all (allocated ?h) ts"
    using assms by (simp_all add: allocated_def list_all_iff)
  with fold_precede_wf [OF h(1)] fold_precede_wf [OF assms] show ?thesis
    by (simp add: Task_Precede_def Let_def split: node_ptr.splits)
qed

lemma wf_heapD:
  assumes "wf_heap h"
  shows "edges_ok h" "graphs_ok h" "typ_ok (hnode h n)" "0 < nnext h" "0 < gnext h"
    "\<not> allocated h n \<Longrightarrow> hnode h n = nil_node" "hnode h (nnext h) = nil_node"
    "hgraph h (gnext h) = nil_graph" "ngraph (hnode h n) < gnext h"
    "n \<in> set (gnodes (hgraph h g)) \<longleftrightarrow> 0 < g \<and> allocated h n \<and> ngraph (hnode h n) = g"
    "distinct (gnodes (hgraph h g))"
  using assms by (auto simp: wf_heap_def graphs_ok_def allocated_def)

lemma newNode_wf:
  assumes w: "wf_heap h"
  shows "wf_heap (snd (newNode name ns h))" and "fst (newNode name ns h) = nnext h"
    "allocated (snd (newNode name ns h)) (nnext h)" "gnext (snd (newNode name ns h)) = gnext h"
    "ngraph (hnode (snd (newNode name ns h)) (nnext h)) = 0"
proof -
  let ?h = "snd (newNode name ns h)" and ?n = "nnext h"
  show "fst (newNode name ns h) = ?n" "gnext ?h = gnext h" "ngraph (hnode ?h ?n) = 0"
    by (simp_all add: newNode_def Let_def nil_node_def)
  show "allocated ?h ?n" using wf_heapD(4) [OF w] by (simp add: newNode_def Let_def allocated_def)
  have hn: "hnode ?h m = (if m = ?n then hnode ?h m else hnode h m)" for m
    by (simp add: newNode_def Let_def)
  have al: "allocated ?h m \<longleftrightarrow> allocated h m \<or> m = ?n" for m
    using wf_heapD(4) [OF w] by (auto simp: newNode_def Let_def allocated_def)
  have hg: "hgraph ?h = hgraph h" "gnext ?h = gnext h" by (simp_all add: newNode_def Let_def)
  have old: "successors (hnode ?h m) = successors (hnode h m)" "dependents (hnode ?h m) = dependents (hnode h m)"
    "ngraph (hnode ?h m) = ngraph (hnode h m)" for m
    using wf_heapD(7) [OF w] by (auto simp: newNode_def Let_def nil_node_def)
  have "edges_ok ?h" using wf_heapD(1) [OF w] unfolding edges_ok_def al old by blast
  moreover have "graphs_ok ?h"
  proof -
    have nn: "\<not> allocated h ?n" "ngraph (hnode h ?n) = 0"
      using wf_heapD(7) [OF w] by (simp_all add: allocated_def nil_node_def)
    have "\<forall>m. \<not> allocated ?h m \<longrightarrow> hnode ?h m = nil_node"
      using hn al wf_heapD(6) [OF w] by metis
    moreover have "\<forall>g m. m \<in> set (gnodes (hgraph h g)) \<longleftrightarrow>
        0 < g \<and> (allocated h m \<or> m = ?n) \<and> ngraph (hnode h m) = g"
      using wf_heapD(10) [OF w] nn by (metis less_not_refl)
    ultimately show ?thesis
      using wf_heapD(2) [OF w] unfolding graphs_ok_def al old hg by blast
  qed
  moreover have "typ_ok (hnode ?h m)" for m
    using wf_heapD(3) [OF w] by (auto simp: newNode_def Let_def typ_ok_def nil_node_def)
  ultimately show "wf_heap ?h"
    using wf_heapD(5) [OF w] by (simp add: wf_heap_def hg) (simp add: newNode_def Let_def)
qed

lemma newGraph_wf:
  assumes w: "wf_heap h"
  shows "wf_heap (snd (newGraph name h))" and "fst (newGraph name h) = gnext h"
    and "allocated (snd (newGraph name h)) n = allocated h n"
    and "hnode (snd (newGraph name h)) = hnode h" "gnext (snd (newGraph name h)) = gnext h + 1"
proof -
  let ?h = "snd (newGraph name h)"
  show f: "fst (newGraph name h) = gnext h" "allocated ?h n = allocated h n"
    "hnode ?h = hnode h" "gnext ?h = gnext h + 1" for n
    by (simp_all add: newGraph_def Let_def allocated_def)
  have g: "gnodes (hgraph ?h k) = gnodes (hgraph h k)" for k
    using wf_heapD(8) [OF w] by (simp add: newGraph_def Let_def nil_graph_def)
  have "edges_ok ?h" using wf_heapD(1) [OF w] unfolding edges_ok_def f .
  moreover have "graphs_ok ?h"
  proof -
    have "\<forall>k. k = 0 \<or> gnext h + 1 \<le> k \<longrightarrow> hgraph ?h k = nil_graph"
      using wf_heapD(2,5) [OF w] by (auto simp: newGraph_def Let_def graphs_ok_def)
    moreover have "\<forall>m. ngraph (hnode h m) < gnext h + 1"
      using wf_heapD(9) [OF w] by (auto intro: less_SucI)
    ultimately show ?thesis
      using wf_heapD(2) [OF w] unfolding graphs_ok_def f g by blast
  qed
  ultimately show "wf_heap ?h"
    using w by (simp add: wf_heap_def f) (simp add: newGraph_def Let_def)
qed

lemma graph_push_wf:
  assumes w: "wf_heap h" and n: "allocated h n" "ngraph (hnode h n) = 0" and g: "0 < g" "g < gnext h"
  shows "wf_heap (graph_push g [n] h)"
proof -
  let ?h = "graph_push g [n] h"
  have f: "nnext ?h = nnext h" "gnext ?h = gnext h" "allocated ?h m = allocated h m"
    "successors (hnode ?h m) = successors (hnode h m)" "dependents (hnode ?h m) = dependents (hnode h m)"
    "ngraph (hnode ?h m) = (if m = n then g else ngraph (hnode h m))"
    "gnodes (hgraph ?h k) = gnodes (hgraph h k) @ (if k = g then [n] else [])"
    "m \<noteq> n \<Longrightarrow> hnode ?h m = hnode h m" "k \<noteq> g \<Longrightarrow> hgraph ?h k = hgraph h k" for m k
    by (auto simp: graph_push_def allocated_def)
  have nin: "n \<notin> set (gnodes (hgraph h k))" for k using wf_heapD(10) [OF w, of n k] n by auto
  have "edges_ok ?h" using wf_heapD(1) [OF w] unfolding edges_ok_def f(1-5) .
  moreover have "graphs_ok ?h"
    unfolding graphs_ok_def f(2,3)
  proof (intro conjI)
    show "\<forall>k. distinct (gnodes (hgraph ?h k))" using wf_heapD(11) [OF w] nin by (simp add: f)
    show "\<forall>k m. (m \<in> set (gnodes (hgraph ?h k))) = (0 < k \<and> allocated h m \<and> ngraph (hnode ?h m) = k)"
      using wf_heapD(10) [OF w] n g nin by (auto simp: f)
    show "\<forall>m. \<not> allocated h m \<longrightarrow> hnode ?h m = nil_node" using wf_heapD(6) [OF w] n(1) f(8) by metis
    show "\<forall>k. k = 0 \<or> gnext h \<le> k \<longrightarrow> hgraph ?h k = nil_graph"
      using wf_heapD(2) [OF w] g f(9) by (auto simp: graphs_ok_def f(9))
    show "\<forall>m. ngraph (hnode ?h m) < gnext h" using wf_heapD(9) [OF w] g by (simp add: f)
  qed
  moreover have "typ_ok (hnode ?h m)" for m
    using wf_heapD(3) [OF w, of m] by (auto simp: graph_push_def typ_ok_def)
  ultimately show ?thesis using w by (simp add: wf_heap_def f)
qed

text \<open>The three constructors, each followed by the push into a graph.\<close>

lemma tag_wf:
  assumes "wf_heap h" "allocated h n" "ty = ptr_type p"
  shows "wf_heap (upd_node n (\<lambda>x. x\<lparr>ptr := p, Typ := ty\<rparr>) h)"
  using assms by (intro upd_node_wf) (simp_all add: typ_ok_def)

definition fresh_in :: "heap \<Rightarrow> nid \<times> heap \<Rightarrow> bool" where
  "fresh_in h r \<longleftrightarrow> (case r of (n, h') \<Rightarrow>
     n = nnext h \<and> wf_heap h' \<and> allocated h' n \<and> ngraph (hnode h' n) = 0 \<and> gnext h \<le> gnext h')"

lemma new_fresh:
  assumes w: "wf_heap h"
  shows "fresh_in h (NewStatic name ns h)" "fresh_in h (NewCondition name ns h)"
    "fresh_in h (NewSubflow name ns h)"
proof -
  obtain h1 where nn: "newNode name ns h = (nnext h, h1)"
    using newNode_wf(2) [OF w, of name ns] by (cases "newNode name ns h") simp
  note n = newNode_wf [OF w, of name ns, unfolded nn snd_conv]
  show "fresh_in h (NewStatic name ns h)" "fresh_in h (NewCondition name ns h)"
    using n tag_wf [OF n(1,3), of nodeStatic PStatic] tag_wf [OF n(1,3), of nodeCondition "PCondition []"]
    by (simp_all add: fresh_in_def NewStatic_def NewCondition_def nn allocated_def)
  obtain h2 where gg: "newGraph name h1 = (gnext h1, h2)"
    using newGraph_wf(2) [OF n(1), of name] by (cases "newGraph name h1") simp
  note g = newGraph_wf [OF n(1), of name, unfolded gg snd_conv]
  have "allocated h2 (nnext h)" using g(3) n(3) by simp
  with g n tag_wf [OF g(1) this, of nodeSubflow "PSubflow (gnext h1)"]
  show "fresh_in h (NewSubflow name ns h)"
    by (simp add: fresh_in_def NewSubflow_def nn gg allocated_def)
qed

lemma push_fresh:
  assumes "fresh_in h r" "0 < g" "g < gnext h"
  shows "wf_heap (graph_push g [fst r] (snd r))"
  using assms by (cases r) (auto simp: fresh_in_def intro!: graph_push_wf)

lemma subflow_call_wf:
  assumes w: "wf_heap h" and g: "0 < g" "g < gnext h" and a: "args_ok h c"
  shows "wf_heap (subflow_call g c h)"
proof (cases c)
  case (BTask name ns)
  then show ?thesis using push_fresh [OF new_fresh(1) [OF w] g] by (simp add: case_prod_unfold Let_def)
next
  case (BSubflow name ns)
  then show ?thesis using push_fresh [OF new_fresh(3) [OF w] g] by (simp add: case_prod_unfold Let_def)
next
  case (BCondition name ns)
  then show ?thesis using push_fresh [OF new_fresh(2) [OF w] g] by (simp add: case_prod_unfold Let_def)
next
  case (BPrecede t ts)
  then show ?thesis using Task_Precede_wf [OF w] a by simp
next
  case (BSucceed t ts)
  then show ?thesis using fold_precede_wf [OF w] a by (simp add: Task_Succeed_def)
next
  case (BPriority t p)
  then show ?thesis
    using upd_node_wf [OF w, of t "\<lambda>x. x\<lparr>priority := p\<rparr>"] wf_heapD(3) [OF w, of t] a
    by (simp add: Task_Priority_def typ_ok_def)
qed

text \<open>On a taskflow that is not frozen, a call does what the same call does on its graph.\<close>

lemma new_flow [simp]:
  "hflow (snd (NewStatic name ns h)) = hflow h" "hflow (snd (NewSubflow name ns h)) = hflow h"
  "hflow (snd (NewCondition name ns h)) = hflow h"
  by (simp_all add: NewStatic_def NewSubflow_def NewCondition_def newNode_def newGraph_def Let_def)

lemma taskflow_call_Inr:
  "taskflow_call t c h = Inr h' \<Longrightarrow> h' = subflow_call (graph (hflow h t)) c h"
  by (cases c) (auto simp: TaskFlow_push_def case_prod_unfold Let_def split: if_splits)

lemma wf_flow_irrelevant:
  "wf_heap (h\<lparr>hflow := f, fnext := k\<rparr>) = wf_heap h" "wf_heap (h\<lparr>hflow := f\<rparr>) = wf_heap h"
  by (simp_all add: wf_heap_def edges_ok_def graphs_ok_def allocated_def)

lemma NewTaskFlow_wf: "wf_heap h \<Longrightarrow> wf_heap (snd (NewTaskFlow name h))"
  using newGraph_wf(1) [of h name]
  by (simp add: NewTaskFlow_def case_prod_unfold Let_def wf_flow_irrelevant)

lemma built_wf_heap: "built h \<Longrightarrow> wf_heap h"
proof (induction rule: built.induct)
  case empty
  show ?case by (rule wf_empty)
next
  case (flow h name t h')
  then show ?case using NewTaskFlow_wf [of h name] by simp
next
  case (reset h t)
  then show ?case by (simp add: TaskFlow_Reset_def wf_flow_irrelevant)
next
  case (tf_call h t c h')
  then show ?case using subflow_call_wf taskflow_call_Inr by blast
next
  case (sf_call h g c)
  then show ?case using subflow_call_wf by blast
qed

section \<open>What the building calls promise\<close>

text \<open>A small flow for the witnesses: tasks 1 and 2 in graph 1, with an edge from 1 to 2.\<close>

definition two_tasks :: heap where
  "two_tasks = subflow_call 1 (BPrecede 1 [2]) (subflow_call 1 (BTask ''b'' 0)
     (subflow_call 1 (BTask ''a'' 0) (snd (NewTaskFlow ''tf'' empty_heap))))"

lemma flow_started: "built (snd (NewTaskFlow name empty_heap))"
  by (rule built.flow [OF built.empty, of name "fst (NewTaskFlow name empty_heap)"]) simp

lemma two_tasks_built: "built two_tasks"
  unfolding two_tasks_def
  by (intro built.sf_call flow_started)
     (simp_all add: NewTaskFlow_def newGraph_def NewStatic_def newNode_def graph_push_def empty_heap_def
        allocated_def Let_def)

lemma two_tasks_simps:
  "gnodes (hgraph two_tasks 1) = [1, 2]" "successors (hnode two_tasks 1) = [2]"
  "dependents (hnode two_tasks 2) = [1]" "dependents (hnode two_tasks 1) = []"
  "successors (hnode two_tasks 2) = []" "Typ (hnode two_tasks 1) = nodeStatic"
  "Typ (hnode two_tasks 2) = nodeStatic" "ngraph (hnode two_tasks 1) = 1" "ngraph (hnode two_tasks 2) = 1"
  by (simp_all add: two_tasks_def NewTaskFlow_def newGraph_def NewStatic_def newNode_def graph_push_def
      empty_heap_def nil_node_def nil_graph_def Task_Precede_def precede_def Let_def)

text \<open>(C36) Whatever a client builds with the API (tasks, subflows, conditions, \<open>Precede\<close>, \<open>Succeed\<close>,
  \<open>Priority\<close>, on flows and subflows, with resets in between), the heap is well formed: successor and
  dependent lists record every edge equally often, edges join existing nodes, every graph lists its
  own nodes once each, and a node's type tag agrees with its payload.\<close>

theorem api_heap_wf: "built h \<Longrightarrow> wf_heap h"
  by (rule built_wf_heap)

lemma api_heap_wf_witness: "wf_heap two_tasks"
  by (rule api_heap_wf [OF two_tasks_built])

text \<open>(C29) \<open>eGraph.setup\<close> prepares a run: every node of the graph is idle and waits for as many
  completions as it has dependents that are not conditions, the entries are the nodes with no
  dependents at all in the order of their creation, the graph's own counter is zero, its
  cancellation flag is kept, and nothing outside the graph changes.\<close>

theorem graph_setup_prepares:
  assumes "built h"
  shows "hnode (graph_setup g h) m =
      (if m \<in> set (gnodes (hgraph h g))
       then (hnode h m)\<lparr>nstate := kNodeStateIdle,
              njoin := of_nat (length (filter (\<lambda>d. Typ (hnode h d) \<noteq> nodeCondition) (dependents (hnode h m))))\<rparr>
       else hnode h m) \<and>
    hgraph (graph_setup g h) = (hgraph h)(g := (hgraph h g)\<lparr>gjoin := 0,
      entries := filter (\<lambda>n. dependents (hnode h n) = []) (gnodes (hgraph h g))\<rparr>)"
  using graph_setup_hnode graph_setup_hgraph wf_heapD(11) [OF built_wf_heap [OF assms]]
  by (simp add: strong_deps_def)

lemma graph_setup_prepares_witness:
  "njoin (hnode (graph_setup 1 two_tasks) 2) = 1 \<and> entries (hgraph (graph_setup 1 two_tasks) 1) = [1]"
  using graph_setup_prepares [OF two_tasks_built, of 1 2]
  by (simp add: two_tasks_simps [unfolded One_nat_def])

section \<open>Branches of a condition\<close>

definition branch_table :: "nid list \<Rightarrow> (uint \<times> nid) list" where
  "branch_table ns = zip (map of_nat [0..<length ns]) ns"

lemma unat_of_nat_uint: "k < 2 ^ 64 \<Longrightarrow> unat (of_nat k :: uint) = k"
  by (simp add: unat_of_nat take_bit_nat_eq_self)

lemma of_nat_uint_inj: "a < 2 ^ 64 \<Longrightarrow> b < 2 ^ 64 \<Longrightarrow> (of_nat a :: uint) = of_nat b \<Longrightarrow> a = b"
  by (metis unat_of_nat_uint)

lemma branch_table_snoc:
  assumes "length ns < 2 ^ 64"
  shows "AList.update (of_nat (length ns)) v (branch_table ns) = branch_table (ns @ [v])"
proof -
  have "(of_nat (length ns) :: uint) \<noteq> of_nat i" if "i < length ns" for i
    using that assms of_nat_uint_inj [of "length ns" i] by auto
  moreover have "map fst (branch_table ns) = map of_nat [0..<length ns]"
    by (simp add: branch_table_def)
  then have "fst ` set (branch_table ns) = of_nat ` {0..<length ns}"
    by (metis list.set_map set_upt)
  ultimately have "(of_nat (length ns) :: uint) \<notin> fst ` set (branch_table ns)"
    by (metis atLeastLessThan_iff imageE)
  moreover have "AList.update k v al = al @ [(k, v)]" if "k \<notin> fst ` set al" for k and al :: "(uint \<times> nid) list"
    using that by (induction al) auto
  ultimately show ?thesis by (simp add: branch_table_def)
qed

lemma length_branch_table [simp]: "length (branch_table ns) = length ns"
  by (simp add: branch_table_def)

lemma fold_branch_put:
  assumes "ptr (hnode h t) = PCondition (branch_table ns)" "length ns + length ts \<le> 2 ^ 64"
  shows "hnode (fold (\<lambda>v. upd_node t (\<lambda>x. x\<lparr>ptr := branch_put v (ptr x)\<rparr>)) ts h) =
    (hnode h)(t := (hnode h t)\<lparr>ptr := PCondition (branch_table (ns @ ts))\<rparr>)"
  using assms
proof (induction ts arbitrary: h ns)
  case Nil
  then show ?case by (auto intro!: inner_node.equality)
next
  case (Cons v ts)
  then have "branch_put v (ptr (hnode h t)) = PCondition (branch_table (ns @ [v]))"
    by (simp add: branch_put_def branch_table_snoc)
  then show ?case
    using Cons.IH [of "upd_node t (\<lambda>x. x\<lparr>ptr := branch_put v (ptr x)\<rparr>) h" "ns @ [v]"] Cons.prems
    by (simp add: fun_eq_iff)
qed

lemma fold_precede_node:
  "successors (hnode (fold (precede t) ts h) t) = successors (hnode h t) @ ts"
  "ptr (hnode (fold (precede t) ts h) m) = ptr (hnode h m)"
  by (induction ts arbitrary: h) simp_all

text \<open>(C37) For a condition whose branch table lists its successors in order, \<open>Precede\<close> keeps it so:
  the new tasks become the next branches, in the order of the arguments. Hence a condition wired
  with \<open>Precede\<close> alone sends choice \<open>i\<close> to its \<open>i\<close>-th successor.\<close>

theorem Precede_numbers_branches:
  assumes "ptr (hnode h t) = PCondition (branch_table (successors (hnode h t)))"
    and "length (successors (hnode h t)) + length ts \<le> 2 ^ 64"
  shows "successors (hnode (Task_Precede t ts h) t) = successors (hnode h t) @ ts \<and>
    ptr (hnode (Task_Precede t ts h) t) =
      PCondition (branch_table (successors (hnode (Task_Precede t ts h) t)))"
  using fold_branch_put [OF assms] assms(1)
  by (simp add: Task_Precede_def Let_def fold_precede_node)

lemma Precede_numbers_branches_witness:
  "let h = snd (NewCondition ''c'' 0 (snd (NewStatic ''a'' 0 (snd (NewStatic ''b'' 0 empty_heap)))))
   in ptr (hnode (Task_Precede 3 [1, 2] h) 3) = PCondition [(0, 1), (1, 2)]"
proof -
  let ?h = "snd (NewCondition ''c'' 0 (snd (NewStatic ''a'' 0 (snd (NewStatic ''b'' 0 empty_heap)))))"
  have n: "ptr (hnode ?h 3) = PCondition [] \<and> successors (hnode ?h 3) = []"
    by (simp add: NewCondition_def NewStatic_def newNode_def empty_heap_def nil_node_def Let_def)
  then show ?thesis
    using Precede_numbers_branches [of ?h 3 "[1, 2]"] by (simp add: branch_table_def upt_rec)
qed

text \<open>\<open>Succeed\<close> does not number branches: called on a task with a condition as argument it adds
  the edge and leaves the condition's branch table as it was, so the new successor can never be
  chosen. (The two calls are documented as the same edge written in either direction.)\<close>

lemma Succeed_adds_no_branch:
  "successors (hnode (Task_Succeed t [c] h) c) = successors (hnode h c) @ [t] \<and>
   ptr (hnode (Task_Succeed t [c] h) c) = ptr (hnode h c)"
  by (simp add: Task_Succeed_def)

text \<open>A frozen flow accepts no new task of any kind, and the panic leaves the heap to its
  caller unchanged; after \<open>Reset\<close> the same call succeeds. Edges and priorities are not guarded.\<close>

lemma frozen_rejects_tasks:
  assumes "c = BTask name ns \<or> c = BSubflow name ns \<or> c = BCondition name ns"
  shows "(frozen (hflow h t) \<longrightarrow>
      taskflow_call t c h = Inl (PanicMsg ''Taskflow is frozen, cannot new tasks'')) \<and>
    (\<exists>h'. taskflow_call t c (TaskFlow_Reset t h) = Inr h') \<and>
    (\<exists>h'. taskflow_call t (BPrecede u us) h = Inr h')"
  using assms by (auto simp: TaskFlow_push_def case_prod_unfold Let_def TaskFlow_Reset_def)

lemma frozen_rejects_tasks_example:
  "taskflow_call 1 (BTask ''x'' 0) (empty_heap\<lparr>hflow := \<lambda>_. \<lparr>graph = 1, frozen = True\<rparr>\<rparr>) =
     Inl (PanicMsg ''Taskflow is frozen, cannot new tasks'')"
  using frozen_rejects_tasks [of "BTask ''x'' 0" "''x''" 0
      "empty_heap\<lparr>hflow := \<lambda>_. \<lparr>graph = 1, frozen = True\<rparr>\<rparr>" 1] by simp

end
