(* ===== verification/Observer.thy ===== *)
theory Observer
  imports Flow_Graph
begin

text \<open>
  Observation of task execution: the spans, the profiler and the observer of \<open>profiler.go\<close> and the
  tracer of \<open>tracer.go\<close>. Spans are shared by pointer (a child points to its parent, the profiler's
  table and a running task to the same span), so they live in a store of their own and are named by
  numbers. Times and durations are nanoseconds; the current time is an argument. A Go map of
  strings is an association list. Printing (\<open>draw\<close>, the JSON encoder) is not modelled here.
\<close>

section \<open>The code\<close>

type_synonym sid = nat
type_synonym attr = "nodeType \<times> string"

record span =
  extra :: attr
  begin_t :: int
  cost :: int
  parent :: "sid option"
  sdeps :: "string list"

record trace_event =
  eName :: string
  eCat :: string
  ePh :: string
  eTs :: int
  eDur :: int
  ePid :: int
  eTid :: "64 word"
  eArgs :: "(string \<times> string) list"

record tracer =
  tevents :: "trace_event list"
  tstart :: int
  tidGen :: "64 word"

type_synonym profiler = "(attr \<times> sid) list"

record observer =
  oprofiler :: "profiler option"
  otracer :: "tracer option"
  ospan :: "sid \<Rightarrow> span"
  onext :: sid

definition newObserver :: observer where
  "newObserver = \<lparr>oprofiler = None, otracer = None,
     ospan = (\<lambda>_. \<lparr>extra = ([], []), begin_t = 0, cost = 0, parent = None, sdeps = []\<rparr>), onext = 0\<rparr>"

definition newProfiler :: profiler where
  "newProfiler = []"

definition newTracer :: "int \<Rightarrow> tracer" where
  "newTracer now = \<lparr>tevents = [], tstart = now, tidGen = 0\<rparr>"

definition withProfiler :: "observer \<Rightarrow> observer" where
  "withProfiler ob = ob\<lparr>oprofiler := Some newProfiler\<rparr>"

definition withTracer :: "int \<Rightarrow> observer \<Rightarrow> observer" where
  "withTracer now ob = ob\<lparr>otracer := Some (newTracer now)\<rparr>"

text \<open>\<open>Duration.Microseconds\<close>: division truncated towards zero.\<close>

definition microseconds :: "int \<Rightarrow> int" where
  "microseconds d = sgn d * (\<bar>d\<bar> div 1000)"

definition getDependentNames :: "heap \<Rightarrow> nid \<Rightarrow> string list" where
  "getDependentNames h n = map (\<lambda>dep. nname (hnode h dep)) (dependents (hnode h n))"

definition openSpan :: "heap \<Rightarrow> nid \<Rightarrow> sid option \<Rightarrow> int \<Rightarrow> observer \<Rightarrow> sid option \<times> observer" where
  "openSpan h n par now ob =
     (if oprofiler ob = None \<and> otracer ob = None then (None, ob)
      else let s = onext ob
           in (Some s, ob\<lparr>ospan := (ospan ob)(s :=
                 \<lparr>extra = (Typ (hnode h n), nname (hnode h n)), begin_t = now, cost = 0,
                  parent = par, sdeps = getDependentNames h n\<rparr>), onext := s + 1\<rparr>))"

definition set_cost :: "sid \<Rightarrow> int \<Rightarrow> observer \<Rightarrow> observer" where
  "set_cost s c ob = ob\<lparr>ospan := (ospan ob)(s := (ospan ob s)\<lparr>cost := c\<rparr>)\<rparr>"

text \<open>
  \<open>profiler.AddSpan\<close>: the new span takes over the cost recorded under its attribute and replaces
  the span recorded there.
\<close>

definition AddSpan :: "sid \<Rightarrow> profiler \<Rightarrow> observer \<Rightarrow> observer" where
  "AddSpan s p ob =
     (let a = extra (ospan ob s);
          ob1 = (case map_of p a of
                   Some old \<Rightarrow> set_cost s (cost (ospan ob s) + cost (ospan ob old)) ob
                 | None \<Rightarrow> ob)
      in ob1\<lparr>oprofiler := Some (AList.update a s p)\<rparr>)"

fun join_comma :: "string list \<Rightarrow> string" where
  "join_comma [] = ''''"
| "join_comma [d] = d"
| "join_comma (d # ds) = d @ '','' @ join_comma ds"

definition event_args :: "observer \<Rightarrow> span \<Rightarrow> (string \<times> string) list" where
  "event_args ob sp =
     (case parent sp of Some p \<Rightarrow> [(''parent'', snd (extra (ospan ob p)))] | None \<Rightarrow> []) @
     (if length (sdeps sp) > 0 then [(''dependents'', join_comma (sdeps sp))] else [])"

definition AddEvent :: "sid \<Rightarrow> tracer \<Rightarrow> observer \<Rightarrow> observer" where
  "AddEvent s t ob =
     (let sp = ospan ob s; tid = tidGen t + 1;
          ev = \<lparr>eName = snd (extra sp), eCat = fst (extra sp), ePh = ''X'',
                eTs = microseconds (begin_t sp - tstart t), eDur = microseconds (cost sp),
                ePid = 0, eTid = tid, eArgs = event_args ob sp\<rparr>
      in ob\<lparr>otracer := Some (t\<lparr>tevents := tevents t @ [ev], tidGen := tid\<rparr>)\<rparr>)"

definition closeSpan :: "sid option \<Rightarrow> bool \<Rightarrow> int \<Rightarrow> observer \<Rightarrow> observer" where
  "closeSpan s ok now ob =
     (case s of None \<Rightarrow> ob
      | Some i \<Rightarrow>
          (let ob1 = set_cost i (now - begin_t (ospan ob i)) ob;
              ob2 = (case oprofiler ob1 of Some p \<Rightarrow> (if ok then AddSpan i p ob1 else ob1) | None \<Rightarrow> ob1)
          in (case otracer ob2 of Some t \<Rightarrow> AddEvent i t ob2 | None \<Rightarrow> ob2)))"

definition snapshot :: "tracer \<Rightarrow> trace_event list" where
  "snapshot t = tevents t"

section \<open>Properties\<close>

text \<open>The cost recorded under an attribute.\<close>

definition recorded :: "observer \<Rightarrow> attr \<Rightarrow> int" where
  "recorded ob a =
     (case oprofiler ob of None \<Rightarrow> 0
      | Some p \<Rightarrow> (case map_of p a of None \<Rightarrow> 0 | Some s \<Rightarrow> cost (ospan ob s)))"

lemma set_cost_simps [simp]:
  "oprofiler (set_cost s c ob) = oprofiler ob" "otracer (set_cost s c ob) = otracer ob"
  "onext (set_cost s c ob) = onext ob"
  "ospan (set_cost s c ob) = (ospan ob)(s := (ospan ob s)\<lparr>cost := c\<rparr>)"
  by (simp_all add: set_cost_def)

lemma AddEvent_simps [simp]:
  "oprofiler (AddEvent s t ob) = oprofiler ob" "ospan (AddEvent s t ob) = ospan ob"
  "onext (AddEvent s t ob) = onext ob"
  by (simp_all add: AddEvent_def Let_def)

lemma update_map_of: "map_of (AList.update k v al) k' = (if k' = k then Some v else map_of al k')"
  by (simp add: update_conv)

text \<open>The profiler accumulates: closing the span of a task that did not panic adds the
  elapsed time to what is recorded under the task's type and name, and leaves every other
  attribute's total as it was. (The span is new to the profiler, as every opened span is.)\<close>

lemma profiler_accumulates:
  assumes "oprofiler ob = Some p" and "s \<notin> snd ` set p"
  shows "recorded (closeSpan (Some s) True now ob) a =
    recorded ob a + (if a = extra (ospan ob s) then now - begin_t (ospan ob s) else 0)"
proof -
  have "map_of p k \<noteq> Some s" for k
    using assms(2) by (metis image_eqI map_of_SomeD snd_conv)
  from this [of a] this [of "extra (ospan ob s)"] show ?thesis
    using assms(1)
    by (auto simp: closeSpan_def AddSpan_def recorded_def Let_def update_map_of split: option.splits)
qed

lemma profiler_accumulates_example:
  "recorded (closeSpan (Some 3) True 50 (withProfiler newObserver)) ([], []) = 50"
  using profiler_accumulates [of "withProfiler newObserver" "[]" 3 50 "([], [])"]
  by (simp add: withProfiler_def newProfiler_def recorded_def newObserver_def)

text \<open>What the tracer records when a span closes: one event more, with the next thread
  number; its duration is the elapsed time of this execution, but when the profiler is on as well
  and the task did not panic, plus everything the profiler had accumulated for the same type and
  name. So with both options the duration of a repeated task's event is not its own.\<close>

lemma tracer_event:
  assumes "otracer ob = Some t"
  shows "\<exists>t' ev. otracer (closeSpan (Some s) ok now ob) = Some t' \<and> tevents t' = tevents t @ [ev] \<and>
    eTid ev = tidGen t + 1 \<and> tidGen t' = tidGen t + 1 \<and>
    eName ev = snd (extra (ospan ob s)) \<and> eCat ev = fst (extra (ospan ob s)) \<and>
    eDur ev = microseconds (now - begin_t (ospan ob s) +
      (case oprofiler ob of
         Some p \<Rightarrow> (if ok then (case map_of p (extra (ospan ob s)) of
                       Some old \<Rightarrow> (if old = s then now - begin_t (ospan ob s) else cost (ospan ob old))
                     | None \<Rightarrow> 0) else 0)
       | None \<Rightarrow> 0))"
  using assms
  by (auto simp: closeSpan_def AddSpan_def AddEvent_def Let_def split: option.splits)

lemma tracer_event_example:
  "let ob = withTracer 0 newObserver
   in \<exists>t' ev. otracer (closeSpan (Some 0) True 5000 ob) = Some t' \<and> tevents t' = [ev] \<and> eDur ev = 5"
  using tracer_event [of "withTracer 0 newObserver" "newTracer 0" 0 True 5000]
  by (auto simp: withTracer_def newObserver_def newTracer_def microseconds_def)

text \<open>One task and one observed execution of it.\<close>

definition task_x :: heap where
  "task_x = snd (NewStatic ''x'' 0 empty_heap)"

definition observe_run :: "int \<Rightarrow> int \<Rightarrow> observer \<Rightarrow> observer" where
  "observe_run t0 t1 ob =
     (let (s, ob1) = openSpan task_x 1 None t0 ob in closeSpan s True t1 ob1)"

text \<open>With both options on, two consecutive 1-millisecond runs of one task are traced with
  durations of 1000 and 2000 microseconds.\<close>

lemma repeated_task_inflated:
  "map_option (map eDur \<circ> snapshot) (otracer (observe_run 5000000 6000000
     (observe_run 0 1000000 (withTracer 0 (withProfiler newObserver))))) = Some [1000, 2000] \<and>
   map_option (map eDur \<circ> snapshot) (otracer (observe_run 5000000 6000000
     (observe_run 0 1000000 (withTracer 0 newObserver)))) = Some [1000, 1000]"
  by (simp add: observe_run_def openSpan_def closeSpan_def AddSpan_def AddEvent_def set_cost_def
      withTracer_def withProfiler_def newObserver_def newProfiler_def newTracer_def snapshot_def
      microseconds_def Let_def)

end
