(* ===== verification/Ring_Queue.thy ===== *)
theory Ring_Queue
  imports Prelude
begin

text \<open>
  The generic queue of \<open>utils/queue.go\<close>: a ring buffer whose capacity is a power of two, which
  doubles when it is full and halves when it is a quarter full. The state is the Go struct (a slot
  is a pointer, \<open>None\<close> is \<open>nil\<close>; the mutex has no value of its own: an operation is one atomic
  step). An operation that can panic returns a sum. The interface \<open>fifo\<close> states what the
  executor and the goroutine pool rely on; the ring buffer is its interpretation \<open>rq\<close>.
\<close>

section \<open>The code\<close>

record 'a queue =
  buf :: "'a option list"
  head :: nat
  tail :: nat
  count :: nat
  tsafe :: bool

definition minQueueLen :: nat where
  "minQueueLen = 16"

definition NewQueue :: "bool \<Rightarrow> 'a queue" where
  "NewQueue threadSafe =
     \<lparr>buf = replicate minQueueLen None, head = 0, tail = 0, count = 0, tsafe = threadSafe\<rparr>"

definition Len :: "'a queue \<Rightarrow> nat" where
  "Len q = count q"

definition resize :: "'a queue \<Rightarrow> 'a queue" where
  "resize q =
     (let newBuf = replicate (push_bit 1 (count q)) None;
          newBuf' =
            (if tail q > head q
             then go_copy newBuf (go_slice (buf q) (head q) (tail q))
             else let src = drop (head q) (buf q);
                      n = min (length newBuf) (length src);
                      b = go_copy newBuf src
                  in take n b @ go_copy (drop n b) (take (tail q) (buf q)))
      in q\<lparr>head := 0, tail := count q, buf := newBuf'\<rparr>)"

definition Put :: "'a \<Rightarrow> 'a queue \<Rightarrow> 'a queue" where
  "Put elem q =
     (let q1 = (if count q = length (buf q) then resize q else q);
          q2 = q1\<lparr>buf := (buf q1)[tail q1 := Some elem]\<rparr>;
          q3 = q2\<lparr>tail := (tail q2 + 1) AND (length (buf q2) - 1)\<rparr>
      in q3\<lparr>count := count q3 + 1\<rparr>)"

definition Top :: "'a queue \<Rightarrow> go_panic + 'a" where
  "Top q =
     (if count q \<le> 0 then Inl (PanicMsg ''queue: Peek() called on empty queue'')
      else case buf q ! head q of None \<Rightarrow> Inl NilDeref | Some v \<Rightarrow> Inr v)"

definition Get :: "int \<Rightarrow> 'a queue \<Rightarrow> go_panic + 'a" where
  "Get i q =
     (let j = (if i < 0 then i + int (count q) else i)
      in if j < 0 \<or> j \<ge> int (count q)
         then Inl (PanicMsg ''queue: Get() called with index out of range'')
         else case buf q ! ((head q + nat j) AND (length (buf q) - 1)) of
                None \<Rightarrow> Inl NilDeref | Some v \<Rightarrow> Inr v)"

text \<open>The statements \<open>Pop\<close> and \<open>TryPop\<close> share: take the head slot, clear it, advance, shrink.\<close>

definition take_head :: "'a queue \<Rightarrow> 'a option \<times> 'a queue" where
  "take_head q =
     (let ret = buf q ! head q;
          q1 = q\<lparr>buf := (buf q)[head q := None]\<rparr>;
          q2 = q1\<lparr>head := (head q1 + 1) AND (length (buf q1) - 1)\<rparr>;
          q3 = q2\<lparr>count := count q2 - 1\<rparr>;
          q4 = (if length (buf q3) > minQueueLen \<and> push_bit 2 (count q3) = length (buf q3)
                then resize q3 else q3)
      in (ret, q4))"

definition Pop :: "'a queue \<Rightarrow> go_panic + 'a \<times> 'a queue" where
  "Pop q =
     (if count q \<le> 0 then Inl (PanicMsg ''queue: Remove() called on empty queue'')
      else case take_head q of
             (None, _) \<Rightarrow> Inl NilDeref
           | (Some v, q') \<Rightarrow> Inr (v, q'))"

text \<open>\<open>TryPop\<close> reports an empty queue by its second result (\<open>Inr (None, q)\<close>) instead.\<close>

definition TryPop :: "'a queue \<Rightarrow> go_panic + 'a option \<times> 'a queue" where
  "TryPop q =
     (if count q \<le> 0 then Inr (None, q)
      else case take_head q of
             (None, _) \<Rightarrow> Inl NilDeref
           | (Some v, q') \<Rightarrow> Inr (Some v, q'))"

section \<open>Representation invariant and abstraction\<close>

definition live :: "'a queue \<Rightarrow> nat \<Rightarrow> bool" where
  "live q i \<longleftrightarrow> (\<exists>j < count q. i = (head q + j) mod length (buf q))"

definition queue_inv :: "'a queue \<Rightarrow> bool" where
  "queue_inv q \<longleftrightarrow>
     (\<exists>k \<ge> 4. length (buf q) = 2 ^ k) \<and>
     head q < length (buf q) \<and> count q \<le> length (buf q) \<and>
     tail q = (head q + count q) mod length (buf q) \<and>
     (\<forall>i < length (buf q). (buf q ! i \<noteq> None) = live q i)"

definition items :: "'a queue \<Rightarrow> 'a list" where
  "items q = map (\<lambda>j. the (buf q ! ((head q + j) mod length (buf q)))) [0..<count q]"

lemma length_items [simp]: "length (items q) = count q"
  by (simp add: items_def)

lemma and_mask_mod: "n = 2 ^ k \<Longrightarrow> x AND (n - 1) = x mod (n :: nat)"
  by (simp add: take_bit_eq_mod [symmetric] take_bit_eq_mask mask_eq_exp_minus_1)

lemma queue_invD:
  assumes "queue_inv q"
  shows "\<exists>k \<ge> 4. length (buf q) = 2 ^ k" "16 \<le> length (buf q)" "head q < length (buf q)"
    "count q \<le> length (buf q)" "tail q = (head q + count q) mod length (buf q)"
    "i < length (buf q) \<Longrightarrow> (buf q ! i \<noteq> None) = live q i"
    "x AND (length (buf q) - 1) = x mod length (buf q)"
proof -
  obtain k where k: "k \<ge> 4" "length (buf q) = 2 ^ k"
    using assms by (auto simp: queue_inv_def)
  then show "\<exists>k \<ge> 4. length (buf q) = 2 ^ k" by blast
  have "(2 :: nat) ^ 4 \<le> 2 ^ k" using k(1) by (rule power_increasing) simp
  then show "16 \<le> length (buf q)" using k(2) by simp
  show "x AND (length (buf q) - 1) = x mod length (buf q)" using k(2) by (rule and_mask_mod)
qed (use assms in \<open>simp_all add: queue_inv_def\<close>)

text \<open>Every index the code writes or reads is in range.\<close>

lemma tail_in_range: "queue_inv q \<Longrightarrow> tail q < length (buf q)"
  using queue_invD(2,5) [of q] by (metis mod_less_divisor less_le_trans zero_less_numeral)

section \<open>Resizing\<close>

text \<open>
  For a queue that is not empty, \<open>resize\<close> lays the live slots out from index 0 in a buffer of
  twice their number, whichever way the old buffer wraps.
\<close>

lemma wrap_mod: "a < n \<Longrightarrow> b \<le> n \<Longrightarrow> (a + b) mod n = (if a + b < n then a + b else a + b - (n :: nat))"
  by (simp add: mod_if)

lemma buf_resize:
  assumes "head q < length (buf q)" "0 < count q" "count q \<le> length (buf q)"
    "tail q = (head q + count q) mod length (buf q)"
  shows "buf (resize q) =
    map (\<lambda>j. buf q ! ((head q + j) mod length (buf q))) [0..<count q] @ replicate (count q) None"
proof (cases "head q + count q < length (buf q)")
  case True
  then have t: "tail q = head q + count q" using assms by simp
  show ?thesis
    using assms True t
    by (intro nth_equalityI)
       (auto simp: resize_def Let_def go_copy_def go_slice_def push_bit_eq_mult nth_append min_def)
next
  case False
  then have t: "tail q = head q + count q - length (buf q)"
    using assms by (simp add: mod_if)
  then have "tail q \<le> head q" using assms by simp
  let ?l = "length (buf q)"
  have e: "buf (resize q) =
      take (2 * count q) (drop (head q) (buf q) @ take (tail q) (buf q)
        @ replicate (count q) None)"
    using assms False t \<open>tail q \<le> head q\<close>
    by (simp add: resize_def Let_def go_copy_def push_bit_eq_mult)
  have "drop (head q) (buf q) @ take (tail q) (buf q) =
      map (\<lambda>j. buf q ! ((head q + j) mod ?l)) [0..<count q]"
    using assms False t by (intro nth_equalityI) (auto simp: nth_append wrap_mod add.commute)
  then show ?thesis
    using e by (simp flip: append_assoc)
qed

lemma resize_simps [simp]:
  "head (resize q) = 0" "tail (resize q) = count q" "count (resize q) = count q"
  "tsafe (resize q) = tsafe q"
  by (simp_all add: resize_def Let_def)

lemma resize_inv:
  assumes q: "queue_inv q" and n: "8 \<le> count q" and k: "count q = 2 ^ k"
  shows "queue_inv (resize q)" and "items (resize q) = items q"
proof -
  note b = buf_resize [OF queue_invD(3) [OF q] _ queue_invD(4) [OF q] queue_invD(5) [OF q]]
  have len: "length (buf (resize q)) = 2 * count q" using b n by simp
  have "(2::nat) ^ 3 \<le> 2 ^ k" using n k by simp
  then have k3: "3 \<le> k" by (rule power_le_imp_le_exp [rotated]) simp
  have live: "live (resize q) i = (i < count q)" if "i < 2 * count q" for i
    using that len by (auto simp: live_def)
  have old: "buf q ! ((head q + j) mod length (buf q)) \<noteq> None" if "j < count q" for j
  proof -
    have "(head q + j) mod length (buf q) < length (buf q)"
      using queue_invD(3) [OF q] by (intro mod_less_divisor) auto
    then show ?thesis using that queue_invD(6) [OF q] by (auto simp: live_def)
  qed
  show "queue_inv (resize q)"
    unfolding queue_inv_def len resize_simps
    using n k3 k live old b
    by (auto simp: nth_append intro!: exI [of _ "Suc k"])
  show "items (resize q) = items q"
    using len b n by (auto simp: items_def nth_append)
qed

section \<open>Adding and removing\<close>

lemma wrap_inj:
  "h < n \<Longrightarrow> a < n \<Longrightarrow> b < n \<Longrightarrow> (h + a) mod n = (h + b) mod (n :: nat) \<Longrightarrow> a = b"
  by (simp add: wrap_mod split: if_splits)

text \<open>The write of \<open>Put\<close> into a buffer with a free slot.\<close>

definition put_slot :: "'a \<Rightarrow> 'a queue \<Rightarrow> 'a queue" where
  "put_slot x q = q\<lparr>buf := (buf q)[tail q := Some x],
     tail := (tail q + 1) AND (length (buf q) - 1), count := count q + 1\<rparr>"

lemma Put_alt: "Put x q = put_slot x (if count q = length (buf q) then resize q else q)"
  by (simp add: Put_def put_slot_def Let_def)

lemma put_slot_inv:
  assumes q: "queue_inv q" and c: "count q < length (buf q)"
  shows "queue_inv (put_slot x q)" and "items (put_slot x q) = items q @ [x]"
proof -
  let ?n = "length (buf q)"
  have n: "head q < ?n" "tail q = (head q + count q) mod ?n" "tail q < ?n"
    using queue_invD [OF q] tail_in_range [OF q] by auto
  have other: "(head q + j) mod ?n \<noteq> tail q" if "j < count q" for j
    using wrap_inj [of "head q" ?n j "count q"] that c n by auto
  have live: "live (put_slot x q) i = (live q i \<or> i = tail q)" for i
    using n(2) by (auto simp: live_def put_slot_def less_Suc_eq)
  have tl: "(tail q + 1) AND (?n - 1) = (head q + (count q + 1)) mod ?n"
    using queue_invD(7) [OF q] n(2) by (simp add: mod_Suc_eq)
  show "queue_inv (put_slot x q)"
    using queue_invD(1,3,6) [OF q] c live tl n(3)
    by (auto simp: queue_inv_def nth_list_update) (auto simp: put_slot_def nth_list_update)
  show "items (put_slot x q) = items q @ [x]"
    using other [THEN not_sym] n(3) by (auto simp: items_def put_slot_def n(2) [symmetric])
qed

lemma full_count:
  assumes "queue_inv q" "count q = length (buf q)"
  shows "\<exists>k. count q = 2 ^ k" "8 \<le> count q"
  using queue_invD(1,2) [OF assms(1)] assms(2) by auto

lemma Put_inv:
  assumes q: "queue_inv q"
  shows "queue_inv (Put x q)" and "items (Put x q) = items q @ [x]"
proof -
  let ?q = "if count q = length (buf q) then resize q else q"
  have "queue_inv ?q \<and> items ?q = items q \<and> count ?q < length (buf ?q)"
  proof (cases "count q = length (buf q)")
    case True
    from full_count [OF q True] obtain k where "count q = 2 ^ k" "8 \<le> count q" by blast
    note r = resize_inv [OF q this(2,1)]
    have "length (buf (resize q)) = 2 * count q"
      using buf_resize [OF queue_invD(3) [OF q] _ queue_invD(4) [OF q] queue_invD(5) [OF q]]
        \<open>8 \<le> count q\<close> by simp
    with r True \<open>8 \<le> count q\<close> show ?thesis by auto
  next
    case False
    with q queue_invD(4) [OF q] show ?thesis by simp
  qed
  then show "queue_inv (Put x q)" "items (Put x q) = items q @ [x]"
    unfolding Put_alt by (auto dest: put_slot_inv)
qed

text \<open>The state after the head slot is taken and before a possible shrink.\<close>

definition drop_slot :: "'a queue \<Rightarrow> 'a queue" where
  "drop_slot q = q\<lparr>buf := (buf q)[head q := None],
     head := (head q + 1) AND (length (buf q) - 1), count := count q - 1\<rparr>"

lemma take_head_alt:
  "take_head q = (buf q ! head q,
     if length (buf q) > minQueueLen \<and> push_bit 2 (count q - 1) = length (buf q)
     then resize (drop_slot q) else drop_slot q)"
  by (simp add: take_head_def drop_slot_def Let_def)

lemma drop_slot_inv:
  assumes q: "queue_inv q" and c: "0 < count q"
  shows "queue_inv (drop_slot q)" and "items (drop_slot q) = tl (items q)"
    and "buf q ! head q = Some (hd (items q))"
proof -
  let ?n = "length (buf q)"
  have n: "head q < ?n" "count q \<le> ?n" "tail q = (head q + count q) mod ?n"
    using queue_invD [OF q] by auto
  have h: "(head q + 1) AND (?n - 1) = (head q + 1) mod ?n"
    using queue_invD(7) [OF q] .
  have shift: "((head q + 1) mod ?n + j) mod ?n = (head q + Suc j) mod ?n" for j
    by (simp add: mod_add_left_eq)
  have other: "(head q + Suc j) mod ?n \<noteq> head q" if "Suc j < count q" for j
    using wrap_mod [of "head q" ?n "Suc j"] that n by (auto split: if_splits)
  have live: "live (drop_slot q) i = (live q i \<and> i \<noteq> head q)" if "i < ?n" for i
  proof
    assume "live (drop_slot q) i"
    then obtain j where j: "j < count q - 1" "i = (head q + Suc j) mod ?n"
      using h shift by (auto simp: live_def drop_slot_def)
    then show "live q i \<and> i \<noteq> head q"
      using other [of j] by (auto simp: live_def intro!: exI [of _ "Suc j"])
  next
    assume l: "live q i \<and> i \<noteq> head q"
    then obtain j where j: "j < count q" "i = (head q + j) mod ?n" by (auto simp: live_def)
    with l n(1) obtain j' where "j = Suc j'" by (cases j) auto
    with j h shift show "live (drop_slot q) i"
      by (auto simp: live_def drop_slot_def intro!: exI [of _ j'])
  qed
  have lh: "live q (head q)" using c n(1) by (auto simp: live_def intro!: exI [of _ 0])
  have fields: "buf (drop_slot q) = (buf q)[head q := None]" "count (drop_slot q) = count q - 1"
      "head (drop_slot q) = (head q + 1) mod ?n" "tail (drop_slot q) = tail q"
    using h by (simp_all add: drop_slot_def)
  have cells: "(buf (drop_slot q) ! i \<noteq> None) = live (drop_slot q) i" if "i < ?n" for i
    using live [OF that] queue_invD(6) [OF q that] that
    by (cases "i = head q") (simp_all add: fields)
  have tl: "tail q = ((head q + 1) mod ?n + (count q - 1)) mod ?n"
    using shift [of "count q - 1"] n(3) c by simp
  have "0 < ?n" using n(1) by linarith
  then have "(head q + 1) mod ?n < ?n" by (rule mod_less_divisor)
  then show "queue_inv (drop_slot q)"
    using queue_invD(1) [OF q] n(2) c tl cells by (simp add: queue_inv_def fields)
  show "items (drop_slot q) = tl (items q)"
    using other [THEN not_sym] n h shift c
    by (intro nth_equalityI) (auto simp: items_def drop_slot_def nth_list_update nth_tl)
  show "buf q ! head q = Some (hd (items q))"
    using queue_invD(6) [OF q n(1)] lh c n(1) by (auto simp: items_def hd_map)
qed

lemma take_head_inv:
  assumes q: "queue_inv q" and c: "0 < count q"
  shows "fst (take_head q) = Some (hd (items q))"
    and "queue_inv (snd (take_head q))" and "items (snd (take_head q)) = tl (items q)"
proof -
  note d = drop_slot_inv [OF q c]
  have "queue_inv (resize (drop_slot q)) \<and> items (resize (drop_slot q)) = items (drop_slot q)"
    if s: "length (buf q) > 16" "4 * (count q - 1) = length (buf q)"
  proof -
    obtain k where k: "length (buf q) = 2 ^ k" using queue_invD(1) [OF q] by blast
    have "(2 :: nat) ^ 4 < 2 ^ k" using s(1) k by simp
    then have "4 < k" by (rule power_less_imp_less_exp [rotated]) simp
    then obtain m where m: "k = m + 5" by (metis Suc_leI eval_nat_numeral(3) le_Suc_ex add.commute)
    then have "count (drop_slot q) = 2 ^ (m + 3)"
      using s k by (simp add: drop_slot_def power_add)
    moreover from this have "8 \<le> count (drop_slot q)" by (simp add: power_add)
    ultimately show ?thesis using resize_inv [OF d(1)] by blast
  qed
  then show "fst (take_head q) = Some (hd (items q))"
    and "queue_inv (snd (take_head q))" and "items (snd (take_head q)) = tl (items q)"
    using d by (auto simp: take_head_alt minQueueLen_def push_bit_eq_mult)
qed

lemma Pop_empty: "count q = 0 \<Longrightarrow> Pop q = Inl (PanicMsg ''queue: Remove() called on empty queue'')"
  by (simp add: Pop_def)

lemma Pop_Cons:
  assumes q: "queue_inv q" and xs: "items q = x # xs"
  obtains q' where "Pop q = Inr (x, q')" "queue_inv q'" "items q' = xs" "take_head q = (Some x, q')"
proof -
  have c: "0 < count q" using xs length_items [of q] by simp
  note t = take_head_inv [OF q c]
  show thesis
    using t xs c that [of "snd (take_head q)"]
    by (cases "take_head q") (auto simp: Pop_def)
qed

lemma items_empty_iff: "items q = [] \<longleftrightarrow> count q = 0"
  using length_items [of q] by (metis length_0_conv)

lemma NewQueue_inv: "queue_inv (NewQueue b)" "items (NewQueue b) = []"
  by (auto simp: queue_inv_def NewQueue_def minQueueLen_def live_def items_def intro!: exI [of _ 4])

section \<open>The interface\<close>

text \<open>A first-in first-out queue as its clients see it: \<open>list\<close> is its contents, oldest first.\<close>

locale fifo =
  fixes empty :: "'q"
    and put :: "'a \<Rightarrow> 'q \<Rightarrow> 'q"
    and pop :: "'q \<Rightarrow> go_panic + 'a \<times> 'q"
    and len :: "'q \<Rightarrow> nat"
    and list :: "'q \<Rightarrow> 'a list"
    and ok :: "'q \<Rightarrow> bool"
  assumes ok_empty: "ok empty" and list_empty: "list empty = []"
    and len_list: "ok q \<Longrightarrow> len q = length (list q)"
    and ok_put: "ok q \<Longrightarrow> ok (put x q)"
    and list_put: "ok q \<Longrightarrow> list (put x q) = list q @ [x]"
    and pop_empty: "ok q \<Longrightarrow> list q = [] \<Longrightarrow> \<exists>e. pop q = Inl e"
    and pop_Cons: "ok q \<Longrightarrow> list q = x # xs \<Longrightarrow> \<exists>q'. pop q = Inr (x, q') \<and> ok q' \<and> list q' = xs"
begin

lemma len_0: "ok q \<Longrightarrow> len q = 0 \<longleftrightarrow> list q = []"
  by (simp add: len_list)

lemma pop_Inr: "ok q \<Longrightarrow> pop q = Inr (x, q') \<Longrightarrow> ok q' \<and> list q = x # list q'"
  using pop_empty [of q] pop_Cons [of q] by (cases "list q") fastforce+

lemma pop_nonempty: "ok q \<Longrightarrow> list q \<noteq> [] \<Longrightarrow> \<exists>x q'. pop q = Inr (x, q')"
  using pop_Cons by (cases "list q") blast+

lemma put_pop_empty: "ok q \<Longrightarrow> list q = [] \<Longrightarrow> \<exists>q'. pop (put x q) = Inr (x, q') \<and> ok q' \<and> list q' = []"
  using pop_Cons [of "put x q" x "[]"] by (simp add: ok_put list_put)

end

interpretation rq: fifo "NewQueue b" Put Pop Len items queue_inv
  for b
proof
  fix q :: "'a queue" and x xs
  show "queue_inv q \<Longrightarrow> items q = [] \<Longrightarrow> \<exists>e. Pop q = Inl e"
    by (simp add: items_empty_iff Pop_empty)
  show "queue_inv q \<Longrightarrow> items q = x # xs \<Longrightarrow> \<exists>q'. Pop q = Inr (x, q') \<and> queue_inv q' \<and> items q' = xs"
    by (metis Pop_Cons)
qed (simp_all add: NewQueue_inv Put_inv Len_def)

section \<open>Operation sequences refine a list\<close>

lemma items_nth: "j < count q \<Longrightarrow> items q ! j = the (buf q ! ((head q + j) mod length (buf q)))"
  by (simp add: items_def)

lemma slot_Some:
  assumes q: "queue_inv q" and j: "j < count q"
  shows "buf q ! ((head q + j) mod length (buf q)) = Some (items q ! j)"
proof -
  have "(head q + j) mod length (buf q) < length (buf q)"
    using queue_invD(3) [OF q] by (intro mod_less_divisor) auto
  then show ?thesis
    using queue_invD(6) [OF q] j by (force simp: items_nth live_def)
qed

lemma Top_Cons: "queue_inv q \<Longrightarrow> items q = x # xs \<Longrightarrow> Top q = Inr x"
  using slot_Some [of q 0] queue_invD(3) [of q] length_items [of q] by (simp add: Top_def)

datatype 'a queue_call = CPut 'a | CPop | CTryPop | CTop | CLen

datatype 'a queue_result = RVal 'a | RNone | RLen nat | RPanic go_panic

fun run_calls :: "'a queue_call list \<Rightarrow> 'a queue \<Rightarrow> 'a queue_result list" where
  "run_calls [] q = []"
| "run_calls (CPut x # cs) q = run_calls cs (Put x q)"
| "run_calls (CPop # cs) q =
     (case Pop q of Inl e \<Rightarrow> RPanic e # run_calls cs q | Inr (v, q') \<Rightarrow> RVal v # run_calls cs q')"
| "run_calls (CTryPop # cs) q =
     (case TryPop q of Inl e \<Rightarrow> RPanic e # run_calls cs q
      | Inr (None, q') \<Rightarrow> RNone # run_calls cs q' | Inr (Some v, q') \<Rightarrow> RVal v # run_calls cs q')"
| "run_calls (CTop # cs) q =
     (case Top q of Inl e \<Rightarrow> RPanic e # run_calls cs q | Inr v \<Rightarrow> RVal v # run_calls cs q)"
| "run_calls (CLen # cs) q = RLen (Len q) # run_calls cs q"

fun list_calls :: "'a queue_call list \<Rightarrow> 'a list \<Rightarrow> 'a queue_result list" where
  "list_calls [] xs = []"
| "list_calls (CPut x # cs) xs = list_calls cs (xs @ [x])"
| "list_calls (CPop # cs) xs =
     (case xs of [] \<Rightarrow> RPanic (PanicMsg ''queue: Remove() called on empty queue'') # list_calls cs xs
      | y # ys \<Rightarrow> RVal y # list_calls cs ys)"
| "list_calls (CTryPop # cs) xs =
     (case xs of [] \<Rightarrow> RNone # list_calls cs xs | y # ys \<Rightarrow> RVal y # list_calls cs ys)"
| "list_calls (CTop # cs) xs =
     (case xs of [] \<Rightarrow> RPanic (PanicMsg ''queue: Peek() called on empty queue'') # list_calls cs xs
      | y # ys \<Rightarrow> RVal y # list_calls cs xs)"
| "list_calls (CLen # cs) xs = RLen (length xs) # list_calls cs xs"

lemma TryPop_Cons:
  "queue_inv q \<Longrightarrow> items q = x # xs \<Longrightarrow>
   \<exists>q'. TryPop q = Inr (Some x, q') \<and> queue_inv q' \<and> items q' = xs"
  using take_head_inv [of q] length_items [of q] by (cases "take_head q") (auto simp: TryPop_def)

lemma run_calls_list: "queue_inv q \<Longrightarrow> run_calls cs q = list_calls cs (items q)"
proof (induction cs arbitrary: q)
  case Nil
  then show ?case by simp
next
  case (Cons c cs)
  note q = Cons.prems
  have len: "Len q = length (items q)" by (simp add: Len_def)
  show ?case
  proof (cases "items q")
    case Nil
    then have "count q = 0" by (simp add: items_empty_iff)
    then have e: "Pop q = Inl (PanicMsg ''queue: Remove() called on empty queue'')"
        "TryPop q = Inr (None, q)" "Top q = Inl (PanicMsg ''queue: Peek() called on empty queue'')"
      by (simp_all add: Pop_def TryPop_def Top_def)
    show ?thesis
    proof (cases c)
      case (CPut x)
      then show ?thesis using Cons.IH [OF Put_inv(1) [OF q]] by (simp add: Put_inv(2) [OF q])
    qed (simp_all add: e Nil len Cons.IH [OF q])
  next
    case xs: (Cons x xs)
    obtain q' where p: "Pop q = Inr (x, q')" "queue_inv q'" "items q' = xs"
      by (rule Pop_Cons [OF q xs])
    obtain q'' where t: "TryPop q = Inr (Some x, q'')" "queue_inv q''" "items q'' = xs"
      using TryPop_Cons [OF q xs] by blast
    show ?thesis
    proof (cases c)
      case (CPut y)
      then show ?thesis using Cons.IH [OF Put_inv(1) [OF q]] by (simp add: Put_inv(2) [OF q])
    next
      case CPop
      then show ?thesis using Cons.IH [OF p(2)] by (simp add: p xs)
    next
      case CTryPop
      then show ?thesis using Cons.IH [OF t(2)] by (simp add: t xs)
    qed (simp_all add: xs len Top_Cons [OF q xs] Cons.IH [OF q])
  qed
qed

text \<open>(C28) What the queue's methods return is what a list would: every sequence of \<open>Put\<close>, \<open>Pop\<close>,
  \<open>TryPop\<close>, \<open>Top\<close> and \<open>Len\<close> calls on a new queue gives the results of the same calls on a list,
  through every growth, wrap-around and shrink of the ring buffer.\<close>

theorem queue_refines_list: "run_calls cs (NewQueue b) = list_calls cs []"
  using run_calls_list [OF NewQueue_inv(1), of cs b] by (simp add: NewQueue_inv)

text \<open>\<open>Get\<close> indexes the contents from either end: index \<open>i\<close> from the front for
  \<open>0 \<le> i < count\<close>, index \<open>count + i\<close> for a negative \<open>i \<ge> -count\<close>, and a panic for every other
  \<open>i\<close>; it never reads an empty slot.\<close>

lemma Get_index:
  assumes "queue_inv q"
  shows "Get i q =
    (if 0 \<le> i \<and> i < int (count q) then Inr (items q ! nat i)
     else if - int (count q) \<le> i \<and> i < 0 then Inr (items q ! nat (i + int (count q)))
     else Inl (PanicMsg ''queue: Get() called with index out of range''))"
  using slot_Some [OF assms] queue_invD(7) [OF assms]
  by (auto simp: Get_def Let_def nat_less_iff)

lemma Get_index_example:
  "Get (- 1) (Put 7 (Put (5 :: nat) (NewQueue False))) = Inr 7 \<and>
   Get 0 (Put 7 (Put (5 :: nat) (NewQueue False))) = Inr 5 \<and>
   Get 2 (Put 7 (Put (5 :: nat) (NewQueue False))) =
     Inl (PanicMsg ''queue: Get() called with index out of range'')"
proof -
  have q: "queue_inv (Put 7 (Put (5 :: nat) (NewQueue False)))"
    and i: "items (Put 7 (Put (5 :: nat) (NewQueue False))) = [5, 7]"
    by (simp_all add: Put_inv NewQueue_inv)
  have "count (Put 7 (Put (5 :: nat) (NewQueue False))) = 2"
    using length_items [of "Put 7 (Put (5 :: nat) (NewQueue False))"] i by simp
  then show ?thesis using Get_index [OF q] i by simp
qed

section \<open>Memory\<close>

text \<open>The buffer never exceeds its minimum or four times its contents.\<close>

definition tight :: "'a queue \<Rightarrow> bool" where
  "tight q \<longleftrightarrow> length (buf q) = minQueueLen \<or> length (buf q) < 4 * count q"

fun after_calls :: "'a queue_call list \<Rightarrow> 'a queue \<Rightarrow> 'a queue" where
  "after_calls [] q = q"
| "after_calls (CPut x # cs) q = after_calls cs (Put x q)"
| "after_calls (CPop # cs) q =
     after_calls cs (case Pop q of Inl e \<Rightarrow> q | Inr (v, q') \<Rightarrow> q')"
| "after_calls (CTryPop # cs) q =
     after_calls cs (case TryPop q of Inl e \<Rightarrow> q | Inr (v, q') \<Rightarrow> q')"
| "after_calls (CTop # cs) q = after_calls cs q"
| "after_calls (CLen # cs) q = after_calls cs q"

lemma length_buf_resize:
  assumes "queue_inv q" "0 < count q"
  shows "length (buf (resize q)) = 2 * count q"
  using buf_resize [OF queue_invD(3) [OF assms(1)] assms(2) queue_invD(4,5) [OF assms(1)]] by simp

lemma tight_Put:
  assumes q: "queue_inv q" "tight q"
  shows "tight (Put x q)"
proof (cases "count q = length (buf q)")
  case True
  moreover have "0 < count q" using full_count(2) [OF q(1) True] by simp
  ultimately show ?thesis
    using length_buf_resize [OF q(1)] by (simp add: tight_def Put_alt put_slot_def)
next
  case False
  with q(2) show ?thesis by (auto simp: tight_def Put_alt put_slot_def)
qed

lemma tight_take_head:
  assumes q: "queue_inv q" "tight q" and c: "0 < count q"
  shows "tight (snd (take_head q))"
proof -
  note d = drop_slot_inv(1) [OF q(1) c]
  have f: "length (buf (drop_slot q)) = length (buf q)" "count (drop_slot q) = count q - 1"
    by (simp_all add: drop_slot_def)
  obtain k where k: "length (buf q) = 2 ^ k" "4 \<le> k" using queue_invD(1) [OF q(1)] by blast
  then obtain m where m: "length (buf q) = 4 * m" by (cases k; cases "k - 1") auto
  show ?thesis
  proof (cases "length (buf q) > minQueueLen \<and> 4 * (count q - 1) = length (buf q)")
    case True
    then have "0 < count (drop_slot q)" using f by (simp add: minQueueLen_def) linarith
    then have "length (buf (resize (drop_slot q))) = 2 * (count q - 1)"
      using length_buf_resize [OF d] f by simp
    with True f show ?thesis
      by (auto simp: take_head_alt push_bit_eq_mult tight_def minQueueLen_def)
  next
    case False
    then show ?thesis
      using q(2) f m queue_invD(2) [OF q(1)]
      by (auto simp: take_head_alt push_bit_eq_mult tight_def minQueueLen_def)
  qed
qed

lemma after_calls_tight: "queue_inv q \<Longrightarrow> tight q \<Longrightarrow> queue_inv (after_calls cs q) \<and> tight (after_calls cs q)"
proof (induction cs arbitrary: q)
  case (Cons c cs)
  have t: "queue_inv (snd (take_head q)) \<and> tight (snd (take_head q))" if "\<not> count q \<le> 0"
    using that take_head_inv(2) tight_take_head Cons.prems by auto
  show ?case
    using Cons.IH [OF Put_inv(1) [OF Cons.prems(1)] tight_Put [OF Cons.prems]]
      Cons.IH [OF Cons.prems] Cons.IH [of "snd (take_head q)"] t
    by (cases c) (auto simp: Pop_def TryPop_def split: prod.splits option.splits)
qed simp

text \<open>The queue's memory follows its contents: after any sequence of calls on a new queue the
  buffer has the minimum capacity 16 or less than four slots per stored element, and never fewer
  slots than elements.\<close>

lemma queue_memory_bound:
  "let q = after_calls cs (NewQueue b)
   in count q \<le> length (buf q) \<and> (length (buf q) = minQueueLen \<or> length (buf q) < 4 * count q)"
proof -
  have "tight (NewQueue b)" by (simp add: tight_def NewQueue_def)
  from after_calls_tight [OF NewQueue_inv(1) this, of cs] show ?thesis
    using queue_invD(4) by (auto simp: Let_def tight_def)
qed

end
