(* ===== verification/Copool.thy ===== *)
theory Copool
  imports Ring_Queue
begin

text \<open>
  The goroutine pool of \<open>utils/copool.go\<close>. The pool's state is the Go struct: the capacity, the
  task queue (a ring buffer), the counters of running tasks and of live workers. \<open>CtxGo\<close> is the
  critical section of a submission, with a flag for the \<open>go\<close> statement it may execute;
  \<open>worker_poll\<close> is the critical section of a worker's loop; \<open>task_end\<close> is what the wrapper
  \<open>task.f\<close> does around the submitted function. A queued task is the submitted function itself:
  the recycled \<open>cotask\<close> object that carries it is written in full before every use. The second
  half runs the pool as a machine of one submitter and its workers.
\<close>

section \<open>The code\<close>

record 'f copool =
  pcap :: nat
  taskQ :: "'f queue"
  corun :: int32
  coworker :: nat
  panicHandler :: bool

definition NewCopool :: "nat \<Rightarrow> 'f copool" where
  "NewCopool c =
     \<lparr>pcap = c, taskQ = NewQueue False, corun = 0, coworker = 0, panicHandler = False\<rparr>"

definition SetPanicHandler :: "'f copool \<Rightarrow> 'f copool" where
  "SetPanicHandler cp = cp\<lparr>panicHandler := True\<rparr>"

definition CtxGo :: "'f \<Rightarrow> 'f copool \<Rightarrow> 'f copool \<times> bool" where
  "CtxGo f cp =
     (let cp1 = cp\<lparr>corun := corun cp + 1\<rparr>;
          cp2 = cp1\<lparr>taskQ := Put f (taskQ cp1)\<rparr>
      in if coworker cp2 = 0 \<or> Len (taskQ cp2) \<noteq> 0 \<and> coworker cp2 < pcap cp2
         then (cp2\<lparr>coworker := coworker cp2 + 1\<rparr>, True)
         else (cp2, False))"

definition worker_poll :: "'f copool \<Rightarrow> go_panic + 'f option \<times> 'f copool" where
  "worker_poll cp =
     (if Len (taskQ cp) = 0 then Inr (None, cp\<lparr>coworker := coworker cp - 1\<rparr>)
      else case Pop (taskQ cp) of
             Inl e \<Rightarrow> Inl e
           | Inr (f, q) \<Rightarrow> Inr (Some f, cp\<lparr>taskQ := q\<rparr>))"

text \<open>
  The end of a task: the deferred decrement, then the recovery of a panic by the handler. With no
  handler the process exits (\<open>None\<close>).
\<close>

definition task_end :: "bool \<Rightarrow> 'f copool \<Rightarrow> 'f copool option" where
  "task_end panicked cp =
     (let cp1 = cp\<lparr>corun := corun cp - 1\<rparr>
      in if panicked \<and> \<not> panicHandler cp1 then None else Some cp1)"

section \<open>The interface\<close>

text \<open>
  What the executor relies on: submissions are queued in order, a submission starts a worker
  exactly when there is none or the limit allows one more, and a worker leaves only when the queue
  is empty.
\<close>

locale worker_pool =
  fixes submit :: "'f \<Rightarrow> 'p \<Rightarrow> 'p \<times> bool"
    and poll :: "'p \<Rightarrow> go_panic + 'f option \<times> 'p"
    and queued :: "'p \<Rightarrow> 'f list"
    and workers :: "'p \<Rightarrow> nat"
    and limit :: "'p \<Rightarrow> nat"
    and ok :: "'p \<Rightarrow> bool"
  assumes submit_queued: "ok p \<Longrightarrow> queued (fst (submit f p)) = queued p @ [f]"
    and submit_spawn: "ok p \<Longrightarrow> snd (submit f p) = (workers p = 0 \<or> workers p < limit p)"
    and submit_workers: "ok p \<Longrightarrow> workers (fst (submit f p)) = workers p + of_bool (snd (submit f p))"
    and submit_ok: "ok p \<Longrightarrow> ok (fst (submit f p)) \<and> limit (fst (submit f p)) = limit p"
    and poll_empty: "ok p \<Longrightarrow> queued p = [] \<Longrightarrow> \<exists>p'. poll p = Inr (None, p') \<and> ok p' \<and>
       queued p' = [] \<and> workers p' = workers p - 1 \<and> limit p' = limit p"
    and poll_Cons: "ok p \<Longrightarrow> queued p = f # fs \<Longrightarrow> \<exists>p'. poll p = Inr (Some f, p') \<and> ok p' \<and>
       queued p' = fs \<and> workers p' = workers p \<and> limit p' = limit p"
begin

lemma submit_has_worker: "ok p \<Longrightarrow> 0 < workers (fst (submit f p))"
  using submit_spawn [of p f] submit_workers [of p f] by auto

lemma submit_bound:
  "ok p \<Longrightarrow> workers p \<le> max 1 (limit p) \<Longrightarrow>
   workers (fst (submit f p)) \<le> max 1 (limit (fst (submit f p)))"
  using submit_spawn [of p f] submit_workers [of p f] submit_ok [of p f] by auto

lemma poll_total: "ok p \<Longrightarrow> \<exists>r p'. poll p = Inr (r, p') \<and> ok p' \<and> limit p' = limit p"
  using poll_empty [of p] poll_Cons [of p] by (cases "queued p") blast+

lemma poll_None:
  "ok p \<Longrightarrow> poll p = Inr (None, p') \<Longrightarrow>
   ok p' \<and> queued p = [] \<and> queued p' = [] \<and> workers p' = workers p - 1 \<and> limit p' = limit p"
  using poll_empty [of p] poll_Cons [of p] by (cases "queued p") fastforce+

lemma poll_Some:
  "ok p \<Longrightarrow> poll p = Inr (Some f, p') \<Longrightarrow>
   ok p' \<and> queued p = f # queued p' \<and> workers p' = workers p \<and> limit p' = limit p"
  using poll_empty [of p] poll_Cons [of p] by (cases "queued p") fastforce+

end

definition pool_ok :: "'f copool \<Rightarrow> bool" where
  "pool_ok cp \<longleftrightarrow> queue_inv (taskQ cp)"

abbreviation pool_items :: "'f copool \<Rightarrow> 'f list" where
  "pool_items cp \<equiv> items (taskQ cp)"

interpretation cp: worker_pool CtxGo worker_poll pool_items coworker pcap pool_ok
proof
  fix p :: "'f copool" and f fs
  assume p: "pool_ok p"
  then have q: "queue_inv (taskQ p)" by (simp add: pool_ok_def)
  have l: "Len (Put f (taskQ p)) \<noteq> 0"
    using rq.len_0 [OF Put_inv(1) [OF q]] by (simp add: Put_inv(2) [OF q])
  show "pool_items (fst (CtxGo f p)) = pool_items p @ [f]"
    "snd (CtxGo f p) = (coworker p = 0 \<or> coworker p < pcap p)"
    "coworker (fst (CtxGo f p)) = coworker p + of_bool (snd (CtxGo f p))"
    "pool_ok (fst (CtxGo f p)) \<and> pcap (fst (CtxGo f p)) = pcap p"
    using l Put_inv [OF q] by (auto simp: CtxGo_def Let_def pool_ok_def)
  show "pool_items p = [] \<Longrightarrow> \<exists>p'. worker_poll p = Inr (None, p') \<and> pool_ok p' \<and>
       pool_items p' = [] \<and> coworker p' = coworker p - 1 \<and> pcap p' = pcap p"
    using rq.len_0 [OF q] p by (simp add: worker_poll_def pool_ok_def)
  show "pool_items p = f # fs \<Longrightarrow> \<exists>p'. worker_poll p = Inr (Some f, p') \<and> pool_ok p' \<and>
       pool_items p' = fs \<and> coworker p' = coworker p \<and> pcap p' = pcap p"
    using rq.len_0 [OF q] rq.pop_Cons [OF q, of f fs] by (auto simp: worker_poll_def pool_ok_def)
qed

lemma NewCopool_simps [simp]:
  "pool_ok (NewCopool c)" "pool_items (NewCopool c) = []" "coworker (NewCopool c) = 0"
  "pcap (NewCopool c) = c"
  by (simp_all add: pool_ok_def NewCopool_def NewQueue_inv)

section \<open>The pool and its workers\<close>

text \<open>
  A worker goroutine is about to poll, runs a task, or has returned. The history fields record the
  tasks submitted, the tasks workers have started and the tasks that ended, in order.
\<close>

datatype 'f worker = Polling | Busy 'f | Gone

record 'f pool_run =
  pool :: "'f copool"
  wks :: "'f worker list"
  submitted :: "'f list"
  started :: "'f list"
  ended :: "'f list"

definition pool_start :: "nat \<Rightarrow> 'f pool_run" where
  "pool_start c = \<lparr>pool = NewCopool c, wks = [], submitted = [], started = [], ended = []\<rparr>"

inductive pool_step :: "'f pool_run \<Rightarrow> 'f pool_run \<Rightarrow> bool" where
  submit: "CtxGo f (pool s) = (p, spawn) \<Longrightarrow>
    pool_step s (s\<lparr>pool := p, wks := wks s @ (if spawn then [Polling] else []),
                   submitted := submitted s @ [f]\<rparr>)"
| fetch: "i < length (wks s) \<Longrightarrow> wks s ! i = Polling \<Longrightarrow> worker_poll (pool s) = Inr (Some f, p) \<Longrightarrow>
    pool_step s (s\<lparr>pool := p, wks := (wks s)[i := Busy f], started := started s @ [f]\<rparr>)"
| leave: "i < length (wks s) \<Longrightarrow> wks s ! i = Polling \<Longrightarrow> worker_poll (pool s) = Inr (None, p) \<Longrightarrow>
    pool_step s (s\<lparr>pool := p, wks := (wks s)[i := Gone]\<rparr>)"
| finish: "i < length (wks s) \<Longrightarrow> wks s ! i = Busy f \<Longrightarrow> task_end panicked (pool s) = Some p \<Longrightarrow>
    pool_step s (s\<lparr>pool := p, wks := (wks s)[i := Polling], ended := ended s @ [f]\<rparr>)"

inductive pool_reach :: "nat \<Rightarrow> 'f pool_run \<Rightarrow> bool" for c where
  start: "pool_reach c (pool_start c)"
| step: "pool_reach c s \<Longrightarrow> pool_step s t \<Longrightarrow> pool_reach c t"

definition live_workers :: "'f worker list \<Rightarrow> nat" where
  "live_workers ws = sum_list (map (\<lambda>w. of_bool (w \<noteq> Gone)) ws)"

definition busy_tasks :: "'f worker list \<Rightarrow> 'f multiset" where
  "busy_tasks ws = sum_list (map (\<lambda>w. case w of Busy f \<Rightarrow> {#f#} | _ \<Rightarrow> {#}) ws)"

definition pool_run_inv :: "nat \<Rightarrow> 'f pool_run \<Rightarrow> bool" where
  "pool_run_inv c s \<longleftrightarrow>
     pool_ok (pool s) \<and> pcap (pool s) = c \<and>
     coworker (pool s) = live_workers (wks s) \<and> coworker (pool s) \<le> max 1 c \<and>
     (pool_items (pool s) \<noteq> [] \<longrightarrow> 0 < coworker (pool s)) \<and>
     started s @ pool_items (pool s) = submitted s \<and>
     mset (started s) = mset (ended s) + busy_tasks (wks s)"

lemma busy_tasks_update:
  "i < length ws \<Longrightarrow> busy_tasks (ws[i := w]) + busy_tasks [ws ! i] = busy_tasks ws + busy_tasks [w]"
proof (induction ws arbitrary: i)
  case (Cons a ws)
  then show ?case by (cases i) (auto simp: busy_tasks_def ac_simps)
qed simp

lemma live_workers_update:
  "i < length ws \<Longrightarrow>
   live_workers (ws[i := w]) + of_bool (ws ! i \<noteq> Gone) = live_workers ws + of_bool (w \<noteq> Gone)"
  unfolding live_workers_def by (rule sum_list_update)

lemma task_end_simps:
  "task_end b p = Some p' \<Longrightarrow>
   taskQ p' = taskQ p \<and> coworker p' = coworker p \<and> pcap p' = pcap p"
  by (auto simp: task_end_def Let_def split: if_splits)

lemma pool_step_inv: "pool_step s t \<Longrightarrow> pool_run_inv c s \<Longrightarrow> pool_run_inv c t"
proof (induction rule: pool_step.induct)
  case (submit f s p spawn)
  have ok: "pool_ok (pool s)" using submit.prems by (simp add: pool_run_inv_def)
  note facts = cp.submit_queued [OF ok, of f] cp.submit_workers [OF ok, of f] cp.submit_ok [OF ok, of f]
    cp.submit_has_worker [OF ok, of f] cp.submit_bound [OF ok, of f]
  have "live_workers (wks s @ (if spawn then [Polling] else [])) = live_workers (wks s) + of_bool spawn"
    "busy_tasks (wks s @ (if spawn then [Polling] else [])) = busy_tasks (wks s)"
    by (auto simp: live_workers_def busy_tasks_def)
  then show ?case
    using submit facts by (auto simp: pool_run_inv_def)
next
  case (fetch i s f p)
  then have "pool_ok (pool s)" by (simp add: pool_run_inv_def)
  from cp.poll_Some [OF this fetch.hyps(3)] show ?case
    using fetch live_workers_update [of i "wks s" "Busy f"] busy_tasks_update [of i "wks s" "Busy f"]
    by (auto simp: pool_run_inv_def busy_tasks_def)
next
  case (leave i s p)
  then have "pool_ok (pool s)" by (simp add: pool_run_inv_def)
  from cp.poll_None [OF this leave.hyps(3)] show ?case
    using leave live_workers_update [of i "wks s" Gone] busy_tasks_update [of i "wks s" Gone]
    by (auto simp: pool_run_inv_def busy_tasks_def)
next
  case (finish i s f b p)
  from task_end_simps [OF finish.hyps(3)] show ?case
    using finish live_workers_update [of i "wks s" Polling] busy_tasks_update [of i "wks s" Polling]
    by (auto simp: pool_run_inv_def busy_tasks_def pool_ok_def)
qed

lemma pool_start_inv: "pool_run_inv c (pool_start c)"
  by (simp add: pool_start_def pool_run_inv_def live_workers_def busy_tasks_def)

lemma pool_reach_inv: "pool_reach c s \<Longrightarrow> pool_run_inv c s"
  by (induction rule: pool_reach.induct) (blast intro: pool_start_inv pool_step_inv)+

text \<open>(C38) The pool runs at most \<open>max 1 cap\<close> workers at a time, its counter \<open>coworker\<close> is the
  number of live ones, and tasks are started in the order of their submission, each once: the
  started tasks followed by the queued ones are the submitted ones.\<close>

theorem pool_bounded_fifo:
  assumes "pool_reach c s"
  shows "coworker (pool s) = live_workers (wks s) \<and> live_workers (wks s) \<le> max 1 c \<and>
    started s @ pool_items (pool s) = submitted s"
  using pool_reach_inv [OF assms] by (simp add: pool_run_inv_def)

text \<open>The state after a submission, for the witnesses.\<close>

definition after_submit :: "'f \<Rightarrow> 'f pool_run \<Rightarrow> 'f pool_run" where
  "after_submit f s = s\<lparr>pool := fst (CtxGo f (pool s)),
     wks := wks s @ (if snd (CtxGo f (pool s)) then [Polling] else []), submitted := submitted s @ [f]\<rparr>"

lemma after_submit_reach: "pool_reach c (after_submit f (pool_start c))"
  unfolding after_submit_def by (rule pool_reach.step [OF pool_reach.start pool_step.submit]) simp

lemma after_submit_simps:
  "submitted (after_submit f (pool_start c)) = [f]" "ended (after_submit f (pool_start c)) = []"
  "wks (after_submit f (pool_start c)) = [Polling]"
  using cp.submit_spawn [of "NewCopool c" f] by (simp_all add: after_submit_def pool_start_def)

lemma pool_bounded_fifo_witness:
  "coworker (pool (after_submit (7 :: nat) (pool_start 0))) = 1 \<and>
   live_workers (wks (after_submit (7 :: nat) (pool_start 0))) \<le> max 1 0 \<and>
   started (after_submit (7 :: nat) (pool_start 0)) @
     pool_items (pool (after_submit 7 (pool_start 0))) = [7]"
  using pool_bounded_fifo [OF after_submit_reach [of 0 "7 :: nat"]]
  by (simp add: after_submit_simps live_workers_def)

lemma live_workers_pos: "0 < live_workers ws \<Longrightarrow> \<exists>i < length ws. ws ! i \<noteq> Gone"
proof (rule ccontr)
  assume "0 < live_workers ws" and "\<not> ?thesis"
  then have "\<forall>w \<in> set ws. w = Gone" by (auto simp: in_set_conv_nth)
  then have "live_workers ws = 0" by (simp add: live_workers_def)
  with \<open>0 < live_workers ws\<close> show False by simp
qed

lemma busy_tasks_nonempty: "busy_tasks ws \<noteq> {#} \<Longrightarrow> \<exists>i < length ws. ws ! i \<noteq> Gone"
proof (induction ws)
  case (Cons w ws)
  then show ?case
    by (cases "w = Gone") (auto simp: busy_tasks_def intro: exI [of _ "Suc _"])
qed (simp add: busy_tasks_def)

lemma worker_can_move:
  assumes "pool_run_inv c s" "i < length (wks s)" "wks s ! i \<noteq> Gone"
  shows "\<exists>t. pool_step s t \<and> submitted t = submitted s"
proof (cases "wks s ! i")
  case Polling
  from assms(1) have "pool_ok (pool s)" by (simp add: pool_run_inv_def)
  then obtain r p where "worker_poll (pool s) = Inr (r, p)" using cp.poll_total by blast
  with Polling assms(2) show ?thesis
    by (cases r) (fastforce dest: pool_step.fetch pool_step.leave)+
next
  case (Busy f)
  have "task_end False (pool s) = Some ((pool s)\<lparr>corun := corun (pool s) - 1\<rparr>)"
    by (simp add: task_end_def)
  from pool_step.finish [OF assms(2) Busy this] show ?thesis by fastforce
qed (use assms in simp)

text \<open>(C39) No submitted task is forgotten: as long as some task has not ended, a worker can take a
  step without any further submission.\<close>

theorem pool_no_lost_task:
  assumes "pool_reach c s" and "length (ended s) \<noteq> length (submitted s)"
  shows "\<exists>t. pool_step s t \<and> submitted t = submitted s"
proof -
  note inv = pool_reach_inv [OF assms(1)]
  have "pool_items (pool s) \<noteq> [] \<or> busy_tasks (wks s) \<noteq> {#}"
  proof (rule ccontr)
    assume "\<not> ?thesis"
    with inv have "mset (submitted s) = mset (ended s)" by (auto simp: pool_run_inv_def)
    with assms(2) show False by (metis size_mset)
  qed
  then have "\<exists>i < length (wks s). wks s ! i \<noteq> Gone"
    using inv live_workers_pos [of "wks s"] busy_tasks_nonempty [of "wks s"]
    by (auto simp: pool_run_inv_def)
  with worker_can_move [OF inv] show ?thesis by blast
qed

lemma pool_no_lost_task_witness:
  "\<exists>t. pool_step (after_submit (7 :: nat) (pool_start 4)) t \<and> submitted t = [7]"
  using pool_no_lost_task [OF after_submit_reach [of 4 "7 :: nat"]]
  by (simp add: after_submit_simps)

end
