(* ===== verification/Executor.thy ===== *)
theory Executor
  imports Observer Copool
begin

text \<open>
  The executor of \<open>executor.go\<close> (and \<open>options.go\<close>) as an interleaving machine. The state holds the
  heap, the executor's fields, and one program counter per goroutine: the client goroutines that
  call \<open>Run\<close> and \<open>Wait\<close>, and the workers of the pool. A step is one atomic action of one goroutine:
  an atomic load or store, or a critical section. What the code leaves open is an input of the
  step (type \<open>choice\<close>): what a user function does when it is called, and the order in which the
  unstable \<open>slices.SortFunc\<close> leaves equal priorities. \<open>hist\<close> records the calls of user functions.

  Locks. A goroutine at \<open>PPut n\<close> holds the mutex of the condition variable of the node's graph
  (between \<open>ref\<close> and the signal), and one at \<open>LPop\<close> holds \<open>e.mu\<close> (between the check of the loop
  and the pop); the other critical sections are single steps. A goroutine at \<open>LWait g\<close> sleeps on
  the condition variable of \<open>g\<close> until a signal moves it. At most one goroutine waits on a graph, as
  a graph is run by one goroutine at a time; the signal wakes the first that does.
\<close>

section \<open>State\<close>

type_synonym tid = nat

text \<open>The functions handed to the pool: the node, the parent span, and a subflow's graph.\<close>

datatype closure =
    StaticC nid "sid option"
  | SubflowC nid "sid option" gid
  | ConditionC nid "sid option"

fun cnode :: "closure \<Rightarrow> nid" where
  "cnode (StaticC n p) = n"
| "cnode (SubflowC n p g) = n"
| "cnode (ConditionC n p) = n"

fun cparent :: "closure \<Rightarrow> sid option" where
  "cparent (StaticC n p) = p"
| "cparent (SubflowC n p g) = p"
| "cparent (ConditionC n p) = p"

datatype call = Run tfid | Wait

text \<open>What \<open>scheduleGraph\<close> returns to: \<open>Run\<close>, or the deferred function of a subflow with its span.\<close>

datatype gkont = GMain "call list" | GSub closure "sid option"

text \<open>What \<open>schedule\<close> returns to: \<open>scheduleGraph\<close>, \<open>sche_successors\<close>, the body of a condition.\<close>

datatype skont = KLoop gid gkont | KSucc closure | KCond closure "sid option"

datatype pc =
    Client "call list"
  | GSetup gid gkont
  | Schedule "nid list" skont
  | PRef nid "nid list" skont
  | PPut nid "nid list" skont
  | LCheck gid gkont
  | LWait gid gkont
  | LPop gid gkont
  | LInvoke nid gid gkont
  | LLeave gid gkont
  | WPoll
  | WGone
  | Body closure
  | Handle closure "sid option"
  | Defer closure "sid option" bool
  | Drop closure "nid list"
  | Succs closure "nid list" "nid list"
  | NSetup closure "nid list"
  | Deref closure
  | CSetup closure
  | Done closure
  | Crashed go_panic

datatype hevent = HCall nid | HRet nid | HPanic nid | HEnd nid

record sys =
  heap :: heap
  concurrency :: nat
  wq :: "nid queue"
  wg :: int
  obs :: observer
  epool :: "closure copool"
  threads :: "pc list"
  hist :: "hevent list"

datatype choice =
    Tau
  | Sorted "nid list"
  | Return
  | Panic
  | Choose uint
  | Instantiate "build list" bool

type_synonym event = "tid \<times> choice \<times> int"

datatype exec_option = WithProfiler | WithTracer

fun apply_option :: "int \<Rightarrow> exec_option \<Rightarrow> observer \<Rightarrow> observer" where
  "apply_option now WithProfiler ob = withProfiler ob"
| "apply_option now WithTracer ob = withTracer now ob"

text \<open>\<open>NewExecutor\<close>, together with the client goroutines that will use it.\<close>

definition NewExecutor :: "nat \<Rightarrow> exec_option list \<Rightarrow> int \<Rightarrow> heap \<Rightarrow> call list list \<Rightarrow> go_panic + sys" where
  "NewExecutor c opts now h clients =
     (if c = 0 then Inl (PanicMsg ''executor concurrency cannot be zero'')
      else Inr \<lparr>heap = h, concurrency = c, wq = NewQueue False, wg = 0,
                obs = fold (apply_option now) opts newObserver, epool = NewCopool c,
                threads = map Client clients, hist = []\<rparr>)"

section \<open>Helpers of the steps\<close>

definition goto :: "tid \<Rightarrow> pc \<Rightarrow> sys \<Rightarrow> sys" where
  "goto i p s = s\<lparr>threads := (threads s)[i := p]\<rparr>"

definition on_heap :: "(heap \<Rightarrow> heap) \<Rightarrow> sys \<Rightarrow> sys" where
  "on_heap f s = s\<lparr>heap := f (heap s)\<rparr>"

definition log :: "hevent list \<Rightarrow> sys \<Rightarrow> sys" where
  "log es s = s\<lparr>hist := hist s @ es\<rparr>"

definition graph_of :: "sys \<Rightarrow> nid \<Rightarrow> gid" where
  "graph_of s n = ngraph (hnode (heap s) n)"

definition is_canceled :: "sys \<Rightarrow> gid \<Rightarrow> bool" where
  "is_canceled s g \<longleftrightarrow> canceled (hgraph (heap s) g)"

fun holds_cond :: "heap \<Rightarrow> gid \<Rightarrow> pc \<Rightarrow> bool" where
  "holds_cond h g (PPut n ns k) = (ngraph (hnode h n) = g)"
| "holds_cond h g _ = False"

fun holds_mu :: "pc \<Rightarrow> bool" where
  "holds_mu (LPop g k) = True"
| "holds_mu _ = False"

definition cond_free :: "sys \<Rightarrow> gid \<Rightarrow> bool" where
  "cond_free s g \<longleftrightarrow> \<not> list_ex (holds_cond (heap s) g) (threads s)"

definition mu_free :: "sys \<Rightarrow> bool" where
  "mu_free s \<longleftrightarrow> \<not> list_ex holds_mu (threads s)"

fun signal :: "gid \<Rightarrow> pc list \<Rightarrow> pc list" where
  "signal g [] = []"
| "signal g (LWait g' k # ps) = (if g' = g then LCheck g k # ps else LWait g' k # signal g ps)"
| "signal g (p # ps) = p # signal g ps"

definition do_signal :: "gid \<Rightarrow> sys \<Rightarrow> sys" where
  "do_signal g s = s\<lparr>threads := signal g (threads s)\<rparr>"

text \<open>What \<open>slices.SortFunc\<close> on priorities guarantees: a permutation in ascending order.\<close>

definition is_sort :: "heap \<Rightarrow> nid list \<Rightarrow> nid list \<Rightarrow> bool" where
  "is_sort h xs ys \<longleftrightarrow> mset ys = mset xs \<and> sorted (map (\<lambda>n. priority (hnode h n)) ys)"

fun after_schedule :: "skont \<Rightarrow> pc" where
  "after_schedule (KLoop g k) = LCheck g k"
| "after_schedule (KSucc c) = Deref c"
| "after_schedule (KCond c sp) = Defer c sp True"

fun kont_span :: "gkont \<Rightarrow> sid option" where
  "kont_span (GMain cs) = None"
| "kont_span (GSub c sp) = sp"

definition spawn :: "bool \<Rightarrow> sys \<Rightarrow> sys" where
  "spawn b s = (if b then s\<lparr>threads := threads s @ [WPoll]\<rparr> else s)"

section \<open>The steps of one goroutine\<close>

text \<open>\<open>Run\<close> and \<open>Wait\<close>.\<close>

fun client_step :: "sys \<Rightarrow> tid \<Rightarrow> call list \<Rightarrow> sys option" where
  "client_step s i [] = None"
| "client_step s i (Run tf # cs) =
     Some (goto i (GSetup (graph (hflow (heap s) tf)) (GMain cs))
       (on_heap (\<lambda>h. h\<lparr>hflow := (hflow h)(tf := (hflow h tf)\<lparr>frozen := True\<rparr>)\<rparr>) s))"
| "client_step s i (Wait # cs) = (if wg s = 0 then Some (goto i (Client cs) s) else None)"

text \<open>\<open>scheduleGraph\<close>: set the graph up and sort its entries.\<close>

definition gsetup_step :: "sys \<Rightarrow> tid \<Rightarrow> gid \<Rightarrow> gkont \<Rightarrow> choice \<Rightarrow> sys option" where
  "gsetup_step s i g k ch =
     (let h = graph_setup g (heap s)
      in case ch of
           Sorted es \<Rightarrow>
             if is_sort h (entries (hgraph h g)) es
             then Some (goto i (Schedule es (KLoop g k))
                    (s\<lparr>heap := upd_graph g (\<lambda>x. x\<lparr>entries := es\<rparr>) h\<rparr>))
             else None
         | _ \<Rightarrow> None)"

text \<open>\<open>schedule\<close>, one node: the cancellation check and \<open>wg.Add\<close>; then, under the lock of the
  graph's condition variable, \<open>ref\<close>, \<open>pushIntoQueue\<close> (under \<open>e.mu\<close>) and the signal.\<close>

fun schedule_step :: "sys \<Rightarrow> tid \<Rightarrow> nid list \<Rightarrow> skont \<Rightarrow> sys option" where
  "schedule_step s i [] k = Some (goto i (after_schedule k) s)"
| "schedule_step s i (n # ns) k =
     (if is_canceled s (graph_of s n)
      then if cond_free s (graph_of s n)
           then Some (goto i (after_schedule k) (do_signal (graph_of s n) s)) else None
      else Some (goto i (PRef n ns k) (s\<lparr>wg := wg s + 1\<rparr>)))"

definition pref_step :: "sys \<Rightarrow> tid \<Rightarrow> nid \<Rightarrow> nid list \<Rightarrow> skont \<Rightarrow> sys option" where
  "pref_step s i n ns k =
     (if cond_free s (graph_of s n)
      then Some (goto i (PPut n ns k) (on_heap (graph_ref (graph_of s n)) s)) else None)"

definition pput_step :: "sys \<Rightarrow> tid \<Rightarrow> nid \<Rightarrow> nid list \<Rightarrow> skont \<Rightarrow> sys option" where
  "pput_step s i n ns k =
     (if mu_free s
      then Some (goto i (Schedule ns k) (do_signal (graph_of s n) (s\<lparr>wq := Put n (wq s)\<rparr>)))
      else None)"

text \<open>\<open>invokeGraph\<close>: the waiting loop; the second check and the pop, with \<open>e.mu\<close> held.\<close>

definition lcheck_step :: "sys \<Rightarrow> tid \<Rightarrow> gid \<Rightarrow> gkont \<Rightarrow> sys option" where
  "lcheck_step s i g k =
     (if cond_free s g \<and> mu_free s
      then if \<not> graph_recyclable (heap s) g \<and> Len (wq s) = 0 \<and> \<not> is_canceled s g
           then Some (goto i (LWait g k) s)
           else Some (goto i (LPop g k) s)
      else None)"

definition lpop_step :: "sys \<Rightarrow> tid \<Rightarrow> gid \<Rightarrow> gkont \<Rightarrow> sys option" where
  "lpop_step s i g k =
     (if graph_recyclable (heap s) g \<or> is_canceled s g
      then Some (goto i (LLeave g k) s)
      else case Pop (wq s) of
             Inl e \<Rightarrow> Some (goto i (Crashed e) s)
           | Inr (n, q) \<Rightarrow> Some (goto i (LInvoke n g k) (s\<lparr>wq := q\<rparr>)))"

text \<open>\<open>invokeNode\<close>: the type switch and the submission to the pool.\<close>

definition make_closure :: "heap \<Rightarrow> nid \<Rightarrow> sid option \<Rightarrow> closure option" where
  "make_closure h n sp =
     (case ptr (hnode h n) of
        PStatic \<Rightarrow> Some (StaticC n sp)
      | PSubflow g \<Rightarrow> Some (SubflowC n sp g)
      | PCondition m \<Rightarrow> Some (ConditionC n sp)
      | PNil \<Rightarrow> None)"

definition linvoke_step :: "sys \<Rightarrow> tid \<Rightarrow> nid \<Rightarrow> gid \<Rightarrow> gkont \<Rightarrow> sys option" where
  "linvoke_step s i n g k =
     (case make_closure (heap s) n (kont_span k) of
        None \<Rightarrow> Some (goto i (Crashed (PanicMsg ''unsupported node'')) s)
      | Some c \<Rightarrow>
          (let (p, b) = CtxGo c (epool s)
           in Some (spawn b (goto i (LCheck g k) (s\<lparr>epool := p\<rparr>)))))"

text \<open>The end of \<open>scheduleGraph\<close>: the parent's cancellation, the last signal, the return.\<close>

fun lleave_step :: "sys \<Rightarrow> tid \<Rightarrow> gid \<Rightarrow> gkont \<Rightarrow> sys option" where
  "lleave_step s i g (GMain cs) = Some (goto i (Client cs) (do_signal g s))"
| "lleave_step s i g (GSub c sp) =
     (let s1 = (if is_canceled s g then on_heap (graph_cancel (graph_of s (cnode c))) s else s)
      in Some (goto i (Drop c (successors (hnode (heap s) (cnode c)))) (do_signal g s1)))"

text \<open>The worker's loop.\<close>

definition wpoll_step :: "sys \<Rightarrow> tid \<Rightarrow> sys option" where
  "wpoll_step s i =
     (case worker_poll (epool s) of
        Inl e \<Rightarrow> Some (goto i (Crashed e) s)
      | Inr (None, p) \<Rightarrow> Some (goto i WGone (s\<lparr>epool := p\<rparr>))
      | Inr (Some c, p) \<Rightarrow> Some (goto i (Body c) (s\<lparr>epool := p\<rparr>)))"

text \<open>The start of a closure: the span, the cancellation check, the state, the call.\<close>

fun calls_handle :: "heap \<Rightarrow> closure \<Rightarrow> bool" where
  "calls_handle h (SubflowC n p g) = (\<not> instantiated (hgraph h g))"
| "calls_handle h _ = True"

definition body_step :: "sys \<Rightarrow> tid \<Rightarrow> closure \<Rightarrow> int \<Rightarrow> sys option" where
  "body_step s i c now =
     (let n = cnode c; (sp, ob) = openSpan (heap s) n (cparent c) now (obs s); s1 = s\<lparr>obs := ob\<rparr>
      in if is_canceled s (graph_of s n) then Some (goto i (Defer c sp True) s1)
         else Some (goto i (Handle c sp)
                (log (if calls_handle (heap s) c then [HCall n] else [])
                  (on_heap (set_state kNodeStateRunning n) s1))))"

text \<open>What the user function does, and the rest of the body.\<close>

fun handle_step :: "sys \<Rightarrow> tid \<Rightarrow> closure \<Rightarrow> sid option \<Rightarrow> choice \<Rightarrow> sys option" where
  "handle_step s i (StaticC n p) sp ch =
     (case ch of
        Return \<Rightarrow> Some (goto i (Defer (StaticC n p) sp True)
                    (log [HRet n] (on_heap (set_state kNodeStateFinished n) s)))
      | Panic \<Rightarrow> Some (goto i (Defer (StaticC n p) sp False) (log [HPanic n] s))
      | _ \<Rightarrow> None)"
| "handle_step s i (SubflowC n p g) sp ch =
     (if instantiated (hgraph (heap s) g)
      then (case ch of
              Tau \<Rightarrow> Some (goto i (Defer (SubflowC n p g) sp True)
                       (on_heap (set_state kNodeStateFinished n) s))
            | _ \<Rightarrow> None)
      else (case ch of
              Instantiate cs ok \<Rightarrow>
                (let s1 = on_heap (fold (subflow_call g) cs) s
                 in if ok
                    then Some (goto i (Defer (SubflowC n p g) sp True)
                           (log [HRet n] (on_heap (\<lambda>h. set_state kNodeStateFinished n
                              (upd_graph g (\<lambda>x. x\<lparr>instantiated := True\<rparr>) h)) s1)))
                    else Some (goto i (Defer (SubflowC n p g) sp False) (log [HPanic n] s1)))
            | _ \<Rightarrow> None))"
| "handle_step s i (ConditionC n p) sp ch =
     (case ch of
        Choose v \<Rightarrow>
          (case ptr (hnode (heap s) n) of
             PCondition m \<Rightarrow>
               if v > of_nat (length m)
               then Some (goto i (Defer (ConditionC n p) sp False) (log [HRet n, HCall n, HPanic n] s))
               else (let s1 = log [HRet n] (on_heap (set_state kNodeStateFinished n) s)
                     in case map_of m v of
                          Some t \<Rightarrow> Some (goto i (Schedule [t] (KCond (ConditionC n p) sp)) s1)
                        | None \<Rightarrow> Some (goto i (Defer (ConditionC n p) sp False) (log [HPanic n] s1)))
           | _ \<Rightarrow> None)
      | Panic \<Rightarrow> Some (goto i (Defer (ConditionC n p) sp False) (log [HPanic n] s))
      | _ \<Rightarrow> None)"

text \<open>The deferred function up to \<open>drop\<close>: cancellation after a panic, the span; a subflow then runs
  its graph.\<close>

fun defer_step :: "sys \<Rightarrow> tid \<Rightarrow> closure \<Rightarrow> sid option \<Rightarrow> bool \<Rightarrow> int \<Rightarrow> sys option" where
  "defer_step s i (SubflowC n p g) sp ok now =
     (let s1 = (if ok then s else on_heap (\<lambda>h. graph_cancel g (graph_cancel (graph_of s n) h)) s);
          s2 = s1\<lparr>obs := closeSpan sp ok now (obs s1)\<rparr>
      in Some (goto i (GSetup g (GSub (SubflowC n p g) sp)) s2))"
| "defer_step s i c sp ok now =
     (let s1 = (if ok then s else on_heap (graph_cancel (graph_of s (cnode c))) s);
          s2 = s1\<lparr>obs := closeSpan sp ok now (obs s1)\<rparr>
      in Some (goto i (Drop c (successors (hnode (heap s) (cnode c)))) s2))"

fun is_condition :: "closure \<Rightarrow> bool" where
  "is_condition (ConditionC n p) = True"
| "is_condition _ = False"

text \<open>\<open>drop\<close>, one successor at a time.\<close>

fun drop_step :: "sys \<Rightarrow> tid \<Rightarrow> closure \<Rightarrow> nid list \<Rightarrow> sys option" where
  "drop_step s i c (v # vs) = Some (goto i (Drop c vs) (on_heap (drop_one (cnode c) v) s))"
| "drop_step s i c [] =
     Some (goto i (if is_condition c then Deref c
                   else Succs c (successors (hnode (heap s) (cnode c))) []) s)"

text \<open>\<open>sche_successors\<close>: one successor at a time under its mutex; the sort and \<open>setup\<close>; \<open>schedule\<close>.\<close>

fun succs_step :: "sys \<Rightarrow> tid \<Rightarrow> closure \<Rightarrow> nid list \<Rightarrow> nid list \<Rightarrow> sys option" where
  "succs_step s i c (v # vs) cand =
     (if node_recyclable (heap s) v \<and> nstate (hnode (heap s) v) = kNodeStateIdle
      then Some (goto i (Succs c vs (cand @ [v])) (on_heap (set_state kNodeStateWaiting v) s))
      else Some (goto i (Succs c vs cand) s))"
| "succs_step s i c [] cand = Some (goto i (NSetup c cand) s)"

definition nsetup_step :: "sys \<Rightarrow> tid \<Rightarrow> closure \<Rightarrow> nid list \<Rightarrow> choice \<Rightarrow> sys option" where
  "nsetup_step s i c cand ch =
     (case ch of
        Sorted es \<Rightarrow>
          if is_sort (heap s) cand es
          then Some (goto i (Schedule es (KSucc c)) (on_heap (node_setup (cnode c)) s)) else None
      | _ \<Rightarrow> None)"

text \<open>\<open>eGraph.deref\<close> with its signal; a condition's late \<open>setup\<close>; \<open>wg.Done\<close> and the return.\<close>

definition deref_step :: "sys \<Rightarrow> tid \<Rightarrow> closure \<Rightarrow> sys option" where
  "deref_step s i c =
     (let g = graph_of s (cnode c)
      in if cond_free s g
         then Some (goto i (if is_condition c then CSetup c else Done c)
                (do_signal g (on_heap (graph_deref g) s)))
         else None)"

definition csetup_step :: "sys \<Rightarrow> tid \<Rightarrow> closure \<Rightarrow> sys option" where
  "csetup_step s i c = Some (goto i (Done c) (on_heap (node_setup (cnode c)) s))"

definition done_step :: "sys \<Rightarrow> tid \<Rightarrow> closure \<Rightarrow> sys option" where
  "done_step s i c =
     (if wg s - 1 < 0 then Some (goto i (Crashed (PanicMsg ''sync: negative WaitGroup counter'')) s)
      else case task_end False (epool s) of
             None \<Rightarrow> None
           | Some p \<Rightarrow> Some (goto i WPoll (log [HEnd (cnode c)] (s\<lparr>wg := wg s - 1, epool := p\<rparr>))))"

section \<open>The machine\<close>

fun pc_step :: "sys \<Rightarrow> tid \<Rightarrow> pc \<Rightarrow> choice \<Rightarrow> int \<Rightarrow> sys option" where
  "pc_step s i (Client cs) ch now = client_step s i cs"
| "pc_step s i (GSetup g k) ch now = gsetup_step s i g k ch"
| "pc_step s i (Schedule ns k) ch now = schedule_step s i ns k"
| "pc_step s i (PRef n ns k) ch now = pref_step s i n ns k"
| "pc_step s i (PPut n ns k) ch now = pput_step s i n ns k"
| "pc_step s i (LCheck g k) ch now = lcheck_step s i g k"
| "pc_step s i (LWait g k) ch now = None"
| "pc_step s i (LPop g k) ch now = lpop_step s i g k"
| "pc_step s i (LInvoke n g k) ch now = linvoke_step s i n g k"
| "pc_step s i (LLeave g k) ch now = lleave_step s i g k"
| "pc_step s i WPoll ch now = wpoll_step s i"
| "pc_step s i WGone ch now = None"
| "pc_step s i (Body c) ch now = body_step s i c now"
| "pc_step s i (Handle c sp) ch now = handle_step s i c sp ch"
| "pc_step s i (Defer c sp ok) ch now = defer_step s i c sp ok now"
| "pc_step s i (Drop c vs) ch now = drop_step s i c vs"
| "pc_step s i (Succs c vs cand) ch now = succs_step s i c vs cand"
| "pc_step s i (NSetup c cand) ch now = nsetup_step s i c cand ch"
| "pc_step s i (Deref c) ch now = deref_step s i c"
| "pc_step s i (CSetup c) ch now = csetup_step s i c"
| "pc_step s i (Done c) ch now = done_step s i c"
| "pc_step s i (Crashed e) ch now = None"

text \<open>A crashed goroutine takes the process down: nothing moves after it.\<close>

fun is_crashed :: "pc \<Rightarrow> bool" where
  "is_crashed (Crashed e) = True"
| "is_crashed _ = False"

fun step :: "sys \<Rightarrow> event \<Rightarrow> sys option" where
  "step s (i, ch, now) =
     (if i < length (threads s) \<and> \<not> list_ex is_crashed (threads s)
      then pc_step s i (threads s ! i) ch now else None)"

fun run :: "sys \<Rightarrow> event list \<Rightarrow> sys option" where
  "run s [] = Some s"
| "run s (e # es) = (case step s e of None \<Rightarrow> None | Some s' \<Rightarrow> run s' es)"

inductive reach :: "sys \<Rightarrow> sys \<Rightarrow> bool" for s0 where
  start: "reach s0 s0"
| step: "reach s0 s \<Longrightarrow> step s e = Some t \<Longrightarrow> reach s0 t"

definition stuck :: "sys \<Rightarrow> bool" where
  "stuck s \<longleftrightarrow> (\<forall>e. step s e = None)"

end
