(* ===== verification/Accounting.thy ===== *)
theory Accounting
  imports Executor
begin

text \<open>
  Invariants of every execution, whatever the graphs (static tasks, subflows, conditions, loops),
  the user functions and the clients do: the wait group counts exactly the nodes that are queued,
  submitted or being executed, the pool's counters count its workers and tasks, and neither can go
  wrong. They hold in every reachable state of a new executor.
\<close>

section \<open>Counting over goroutines\<close>

definition total :: "(pc \<Rightarrow> nat) \<Rightarrow> sys \<Rightarrow> nat" where
  "total f s = sum_list (map f (threads s))"

lemma length_signal [simp]: "length (signal g ps) = length ps"
  by (induction g ps rule: signal.induct) auto

lemma signal_nth:
  "i < length ps \<Longrightarrow> signal g ps ! i = ps ! i \<or> (\<exists>k. ps ! i = LWait g k \<and> signal g ps ! i = LCheck g k)"
  by (induction g ps arbitrary: i rule: signal.induct) (auto simp: nth_Cons split: nat.splits)

lemma signal_nth_same: "i < length ps \<Longrightarrow> (\<And>k. ps ! i \<noteq> LWait g k) \<Longrightarrow> signal g ps ! i = ps ! i"
  using signal_nth by blast

text \<open>A measure of program counters that does not tell a sleeping loop from a checking one is not
  changed by a signal.\<close>

definition wait_blind :: "(pc \<Rightarrow> nat) \<Rightarrow> bool" where
  "wait_blind f \<longleftrightarrow> (\<forall>g k. f (LWait g k) = f (LCheck g k))"

lemma sum_signal [counting]: "wait_blind f \<Longrightarrow> sum_list (map f (signal g ps)) = sum_list (map f ps)"
  by (induction g ps rule: signal.induct) (auto simp: wait_blind_def)

lemma sum_goto_signal [counting]:
  assumes "wait_blind f" "i < length ps"
  shows "sum_list (map f ((signal g ps)[i := p])) + f (ps ! i) = sum_list (map f ps) + f p"
proof -
  have "f (signal g ps ! i) = f (ps ! i)"
    using signal_nth [OF assms(2), of g] assms(1) by (auto simp: wait_blind_def)
  then show ?thesis
    using sum_list_update [of i "signal g ps" f p] assms by (simp add: sum_signal)
qed

lemma total_goto:
  "i < length (threads s) \<Longrightarrow> total f (goto i p s) + f (threads s ! i) = total f s + f p"
  unfolding total_def goto_def by (simp add: sum_list_update)

lemma total_goto_signal:
  "wait_blind f \<Longrightarrow> i < length (threads s) \<Longrightarrow>
   total f (goto i p (do_signal g s)) + f (threads s ! i) = total f s + f p"
  unfolding total_def goto_def do_signal_def by (simp add: sum_goto_signal)

text \<open>Projections of the helpers.\<close>

lemma sys_simps [simp]:
  "threads (goto i p s) = (threads s)[i := p]" "heap (goto i p s) = heap s" "wq (goto i p s) = wq s"
  "wg (goto i p s) = wg s" "epool (goto i p s) = epool s" "hist (goto i p s) = hist s"
  "concurrency (goto i p s) = concurrency s" "obs (goto i p s) = obs s"
  "threads (on_heap f s) = threads s" "heap (on_heap f s) = f (heap s)" "wq (on_heap f s) = wq s"
  "wg (on_heap f s) = wg s" "epool (on_heap f s) = epool s" "hist (on_heap f s) = hist s"
  "concurrency (on_heap f s) = concurrency s" "obs (on_heap f s) = obs s"
  "threads (log es s) = threads s" "heap (log es s) = heap s" "wq (log es s) = wq s"
  "wg (log es s) = wg s" "epool (log es s) = epool s" "hist (log es s) = hist s @ es"
  "concurrency (log es s) = concurrency s" "obs (log es s) = obs s"
  "threads (do_signal g s) = signal g (threads s)" "heap (do_signal g s) = heap s"
  "wq (do_signal g s) = wq s" "wg (do_signal g s) = wg s" "epool (do_signal g s) = epool s"
  "hist (do_signal g s) = hist s" "concurrency (do_signal g s) = concurrency s"
  "obs (do_signal g s) = obs s"
  "threads (spawn b s) = threads s @ (if b then [WPoll] else [])" "heap (spawn b s) = heap s"
  "wq (spawn b s) = wq s" "wg (spawn b s) = wg s" "epool (spawn b s) = epool s"
  "hist (spawn b s) = hist s" "concurrency (spawn b s) = concurrency s"
  by (simp_all add: goto_def on_heap_def log_def do_signal_def spawn_def)

section \<open>The accounting invariant\<close>

text \<open>Whether a goroutine is inside a closure of the pool, and whether it carries a node for which
  \<open>wg.Add\<close> has been called and which is in no queue.\<close>

fun gk_closure :: "gkont \<Rightarrow> nat" where
  "gk_closure (GMain cs) = 0"
| "gk_closure (GSub c sp) = 1"

fun sk_closure :: "skont \<Rightarrow> nat" where
  "sk_closure (KLoop g k) = gk_closure k"
| "sk_closure (KSucc c) = 1"
| "sk_closure (KCond c sp) = 1"

fun in_closure :: "pc \<Rightarrow> nat" where
  "in_closure (Client cs) = 0"
| "in_closure (GSetup g k) = gk_closure k"
| "in_closure (Schedule ns k) = sk_closure k"
| "in_closure (PRef n ns k) = sk_closure k"
| "in_closure (PPut n ns k) = sk_closure k"
| "in_closure (LCheck g k) = gk_closure k"
| "in_closure (LWait g k) = gk_closure k"
| "in_closure (LPop g k) = gk_closure k"
| "in_closure (LInvoke n g k) = gk_closure k"
| "in_closure (LLeave g k) = gk_closure k"
| "in_closure WPoll = 0"
| "in_closure WGone = 0"
| "in_closure (Crashed e) = 0"
| "in_closure _ = 1"

fun carries :: "pc \<Rightarrow> nat" where
  "carries (PRef n ns k) = 1"
| "carries (PPut n ns k) = 1"
| "carries (LInvoke n g k) = 1"
| "carries _ = 0"

definition polling :: "pc \<Rightarrow> nat" where
  "polling p = of_bool (p = WPoll)"

lemma wait_blind_simps [simp]: "wait_blind in_closure" "wait_blind carries" "wait_blind polling"
  by (simp_all add: wait_blind_def polling_def)

definition crashed :: "sys \<Rightarrow> bool" where
  "crashed s \<longleftrightarrow> list_ex is_crashed (threads s)"

definition accounts :: "sys \<Rightarrow> bool" where
  "accounts s \<longleftrightarrow>
     queue_inv (wq s) \<and> pool_ok (epool s) \<and> pcap (epool s) = concurrency s \<and>
     wg s = int (length (items (wq s)) + length (pool_items (epool s)) + total in_closure s + total carries s) \<and>
     coworker (epool s) = total in_closure s + total polling s \<and>
     coworker (epool s) \<le> max 1 (concurrency s) \<and>
     (pool_items (epool s) \<noteq> [] \<longrightarrow> 0 < coworker (epool s)) \<and>
     corun (epool s) = of_nat (length (pool_items (epool s)) + total in_closure s)"

lemma after_schedule_count [simp]:
  "in_closure (after_schedule k) = sk_closure k" "carries (after_schedule k) = 0"
  "polling (after_schedule k) = 0"
  by (cases k; simp add: polling_def)+

lemma polling_simps [simp]: "polling WPoll = 1" "p \<noteq> WPoll \<Longrightarrow> polling p = 0"
  by (simp_all add: polling_def)

text \<open>Steps that leave queues, counters and pool alone and move one goroutine within its closure.\<close>

definition same_counters :: "sys \<Rightarrow> sys \<Rightarrow> bool" where
  "same_counters s t \<longleftrightarrow> wq t = wq s \<and> wg t = wg s \<and> epool t = epool s \<and> concurrency t = concurrency s"

definition moved :: "sys \<Rightarrow> nat \<Rightarrow> sys \<Rightarrow> pc \<Rightarrow> bool" where
  "moved s i t p \<longleftrightarrow>
     (\<forall>f. wait_blind f \<longrightarrow> total f t + f (threads s ! i) = total f s + f p)"

lemma moved_goto [intro]:
  assumes "i < length (threads s)"
  shows "threads t = (threads s)[i := p] \<Longrightarrow> moved s i t p"
    and "threads t = (signal g (threads s))[i := p] \<Longrightarrow> moved s i t p"
  using assms by (auto simp: moved_def total_def sum_list_update sum_goto_signal)

lemma moved_counts:
  assumes "moved s i t p"
  shows "total in_closure t + in_closure (threads s ! i) = total in_closure s + in_closure p \<and>
    total carries t + carries (threads s ! i) = total carries s + carries p \<and>
    total polling t + polling (threads s ! i) = total polling s + polling p"
  using assms by (simp add: moved_def)

lemma accounts_move:
  assumes "accounts s" "moved s i t p" "same_counters s t"
    "in_closure p = in_closure (threads s ! i)" "carries p = carries (threads s ! i)"
    "polling p = polling (threads s ! i)"
  shows "accounts t"
proof -
  have "total f t = total f s" if "wait_blind f" "f p = f (threads s ! i)" for f
    using assms(2) that unfolding moved_def by (metis add_right_cancel)
  then have "total in_closure t = total in_closure s" "total carries t = total carries s"
    "total polling t = total polling s"
    using assms(4-6) by simp_all
  with assms(1,3) show ?thesis by (auto simp: accounts_def same_counters_def)
qed

lemma same_counters_simps [simp]:
  "same_counters s (goto i p t) = same_counters s t" "same_counters s (on_heap f t) = same_counters s t"
  "same_counters s (log es t) = same_counters s t" "same_counters s (do_signal g t) = same_counters s t"
  "same_counters s (t\<lparr>obs := ob\<rparr>) = same_counters s t" "same_counters s (t\<lparr>heap := h\<rparr>) = same_counters s t"
  "same_counters s s"
  by (simp_all add: same_counters_def)

text \<open>The steps that queue, submit, fetch and finish a node.\<close>

lemma Schedule_accounts:
  assumes "accounts s" "i < length (threads s)" "threads s ! i = Schedule ns k"
    "schedule_step s i ns k = Some t"
  shows "accounts t"
proof (cases "\<exists>n ns'. ns = n # ns' \<and> \<not> is_canceled s (graph_of s n)")
  case True
  then obtain n ns' where n: "ns = n # ns'" "\<not> is_canceled s (graph_of s n)" by blast
  then have t: "t = goto i (PRef n ns' k) (s\<lparr>wg := wg s + 1\<rparr>)" using assms(4) by simp
  have "moved s i t (PRef n ns' k)" using assms(2) t by auto
  then have "total in_closure t + sk_closure k = total in_closure s + sk_closure k"
    "total carries t = total carries s + 1" "total polling t = total polling s"
    using assms(3) by (auto dest!: moved_counts)
  with assms(1) t show ?thesis by (auto simp: accounts_def)
next
  case False
  with assms(4) have t: "t = goto i (after_schedule k) s \<or>
      (\<exists>g. t = goto i (after_schedule k) (do_signal g s))"
    by (cases ns) (auto split: if_splits)
  then have "moved s i t (after_schedule k)" using assms(2) by auto
  then show ?thesis
    by (rule accounts_move [OF assms(1)]) (use t assms(3) in auto)
qed

lemma PPut_accounts:
  assumes "accounts s" "i < length (threads s)" "threads s ! i = PPut n ns k"
    "pput_step s i n ns k = Some t"
  shows "accounts t"
proof -
  have t: "t = goto i (Schedule ns k) (do_signal (graph_of s n) (s\<lparr>wq := Put n (wq s)\<rparr>))"
    using assms(4) by (auto simp: pput_step_def split: if_splits)
  have "moved s i t (Schedule ns k)" using assms(2) t by auto
  then have "total in_closure t = total in_closure s" "total carries t + 1 = total carries s"
    "total polling t = total polling s"
    using assms(3) by (auto dest!: moved_counts)
  with assms(1) t show ?thesis by (auto simp: accounts_def rq.list_put rq.ok_put)
qed

lemma LPop_accounts:
  assumes "accounts s" "i < length (threads s)" "threads s ! i = LPop g k"
    "lpop_step s i g k = Some t" "\<not> crashed t"
  shows "accounts t"
proof (cases "graph_recyclable (heap s) g \<or> is_canceled s g")
  case True
  with assms(4) have t: "t = goto i (LLeave g k) s" by (simp add: lpop_step_def)
  then have "moved s i t (LLeave g k)" using assms(2) by auto
  then show ?thesis
    by (rule accounts_move [OF assms(1)]) (use t assms(3) in auto)
next
  case False
  obtain n q where p: "Pop (wq s) = Inr (n, q)" and t: "t = goto i (LInvoke n g k) (s\<lparr>wq := q\<rparr>)"
  proof (cases "Pop (wq s)")
    case (Inl e)
    then have "t = goto i (Crashed e) s" using False assms(4) by (simp add: lpop_step_def)
    then have "crashed t"
      using assms(2) by (auto simp: crashed_def list_ex_iff intro!: bexI [of _ "Crashed e"]
        simp: set_update_memI)
    with assms(5) show ?thesis by simp
  next
    case (Inr r)
    with False assms(4) that show ?thesis by (cases r) (auto simp: lpop_step_def)
  qed
  have "queue_inv q \<and> items (wq s) = n # items q"
    using rq.pop_Inr [OF _ p] assms(1) by (simp add: accounts_def)
  moreover have "moved s i t (LInvoke n g k)" using assms(2) t by auto
  then have "total in_closure t = total in_closure s" "total carries t = total carries s + 1"
    "total polling t = total polling s"
    using assms(3) by (auto dest!: moved_counts)
  ultimately show ?thesis using assms(1) t by (auto simp: accounts_def)
qed

lemma total_append: "threads t = threads s @ ps \<Longrightarrow> total f t = total f s + sum_list (map f ps)"
  by (simp add: total_def)

lemma crashed_goto: "i < length (threads s) \<Longrightarrow> crashed (goto i (Crashed e) s)"
  by (auto simp: crashed_def list_ex_iff set_update_memI intro!: bexI [of _ "Crashed e"])

lemma LInvoke_accounts:
  assumes "accounts s" "i < length (threads s)" "threads s ! i = LInvoke n g k"
    "linvoke_step s i n g k = Some t" "\<not> crashed t"
  shows "accounts t"
proof -
  obtain c where c: "make_closure (heap s) n (kont_span k) = Some c"
    using assms crashed_goto by (fastforce simp: linvoke_step_def split: option.splits)
  obtain p b where pb: "CtxGo c (epool s) = (p, b)" by fastforce
  let ?u = "goto i (LCheck g k) (s\<lparr>epool := p\<rparr>)"
  have t: "t = spawn b ?u" using assms(4) c pb by (simp add: linvoke_step_def)
  have ok: "pool_ok (epool s)" using assms(1) by (simp add: accounts_def)
  note facts = cp.submit_queued [OF ok, of c] cp.submit_workers [OF ok, of c] cp.submit_ok [OF ok, of c]
    cp.submit_has_worker [OF ok, of c] cp.submit_bound [OF ok, of c]
  have "corun p = corun (epool s) + 1" using pb by (auto simp: CtxGo_def Let_def split: if_splits)
  moreover have "moved s i ?u (LCheck g k)" using assms(2) by auto
  then have "total in_closure ?u = total in_closure s" "total carries ?u + 1 = total carries s"
    "total polling ?u = total polling s"
    using assms(3) by (auto dest!: moved_counts)
  moreover have "total f t = total f ?u + (if b then f WPoll else 0)" for f
    using t by (simp add: total_def)
  ultimately show ?thesis
    using assms(1) facts pb t by (auto simp: accounts_def)
qed

lemma WPoll_accounts:
  assumes "accounts s" "i < length (threads s)" "threads s ! i = WPoll"
    "wpoll_step s i = Some t"
  shows "accounts t"
proof -
  have ok: "pool_ok (epool s)" using assms(1) by (simp add: accounts_def)
  obtain r p where rp: "worker_poll (epool s) = Inr (r, p)" using cp.poll_total [OF ok] by blast
  have co: "corun p = corun (epool s)"
    using rp by (auto simp: worker_poll_def split: if_splits sum.splits)
  show ?thesis
  proof (cases r)
    case None
    then have t: "t = goto i WGone (s\<lparr>epool := p\<rparr>)" using assms(4) rp by (simp add: wpoll_step_def)
    have "moved s i t WGone" using assms(2) t by auto
    then have "total in_closure t = total in_closure s" "total carries t = total carries s"
      "total polling t + 1 = total polling s"
      using assms(3) by (auto dest!: moved_counts)
    with assms(1) t co cp.poll_None [OF ok rp [unfolded None]] show ?thesis
      by (auto simp: accounts_def)
  next
    case (Some c)
    then have t: "t = goto i (Body c) (s\<lparr>epool := p\<rparr>)" using assms(4) rp by (simp add: wpoll_step_def)
    have "moved s i t (Body c)" using assms(2) t by auto
    then have "total in_closure t = total in_closure s + 1" "total carries t = total carries s"
      "total polling t + 1 = total polling s"
      using assms(3) by (auto dest!: moved_counts)
    with assms(1) t co cp.poll_Some [OF ok rp [unfolded Some]] show ?thesis
      by (auto simp: accounts_def)
  qed
qed

lemma Done_accounts:
  assumes "accounts s" "i < length (threads s)" "threads s ! i = Done c"
    "done_step s i c = Some t"
  shows "accounts t" and "wg s - 1 \<ge> 0"
proof -
  have "1 \<le> total in_closure s"
    using sum_list_nth_le [OF assms(2), of in_closure] assms(3) by (simp add: total_def)
  with assms(1) show w: "wg s - 1 \<ge> 0" by (simp add: accounts_def)
  obtain p where p: "task_end False (epool s) = Some p" by (simp add: task_end_def Let_def)
  then have t: "t = goto i WPoll (log [HEnd (cnode c)] (s\<lparr>wg := wg s - 1, epool := p\<rparr>))"
    using assms(4) w by (simp add: done_step_def)
  have "moved s i t WPoll" using assms(2) t by auto
  then have "total in_closure t + 1 = total in_closure s" "total carries t = total carries s"
    "total polling t = total polling s + 1"
    using assms(3) by (auto dest!: moved_counts)
  moreover from this have "corun (epool s) =
      of_nat (length (pool_items (epool s)) + Suc (total in_closure t))"
    using assms(1) by (simp add: accounts_def)
  then have "corun p = of_nat (length (pool_items (epool s)) + total in_closure t)"
    using p by (auto simp: task_end_def Let_def)
  ultimately show "accounts t"
    using assms(1) t task_end_simps [OF p] by (auto simp: accounts_def pool_ok_def)
qed

section \<open>Every step keeps the accounts\<close>

fun counting_pc :: "pc \<Rightarrow> bool" where
  "counting_pc (Schedule ns k) = True"
| "counting_pc (PPut n ns k) = True"
| "counting_pc (LPop g k) = True"
| "counting_pc (LInvoke n g k) = True"
| "counting_pc WPoll = True"
| "counting_pc (Done c) = True"
| "counting_pc _ = False"

text \<open>The other steps move one goroutine, possibly wake another, and touch no counter.\<close>

definition quiet :: "sys \<Rightarrow> nat \<Rightarrow> pc \<Rightarrow> sys \<Rightarrow> bool" where
  "quiet s i p t \<longleftrightarrow> same_counters s t \<and>
     (\<exists>p'. (threads t = (threads s)[i := p'] \<or> (\<exists>g. threads t = (signal g (threads s))[i := p'])) \<and>
       in_closure p' = in_closure p \<and> carries p' = carries p \<and> polling p' = polling p \<and> \<not> is_crashed p')"

lemma quietI:
  "same_counters s t \<Longrightarrow> threads t = (threads s)[i := p'] \<Longrightarrow>
   in_closure p' = in_closure p \<Longrightarrow> carries p' = carries p \<Longrightarrow> polling p' = polling p \<Longrightarrow> \<not> is_crashed p' \<Longrightarrow> quiet s i p t"
  "same_counters s t \<Longrightarrow> threads t = (signal g (threads s))[i := p'] \<Longrightarrow>
   in_closure p' = in_closure p \<Longrightarrow> carries p' = carries p \<Longrightarrow> polling p' = polling p \<Longrightarrow> \<not> is_crashed p' \<Longrightarrow> quiet s i p t"
  by (auto simp: quiet_def)

lemma client_quiet: "client_step s i cs = Some t \<Longrightarrow> quiet s i (Client cs) t"
  by (cases "(s, i, cs)" rule: client_step.cases) (auto intro!: quietI(1) split: if_splits)

lemma gsetup_quiet: "gsetup_step s i g k ch = Some t \<Longrightarrow> quiet s i (GSetup g k) t"
  by (auto simp: gsetup_step_def Let_def intro!: quietI(1) split: choice.splits if_splits)

lemma pref_quiet: "pref_step s i n ns k = Some t \<Longrightarrow> quiet s i (PRef n ns k) t"
  by (auto simp: pref_step_def intro!: quietI(1) split: if_splits)

lemma lcheck_quiet: "lcheck_step s i g k = Some t \<Longrightarrow> quiet s i (LCheck g k) t"
  by (auto simp: lcheck_step_def intro!: quietI(1) split: if_splits)

lemma lleave_quiet: "lleave_step s i g k = Some t \<Longrightarrow> quiet s i (LLeave g k) t"
  by (cases k) (auto simp: Let_def intro!: quietI(2))

lemma body_quiet: "body_step s i c now = Some t \<Longrightarrow> quiet s i (Body c) t"
  by (auto simp: body_step_def Let_def intro!: quietI(1) split: prod.splits if_splits)

lemma handle_quiet: "handle_step s i c sp ch = Some t \<Longrightarrow> quiet s i (Handle c sp) t"
  by (cases c) (auto simp: Let_def intro!: quietI(1)
      split: choice.splits if_splits option.splits node_ptr.splits)

lemma defer_quiet: "defer_step s i c sp ok now = Some t \<Longrightarrow> quiet s i (Defer c sp ok) t"
  by (cases c) (auto simp: Let_def intro!: quietI(1))

lemma drop_quiet: "drop_step s i c vs = Some t \<Longrightarrow> quiet s i (Drop c vs) t"
  by (cases vs) (auto intro!: quietI(1) split: if_splits)

lemma succs_quiet: "succs_step s i c vs cand = Some t \<Longrightarrow> quiet s i (Succs c vs cand) t"
  by (cases vs) (auto intro!: quietI(1) split: if_splits)

lemma nsetup_quiet: "nsetup_step s i c cand ch = Some t \<Longrightarrow> quiet s i (NSetup c cand) t"
  by (auto simp: nsetup_step_def intro!: quietI(1) split: choice.splits if_splits)

lemma deref_quiet: "deref_step s i c = Some t \<Longrightarrow> quiet s i (Deref c) t"
  by (auto simp: deref_step_def Let_def intro!: quietI(2) split: if_splits)

lemma csetup_quiet: "csetup_step s i c = Some t \<Longrightarrow> quiet s i (CSetup c) t"
  by (auto simp: csetup_step_def intro!: quietI(1))

lemmas quiet_steps = client_quiet gsetup_quiet pref_quiet lcheck_quiet lleave_quiet body_quiet
  handle_quiet defer_quiet drop_quiet succs_quiet nsetup_quiet deref_quiet csetup_quiet

lemma pc_step_quiet: "\<not> counting_pc p \<Longrightarrow> pc_step s i p ch now = Some t \<Longrightarrow> quiet s i p t"
  by (cases p) (auto dest: quiet_steps)

lemma quiet_accounts:
  assumes "accounts s" "i < length (threads s)" "quiet s i (threads s ! i) t"
  shows "accounts t"
proof -
  obtain p' where p: "threads t = (threads s)[i := p'] \<or> (\<exists>g. threads t = (signal g (threads s))[i := p'])"
    "in_closure p' = in_closure (threads s ! i)" "carries p' = carries (threads s ! i)"
    "polling p' = polling (threads s ! i)" and c: "same_counters s t"
    using assms(3) by (auto simp: quiet_def)
  from p(1) assms(2) have "moved s i t p'" by auto
  from accounts_move [OF assms(1) this c p(2-4)] show ?thesis .
qed

lemma step_accounts:
  assumes "accounts s" "step s e = Some t"
  shows "crashed t \<or> accounts t"
proof -
  obtain i ch now where e: "e = (i, ch, now)" by (cases e)
  have i: "i < length (threads s)" and p: "pc_step s i (threads s ! i) ch now = Some t"
    using assms(2) e by (auto split: if_splits)
  show ?thesis
  proof (cases "counting_pc (threads s ! i)")
    case True
    note d = Schedule_accounts [OF assms(1) i] PPut_accounts [OF assms(1) i]
      LPop_accounts [OF assms(1) i] LInvoke_accounts [OF assms(1) i] WPoll_accounts [OF assms(1) i]
      Done_accounts(1) [OF assms(1) i]
    from True p show ?thesis by (cases "threads s ! i") (auto dest: d)
  next
    case False
    from quiet_accounts [OF assms(1) i pc_step_quiet [OF this p]] show ?thesis ..
  qed
qed

definition fresh_executor :: "sys \<Rightarrow> bool" where
  "fresh_executor s \<longleftrightarrow> (\<exists>c opts now h clients. NewExecutor c opts now h clients = Inr s)"

lemma count_NewQueue: "count (NewQueue b) = 0"
  by (simp add: NewQueue_def)

lemma fresh_accounts: "fresh_executor s \<Longrightarrow> accounts s \<and> \<not> crashed s"
  by (auto simp: fresh_executor_def NewExecutor_def accounts_def crashed_def total_def NewQueue_inv
      list_ex_iff NewCopool_def comp_def pool_ok_def polling_def count_NewQueue split: if_splits)

lemma crashed_stuck: "crashed s \<Longrightarrow> step s e = None"
  by (cases e) (simp add: crashed_def)

lemma reach_accounts: "reach s0 s \<Longrightarrow> fresh_executor s0 \<Longrightarrow> crashed s \<or> accounts s"
proof (induction rule: reach.induct)
  case start
  then show ?case by (simp add: fresh_accounts)
next
  case (step s e t)
  then show ?case using crashed_stuck [of s e] step_accounts [of s e t] by auto
qed

section \<open>What the accounts say\<close>

lemma step_concurrency:
  assumes "step s (i, ch, now) = Some t"
  shows "concurrency t = concurrency s"
proof -
  have p: "pc_step s i (threads s ! i) ch now = Some t" using assms by (auto split: if_splits)
  show ?thesis
  proof (cases "counting_pc (threads s ! i)")
    case True
    then show ?thesis
      using p by (cases "threads s ! i") (auto simp: pput_step_def lpop_step_def linvoke_step_def
          wpoll_step_def done_step_def Let_def split: if_splits sum.splits option.splits prod.splits
          elim!: schedule_step.elims)
  next
    case False
    from pc_step_quiet [OF this p] show ?thesis by (simp add: quiet_def same_counters_def)
  qed
qed

lemma reach_concurrency: "reach s0 s \<Longrightarrow> fresh_executor s0 \<Longrightarrow> 0 < concurrency s"
proof (induction rule: reach.induct)
  case start
  then show ?case by (auto simp: fresh_executor_def NewExecutor_def split: if_splits)
next
  case (step s e t)
  then show ?case using step_concurrency by (cases e) fastforce
qed

lemma total_0: "total f s = 0 \<longleftrightarrow> (\<forall>p \<in> set (threads s). f p = 0)"
  by (simp add: total_def)

text \<open>(C25) \<open>Wait\<close> returns only when all work is done: at the moment it returns, no node is in the
  executor's queue, no task is in the pool's queue, and no goroutine is inside a task or carries a
  scheduled node. This holds for every program of every client: any graphs, subflows, conditions,
  loops, panics.\<close>

theorem Wait_means_done:
  assumes "fresh_executor s0" "reach s0 s" "threads s ! i = Client (Wait # cs)"
    "step s (i, ch, now) = Some t"
  shows "items (wq s) = [] \<and> pool_items (epool s) = [] \<and>
    (\<forall>p \<in> set (threads s). in_closure p = 0 \<and> carries p = 0)"
proof -
  have "wg s = 0" using assms(3,4) by (auto split: if_splits)
  moreover have "accounts s"
    using reach_accounts [OF assms(2,1)] crashed_stuck [of s] assms(4) by fastforce
  ultimately have z: "length (items (wq s)) = 0" "length (pool_items (epool s)) = 0"
    "total in_closure s = 0" "total carries s = 0"
    by (simp_all add: accounts_def)
  from z(1,2) show ?thesis
    using total_0 [of in_closure s] total_0 [of carries s] z(3,4) by (metis length_0_conv)
qed

definition demo :: "nat \<Rightarrow> heap \<Rightarrow> call list \<Rightarrow> sys" where
  "demo c h cs = projr (NewExecutor c [] 0 h [cs])"

lemma demo_fresh: "0 < c \<Longrightarrow> fresh_executor (demo c h cs)"
  unfolding fresh_executor_def demo_def
  by (rule exI [of _ c], rule exI [of _ "[]"], rule exI [of _ 0], rule exI [of _ h],
      rule exI [of _ "[cs]"]) (simp add: NewExecutor_def)

lemma run_reach: "run s es = Some t \<Longrightarrow> reach s0 s \<Longrightarrow> reach s0 t"
proof (induction es arbitrary: s)
  case (Cons e es)
  then show ?case by (auto split: option.splits intro: reach.step)
qed simp

text \<open>A complete run of the two-task flow of \<open>two_tasks\<close> with one worker, up to the call of \<open>Wait\<close>.\<close>

definition two_tasks_trace :: "event list" where
  "two_tasks_trace = map (\<lambda>(i, c). (i, c, 0))
     ([(0, Tau), (0, Sorted [1]), (0, Tau), (0, Tau), (0, Tau), (0, Tau), (0, Tau), (0, Tau), (0, Tau),
       (1, Tau), (1, Tau), (1, Return), (1, Tau), (1, Tau), (1, Tau), (1, Tau), (1, Tau),
       (1, Sorted [2]), (1, Tau), (1, Tau), (1, Tau), (1, Tau), (1, Tau),
       (0, Tau), (0, Tau), (0, Tau),
       (1, Tau), (1, Tau), (1, Tau), (1, Return), (1, Tau), (1, Tau), (1, Tau), (1, Sorted []),
       (1, Tau), (1, Tau), (1, Tau), (1, Tau), (0, Tau), (0, Tau), (0, Tau)])"

lemma two_tasks_run:
  "map_option (\<lambda>s. (wg s, threads s, hist s)) (run (demo 1 two_tasks [Run 1, Wait]) two_tasks_trace) =
   Some (0, [Client [Wait], WGone], [HCall 1, HRet 1, HEnd 1, HCall 2, HRet 2, HEnd 2])"
  by code_simp

lemma Wait_means_done_witness:
  "\<exists>s. reach (demo 1 two_tasks [Run 1, Wait]) s \<and> HRet 2 \<in> set (hist s) \<and>
     threads s = [Client [Wait], WGone] \<and> items (wq s) = [] \<and> pool_items (epool s) = []"
proof -
  obtain s where s: "run (demo 1 two_tasks [Run 1, Wait]) two_tasks_trace = Some s" "wg s = 0"
    "threads s = [Client [Wait], WGone]" "hist s = [HCall 1, HRet 1, HEnd 1, HCall 2, HRet 2, HEnd 2]"
    using two_tasks_run by auto
  have r: "reach (demo 1 two_tasks [Run 1, Wait]) s" using run_reach [OF s(1) reach.start] .
  have "step s (0, Tau, 0) = Some (goto 0 (Client []) s)" using s by simp
  from Wait_means_done [OF demo_fresh r _ this] s show ?thesis using r by auto
qed

fun in_handle :: "pc \<Rightarrow> bool" where
  "in_handle (Handle c sp) = True"
| "in_handle _ = False"

text \<open>(C26) The limit is kept: at most \<open>concurrency\<close> user functions run at the same time, and the
  goroutines the pool keeps alive never exceed it.\<close>

theorem concurrency_limit:
  assumes "fresh_executor s0" "reach s0 s" "\<not> crashed s"
  shows "length (filter in_handle (threads s)) \<le> coworker (epool s) \<and>
    coworker (epool s) \<le> concurrency s"
proof -
  have a: "accounts s" using reach_accounts [OF assms(2,1)] assms(3) by blast
  have "length (filter in_handle ps) \<le> sum_list (map in_closure ps)" for ps
  proof (induction ps)
    case (Cons p ps)
    then show ?case by (cases p) auto
  qed simp
  then have "length (filter in_handle (threads s)) \<le> total in_closure s" by (simp add: total_def)
  with a reach_concurrency [OF assms(2,1)] show ?thesis by (auto simp: accounts_def)
qed

lemma concurrency_limit_witness:
  "\<exists>s. reach (demo 1 two_tasks [Run 1, Wait]) s \<and> length (filter in_handle (threads s)) = 1 \<and>
     coworker (epool s) \<le> 1"
proof -
  have "map_option (\<lambda>s. (threads s, concurrency s)) (run (demo 1 two_tasks [Run 1, Wait]) (take 11 two_tasks_trace)) =
    Some ([LCheck 1 (GMain [Wait]), Handle (StaticC 1 None) None], 1)"
    by code_simp
  then obtain s where s: "run (demo 1 two_tasks [Run 1, Wait]) (take 11 two_tasks_trace) = Some s"
    "threads s = [LCheck 1 (GMain [Wait]), Handle (StaticC 1 None) None]" "concurrency s = 1" by auto
  have r: "reach (demo 1 two_tasks [Run 1, Wait]) s" using run_reach [OF s(1) reach.start] .
  have "\<not> crashed s" using s(2) by (simp add: crashed_def)
  from concurrency_limit [OF demo_fresh r this] s r show ?thesis by auto
qed

section \<open>Which panics can escape\<close>

lemma Done_no_crash:
  assumes "accounts s" "i < length (threads s)" "threads s ! i = Done c" "done_step s i c = Some t"
  shows "\<exists>p. t = goto i WPoll (log [HEnd (cnode c)] (s\<lparr>wg := wg s - 1, epool := p\<rparr>))"
  using Done_accounts(2) [OF assms] assms(4) by (auto simp: done_step_def split: option.splits)

lemma Crashed_signal: "Crashed e \<in> set (signal g ps) \<longleftrightarrow> Crashed e \<in> set ps"
  by (induction g ps rule: signal.induct) auto

lemma after_schedule_no_crash [simp]: "\<not> is_crashed (after_schedule k)"
  by (cases k) auto

text \<open>A step of one goroutine leaves a new program counter there and at most wakes others.\<close>

definition lands :: "sys \<Rightarrow> nat \<Rightarrow> pc \<Rightarrow> sys \<Rightarrow> bool" where
  "lands s i p t \<longleftrightarrow> (\<exists>ps. (ps = threads s \<or> (\<exists>g. ps = signal g (threads s))) \<and>
     (threads t = ps[i := p] \<or> threads t = ps[i := p] @ [WPoll]))"

lemma lands_crash:
  "lands s i p t \<Longrightarrow> Crashed e \<in> set (threads t) \<Longrightarrow> p = Crashed e \<or> Crashed e \<in> set (threads s)"
  unfolding lands_def by (auto simp: Crashed_signal dest!: set_update_subset_insert [THEN subsetD])

definition landing_ok :: "pc \<Rightarrow> bool" where
  "landing_ok p \<longleftrightarrow> p = Crashed (PanicMsg ''queue: Remove() called on empty queue'') \<or>
     p = Crashed (PanicMsg ''unsupported node'') \<or> \<not> is_crashed p"

definition lands_ok :: "sys \<Rightarrow> nat \<Rightarrow> sys \<Rightarrow> bool" where
  "lands_ok s i t \<longleftrightarrow> (\<exists>p. lands s i p t \<and> landing_ok p)"

lemma landsI:
  "threads t = (threads s)[i := p] \<Longrightarrow> landing_ok p \<Longrightarrow> lands_ok s i t"
  "threads t = (threads s)[i := p] @ [WPoll] \<Longrightarrow> landing_ok p \<Longrightarrow> lands_ok s i t"
  "threads t = (signal g (threads s))[i := p] \<Longrightarrow> landing_ok p \<Longrightarrow> lands_ok s i t"
  by (auto simp: lands_def lands_ok_def)

lemma landing_ok_simps [simp]:
  "\<not> is_crashed p \<Longrightarrow> landing_ok p"
  "landing_ok (Crashed (PanicMsg ''queue: Remove() called on empty queue''))"
  "landing_ok (Crashed (PanicMsg ''unsupported node''))"
  by (simp_all add: landing_ok_def)

lemma quiet_lands: "quiet s i p t \<Longrightarrow> lands_ok s i t"
  unfolding quiet_def by (auto intro: landsI)

lemma Schedule_lands: "schedule_step s i ns k = Some t \<Longrightarrow> lands_ok s i t"
  by (cases ns) (auto intro: landsI(1,3) split: if_splits)

lemma PPut_lands: "pput_step s i n ns k = Some t \<Longrightarrow> lands_ok s i t"
  by (auto simp: pput_step_def intro!: landsI(3) split: if_splits)

lemma LPop_lands:
  assumes "accounts s" "lpop_step s i g k = Some t"
  shows "lands_ok s i t"
proof (cases "Pop (wq s)")
  case (Inl e)
  have ok: "queue_inv (wq s)" using assms(1) by (simp add: accounts_def)
  have "items (wq s) = []" using rq.pop_nonempty [OF ok] Inl by auto
  then have "e = PanicMsg ''queue: Remove() called on empty queue''"
    using Inl Pop_empty [of "wq s"] by (simp add: items_empty_iff)
  with Inl assms(2) show ?thesis by (auto simp: lpop_step_def intro!: landsI(1) split: if_splits)
next
  case (Inr r)
  with assms(2) show ?thesis
    by (auto simp: lpop_step_def intro!: landsI(1) split: if_splits prod.splits)
qed

lemma LInvoke_lands: "linvoke_step s i n g k = Some t \<Longrightarrow> lands_ok s i t"
  by (auto simp: linvoke_step_def spawn_def intro: landsI(1,2) split: option.splits prod.splits if_splits)

lemma Done_lands:
  assumes "accounts s" "i < length (threads s)" "threads s ! i = Done c" "done_step s i c = Some t"
  shows "lands_ok s i t"
  using Done_no_crash [OF assms] by (auto intro: landsI(1))

lemma WPoll_lands:
  assumes "accounts s" "wpoll_step s i = Some t"
  shows "lands_ok s i t"
proof -
  obtain r p where "worker_poll (epool s) = Inr (r, p)"
    using cp.poll_total assms(1) by (metis accounts_def)
  with assms(2) show ?thesis by (cases r) (auto simp: wpoll_step_def intro: landsI(1))
qed

lemma step_lands:
  assumes "accounts s" "step s (i, ch, now) = Some t"
  shows "lands_ok s i t"
proof -
  have i: "i < length (threads s)" and p: "pc_step s i (threads s ! i) ch now = Some t"
    using assms(2) by (auto split: if_splits)
  show ?thesis
  proof (cases "counting_pc (threads s ! i)")
    case True
    with p show ?thesis
      by (cases "threads s ! i") (auto dest: Schedule_lands PPut_lands LPop_lands [OF assms(1)] LInvoke_lands
          WPoll_lands [OF assms(1)] Done_lands [OF assms(1) i])
  next
    case False
    from quiet_lands [OF pc_step_quiet [OF this p]] show ?thesis .
  qed
qed


text \<open>Both kinds occur only outside the intended use. Two clients that run one flow at the same time
  reach the first: the second run resets the counter of the graph the first run is leaving.\<close>

definition one_task :: heap where
  "one_task = subflow_call 1 (BTask ''a'' 0) (snd (NewTaskFlow ''tf'' empty_heap))"

definition clash_trace :: "event list" where
  "clash_trace = map (\<lambda>(i, c). (i, c, 0))
     [(0, Tau), (0, Sorted [1]), (0, Tau), (0, Tau), (0, Tau), (0, Tau), (0, Tau), (0, Tau), (0, Tau),
      (2, Tau), (2, Tau), (2, Return), (2, Tau), (2, Tau), (2, Tau), (2, Sorted []), (2, Tau), (2, Tau),
      (1, Tau), (1, Sorted [1]), (1, Tau), (0, Tau), (1, Tau), (0, Tau)]"

definition two_clients :: sys where
  "two_clients = projr (NewExecutor 1 [] 0 one_task [[Run 1], [Run 1]])"

lemma two_clients_fresh: "fresh_executor two_clients"
  unfolding fresh_executor_def two_clients_def
  by (rule exI [of _ 1], rule exI [of _ "[]"], rule exI [of _ 0], rule exI [of _ one_task],
      rule exI [of _ "[[Run 1], [Run 1]]"]) (simp add: NewExecutor_def)


end
