(* ===== verification/Static_Flow.thy ===== *)
theory Static_Flow
  imports Accounting
begin

text \<open>
  One flow of static tasks on one executor: the transitions a run can make, written out. A client
  calls \<open>Run\<close> and then \<open>Wait\<close>; the flow's nodes are all static and its edges stay inside it.
  \<open>move\<close> lists the transitions of a goroutine with their effect on the heap, the two queues and the
  history, and \<open>step_move\<close> shows that every step of the executor is one of them. The invariants of
  the next theories are proved over \<open>move\<close>.
\<close>

section \<open>The flows and their runs\<close>

definition static_flow :: "heap \<Rightarrow> gid \<Rightarrow> bool" where
  "static_flow h g \<longleftrightarrow>
     wf_heap h \<and> 0 < g \<and> length (gnodes (hgraph h g)) < 2 ^ 32 \<and>
     (\<forall>n \<in> set (gnodes (hgraph h g)).
        ptr (hnode h n) = PStatic \<and> length (dependents (hnode h n)) < 2 ^ 32 \<and>
        set (successors (hnode h n)) \<subseteq> set (gnodes (hgraph h g)) \<and>
        set (dependents (hnode h n)) \<subseteq> set (gnodes (hgraph h g)))"

definition starts_flow :: "heap \<Rightarrow> gid \<Rightarrow> sys \<Rightarrow> bool" where
  "starts_flow h g s \<longleftrightarrow> static_flow h g \<and>
     (\<exists>c opts now tf. graph (hflow h tf) = g \<and> NewExecutor c opts now h [[Run tf, Wait]] = Inr s)"

lemma starts_fresh: "starts_flow h g s \<Longrightarrow> fresh_executor s"
  unfolding starts_flow_def fresh_executor_def by blast

text \<open>The part of the heap no step of the executor changes here.\<close>

definition frame :: "heap \<Rightarrow> heap \<Rightarrow> bool" where
  "frame h0 h \<longleftrightarrow>
     (\<forall>n. successors (hnode h n) = successors (hnode h0 n) \<and>
        dependents (hnode h n) = dependents (hnode h0 n) \<and> nname (hnode h n) = nname (hnode h0 n) \<and> Typ (hnode h n) = Typ (hnode h0 n) \<and>
        ptr (hnode h n) = ptr (hnode h0 n) \<and> ngraph (hnode h n) = ngraph (hnode h0 n)) \<and>
     (\<forall>g. gnodes (hgraph h g) = gnodes (hgraph h0 g))"

lemma frame_refl [simp]: "frame h h"
  by (simp add: frame_def)

lemma frame_upd_node:
  "frame h0 h \<Longrightarrow> (\<And>x. successors (f x) = successors x \<and> dependents (f x) = dependents x \<and>
     nname (f x) = nname x \<and> Typ (f x) = Typ x \<and> ptr (f x) = ptr x \<and> ngraph (f x) = ngraph x) \<Longrightarrow> frame h0 (upd_node n f h)"
  by (auto simp: frame_def)

lemma frame_upd_graph:
  "frame h0 h \<Longrightarrow> (\<And>x. gnodes (f x) = gnodes x) \<Longrightarrow> frame h0 (upd_graph g f h)"
  by (auto simp: frame_def)

lemma frame_ops [simp]:
  assumes "frame h0 h"
  shows "frame h0 (set_state st n h)" "frame h0 (node_setup n h)" "frame h0 (drop_one n v h)"
    "frame h0 (graph_ref g h)" "frame h0 (graph_deref g h)" "frame h0 (graph_cancel g h)"
  using assms by (auto simp: set_state_def node_setup_eq drop_one_def node_deref_def graph_ref_def
      graph_deref_def graph_cancel_def intro!: frame_upd_node frame_upd_graph)

section \<open>The program counters of a run\<close>

fun is_static :: "closure \<Rightarrow> bool" where
  "is_static (StaticC n p) = True"
| "is_static _ = False"

fun main_kont :: "gid \<Rightarrow> gkont \<Rightarrow> bool" where
  "main_kont g (GMain cs) = (cs = [Wait])"
| "main_kont g _ = False"

fun main_skont :: "gid \<Rightarrow> skont \<Rightarrow> bool" where
  "main_skont g (KLoop g' k) = (g' = g \<and> main_kont g k)"
| "main_skont g _ = False"

text \<open>The client's goroutine, from the setup of the graph on.\<close>

fun main_pc :: "gid \<Rightarrow> pc \<Rightarrow> bool" where
  "main_pc g (Client cs) = (cs = [Wait] \<or> cs = [])"
| "main_pc g (Schedule ns k) = main_skont g k"
| "main_pc g (PRef n ns k) = main_skont g k"
| "main_pc g (PPut n ns k) = main_skont g k"
| "main_pc g (LCheck g' k) = (g' = g \<and> main_kont g k)"
| "main_pc g (LWait g' k) = (g' = g \<and> main_kont g k)"
| "main_pc g (LPop g' k) = (g' = g \<and> main_kont g k)"
| "main_pc g (LInvoke n g' k) = (g' = g \<and> main_kont g k)"
| "main_pc g (LLeave g' k) = (g' = g \<and> main_kont g k)"
| "main_pc g (Crashed e) = True"
| "main_pc g _ = False"

fun work_skont :: "skont \<Rightarrow> bool" where
  "work_skont (KSucc c) = is_static c"
| "work_skont _ = False"

definition is_suffix :: "'a list \<Rightarrow> 'a list \<Rightarrow> bool" where
  "is_suffix vs xs \<longleftrightarrow> (\<exists>us. xs = us @ vs)"

text \<open>A worker's goroutine.\<close>

fun work_pc :: "heap \<Rightarrow> pc \<Rightarrow> bool" where
  "work_pc h WPoll = True"
| "work_pc h WGone = True"
| "work_pc h (Body c) = is_static c"
| "work_pc h (Handle c sp) = is_static c"
| "work_pc h (Defer c sp ok) = is_static c"
| "work_pc h (Drop c vs) = (is_static c \<and> is_suffix vs (successors (hnode h (cnode c))))"
| "work_pc h (Succs c vs cand) = (is_static c \<and> is_suffix vs (successors (hnode h (cnode c))))"
| "work_pc h (NSetup c cand) = is_static c"
| "work_pc h (Schedule ns k) = work_skont k"
| "work_pc h (PRef n ns k) = work_skont k"
| "work_pc h (PPut n ns k) = work_skont k"
| "work_pc h (Deref c) = is_static c"
| "work_pc h (Done c) = is_static c"
| "work_pc h (Crashed e) = True"
| "work_pc h _ = False"

text \<open>The nodes a program counter mentions.\<close>

fun skont_nodes :: "skont \<Rightarrow> nid list" where
  "skont_nodes (KSucc c) = [cnode c]"
| "skont_nodes _ = []"

fun pc_nodes :: "pc \<Rightarrow> nid list" where
  "pc_nodes (Schedule ns k) = ns @ skont_nodes k"
| "pc_nodes (PRef n ns k) = n # ns @ skont_nodes k"
| "pc_nodes (PPut n ns k) = n # ns @ skont_nodes k"
| "pc_nodes (LInvoke n g k) = [n]"
| "pc_nodes (Body c) = [cnode c]"
| "pc_nodes (Handle c sp) = [cnode c]"
| "pc_nodes (Defer c sp ok) = [cnode c]"
| "pc_nodes (Drop c vs) = [cnode c]"
| "pc_nodes (Succs c vs cs) = cnode c # cs"
| "pc_nodes (NSetup c cs) = cnode c # cs"
| "pc_nodes (Deref c) = [cnode c]"
| "pc_nodes (Done c) = [cnode c]"
| "pc_nodes _ = []"

definition roles :: "heap \<Rightarrow> gid \<Rightarrow> sys \<Rightarrow> bool" where
  "roles h0 g s \<longleftrightarrow> frame h0 (heap s) \<and> threads s \<noteq> [] \<and> main_pc g (threads s ! 0) \<and>
     (\<forall>i. 0 < i \<and> i < length (threads s) \<longrightarrow> work_pc h0 (threads s ! i)) \<and>
     list_all is_static (pool_items (epool s)) \<and>
     (\<forall>p \<in> set (threads s). set (pc_nodes p) \<subseteq> set (gnodes (hgraph h0 g))) \<and>
     set (items (wq s)) \<subseteq> set (gnodes (hgraph h0 g)) \<and>
     cnode ` set (pool_items (epool s)) \<subseteq> set (gnodes (hgraph h0 g))"

section \<open>The transitions\<close>

text \<open>\<open>move s p p' h q l es w\<close>: in \<open>s\<close>, a goroutine at \<open>p\<close> can go to \<open>p'\<close>, leaving the heap \<open>h\<close>, the
  node queue \<open>q\<close>, the task queue \<open>l\<close>, adding \<open>es\<close> to the history, with a signal to the graph when
  \<open>w\<close> holds.\<close>

inductive move :: "gid \<Rightarrow> sys \<Rightarrow> pc \<Rightarrow> pc \<Rightarrow> heap \<Rightarrow> nid list \<Rightarrow> closure list \<Rightarrow> hevent list \<Rightarrow> bool \<Rightarrow> bool"
  for g s where
  m_wait: "move g s (Client (Wait # cs)) (Client cs) (heap s) (items (wq s)) (pool_items (epool s)) [] False"
| m_sched_done: "move g s (Schedule [] k) (after_schedule k) (heap s) (items (wq s)) (pool_items (epool s)) [] False"
| m_sched_skip: "is_canceled s (graph_of s n) \<Longrightarrow> move g s (Schedule (n # ns) k) (after_schedule k)
    (heap s) (items (wq s)) (pool_items (epool s)) [] True"
| m_sched: "\<not> is_canceled s (graph_of s n) \<Longrightarrow> move g s (Schedule (n # ns) k) (PRef n ns k)
    (heap s) (items (wq s)) (pool_items (epool s)) [] False"
| m_ref: "move g s (PRef n ns k) (PPut n ns k) (graph_ref (graph_of s n) (heap s)) (items (wq s))
    (pool_items (epool s)) [] False"
| m_put: "move g s (PPut n ns k) (Schedule ns k) (heap s) (items (wq s) @ [n]) (pool_items (epool s)) [] True"
| m_sleep: "\<not> graph_recyclable (heap s) g \<Longrightarrow> items (wq s) = [] \<Longrightarrow> \<not> is_canceled s g \<Longrightarrow>
    move g s (LCheck g k) (LWait g k) (heap s) (items (wq s)) (pool_items (epool s)) [] False"
| m_awake: "graph_recyclable (heap s) g \<or> items (wq s) \<noteq> [] \<or> is_canceled s g \<Longrightarrow>
    move g s (LCheck g k) (LPop g k) (heap s) (items (wq s)) (pool_items (epool s)) [] False"
| m_leave: "graph_recyclable (heap s) g \<or> is_canceled s g \<Longrightarrow>
    move g s (LPop g k) (LLeave g k) (heap s) (items (wq s)) (pool_items (epool s)) [] False"
| m_pop: "\<not> graph_recyclable (heap s) g \<Longrightarrow> \<not> is_canceled s g \<Longrightarrow> items (wq s) = n # q \<Longrightarrow>
    move g s (LPop g k) (LInvoke n g k) (heap s) q (pool_items (epool s)) [] False"
| m_pop_empty: "\<not> graph_recyclable (heap s) g \<Longrightarrow> \<not> is_canceled s g \<Longrightarrow> items (wq s) = [] \<Longrightarrow>
    move g s (LPop g k) (Crashed e) (heap s) (items (wq s)) (pool_items (epool s)) [] False"
| m_invoke: "make_closure (heap s) n (kont_span k) = Some c \<Longrightarrow>
    move g s (LInvoke n g k) (LCheck g k) (heap s) (items (wq s)) (pool_items (epool s) @ [c]) [] False"
| m_invoke_bad: "make_closure (heap s) n (kont_span k) = None \<Longrightarrow>
    move g s (LInvoke n g k) (Crashed e) (heap s) (items (wq s)) (pool_items (epool s)) [] False"
| m_exit: "move g s (LLeave g (GMain cs)) (Client cs) (heap s) (items (wq s)) (pool_items (epool s)) [] True"
| m_gone: "pool_items (epool s) = [] \<Longrightarrow>
    move g s WPoll WGone (heap s) (items (wq s)) (pool_items (epool s)) [] False"
| m_take: "pool_items (epool s) = c # l \<Longrightarrow> move g s WPoll (Body c) (heap s) (items (wq s)) l [] False"
| m_skip: "is_canceled s (graph_of s (cnode c)) \<Longrightarrow>
    move g s (Body c) (Defer c sp True) (heap s) (items (wq s)) (pool_items (epool s)) [] False"
| m_call: "\<not> is_canceled s (graph_of s (cnode c)) \<Longrightarrow> move g s (Body c) (Handle c sp)
    (set_state kNodeStateRunning (cnode c) (heap s)) (items (wq s)) (pool_items (epool s)) [HCall (cnode c)] False"
| m_ret: "move g s (Handle c sp) (Defer c sp True) (set_state kNodeStateFinished (cnode c) (heap s))
    (items (wq s)) (pool_items (epool s)) [HRet (cnode c)] False"
| m_panic: "move g s (Handle c sp) (Defer c sp False) (heap s) (items (wq s)) (pool_items (epool s))
    [HPanic (cnode c)] False"
| m_defer_ok: "move g s (Defer c sp True) (Drop c (successors (hnode (heap s) (cnode c)))) (heap s) (items (wq s))
    (pool_items (epool s)) [] False"
| m_defer_bad: "move g s (Defer c sp False) (Drop c (successors (hnode (heap s) (cnode c))))
    (graph_cancel (graph_of s (cnode c)) (heap s)) (items (wq s)) (pool_items (epool s)) [] False"
| m_drop: "move g s (Drop c (v # vs)) (Drop c vs) (drop_one (cnode c) v (heap s)) (items (wq s))
    (pool_items (epool s)) [] False"
| m_dropped: "move g s (Drop c []) (Succs c (successors (hnode (heap s) (cnode c))) []) (heap s) (items (wq s))
    (pool_items (epool s)) [] False"
| m_cand: "node_recyclable (heap s) v \<Longrightarrow> nstate (hnode (heap s) v) = kNodeStateIdle \<Longrightarrow>
    move g s (Succs c (v # vs) cs) (Succs c vs (cs @ [v])) (set_state kNodeStateWaiting v (heap s))
      (items (wq s)) (pool_items (epool s)) [] False"
| m_not_cand: "\<not> (node_recyclable (heap s) v \<and> nstate (hnode (heap s) v) = kNodeStateIdle) \<Longrightarrow>
    move g s (Succs c (v # vs) cs) (Succs c vs cs) (heap s) (items (wq s)) (pool_items (epool s)) [] False"
| m_succs: "move g s (Succs c [] cs) (NSetup c cs) (heap s) (items (wq s)) (pool_items (epool s)) [] False"
| m_setup: "mset es = mset cs \<Longrightarrow> move g s (NSetup c cs) (Schedule es (KSucc c)) (node_setup (cnode c) (heap s))
    (items (wq s)) (pool_items (epool s)) [] False"
| m_deref: "move g s (Deref c) (Done c) (graph_deref (graph_of s (cnode c)) (heap s)) (items (wq s))
    (pool_items (epool s)) [] True"
| m_finish: "move g s (Done c) WPoll (heap s) (items (wq s)) (pool_items (epool s)) [HEnd (cnode c)] False"


fun is_invoke :: "pc \<Rightarrow> bool" where
  "is_invoke (LInvoke n g k) = True"
| "is_invoke _ = False"

definition goes :: "gid \<Rightarrow> sys \<Rightarrow> nat \<Rightarrow> pc \<Rightarrow> bool \<Rightarrow> sys \<Rightarrow> bool" where
  "goes g s i p' w t \<longleftrightarrow> (\<exists>ps. (ps = [] \<or> ps = [WPoll] \<and> is_invoke (threads s ! i)) \<and>
     threads t = (if w then signal g (threads s) else threads s)[i := p'] @ ps)"

definition moves :: "gid \<Rightarrow> sys \<Rightarrow> nat \<Rightarrow> sys \<Rightarrow> bool" where
  "moves g s i t \<longleftrightarrow> (\<exists>p' es w. goes g s i p' w t \<and> hist t = hist s @ es \<and>
     move g s (threads s ! i) p' (heap t) (items (wq t)) (pool_items (epool t)) es w)"

lemma movesI:
  assumes "move g s p p' h q l es w" "threads s ! i = p" "heap t = h" "items (wq t) = q"
    "pool_items (epool t) = l" "hist t = hist s @ es"
    "threads t = (if w then signal g (threads s) else threads s)[i := p'] @ ps"
    "ps = [] \<or> ps = [WPoll] \<and> is_invoke p"
  shows "moves g s i t"
  using assms unfolding moves_def goes_def by blast

section \<open>Every step is a transition\<close>

lemma static_nodes:
  assumes "static_flow h0 g" "frame h0 h" "n \<in> set (gnodes (hgraph h0 g))"
  shows "ngraph (hnode h n) = g" "ptr (hnode h n) = PStatic" "Typ (hnode h n) = nodeStatic"
    "set (successors (hnode h n)) \<subseteq> set (gnodes (hgraph h0 g))"
    "set (dependents (hnode h n)) \<subseteq> set (gnodes (hgraph h0 g))"
    "length (dependents (hnode h n)) < 2 ^ 32"
proof -
  have w: "wf_heap h0" using assms(1) by (simp add: static_flow_def)
  show "ptr (hnode h n) = PStatic" using assms by (simp add: static_flow_def frame_def)
  then show "Typ (hnode h n) = nodeStatic"
    using wf_heapD(3) [OF w, of n] assms(2) by (simp add: typ_ok_def frame_def)
  show "ngraph (hnode h n) = g" using wf_heapD(10) [OF w] assms(2,3) by (simp add: frame_def)
qed (use assms in \<open>simp_all add: static_flow_def frame_def\<close>)

lemma schedule_moves:
  assumes G: "\<And>n. n \<in> set (pc_nodes p) \<Longrightarrow> graph_of s n = g" and q: "queue_inv (wq s)"
    and p: "threads s ! i = p" and st: "pc_step s i p ch now = Some t"
    and k: "p = Schedule ns k \<or> p = PRef n ns k \<or> p = PPut n ns k"
  shows "moves g s i t"
proof -
  note I = movesI [where i = i and t = t and s = s and g = g and ps = "[]"]
  from k consider "p = Schedule [] k" | m ms where "p = Schedule (m # ms) k" | "p = PRef n ns k" | "p = PPut n ns k"
    by (cases ns) auto
  then show ?thesis
  proof cases
    case 1
    with p st show ?thesis by - (rule I [OF move.m_sched_done [of g s k]], auto)
  next
    case (2 m ms)
    then have gn: "graph_of s m = g" using G by simp
    show ?thesis
    proof (cases "is_canceled s g")
      case True
      with 2 p st gn show ?thesis
        by - (rule I [OF move.m_sched_skip [of s m g ms k]], auto split: if_splits)
    next
      case False
      with 2 p st gn show ?thesis by - (rule I [OF move.m_sched [of s m g ms k]], auto)
    qed
  next
    case 3
    with p st show ?thesis
      by - (rule I [OF move.m_ref [of g s n ns k]], auto simp: pref_step_def split: if_splits)
  next
    case 4
    with G p st show ?thesis
      by - (rule I [OF move.m_put [of g s n ns k]], auto simp: pput_step_def rq.list_put [OF q] split: if_splits)
  qed
qed

lemma main_step:
  assumes f: "static_flow h0 g" and r: "roles h0 g s" and a: "accounts s"
    and m: "main_pc g p" and p: "threads s ! i = p" and i: "i < length (threads s)"
    and st: "pc_step s i p ch now = Some t"
  shows "moves g s i t"
proof -
  have q: "queue_inv (wq s)" and po: "pool_ok (epool s)" using a by (simp_all add: accounts_def)
  have N: "n \<in> set (gnodes (hgraph h0 g))" if "n \<in> set (pc_nodes p)" for n
    using r p i that nth_mem [OF i] by (auto simp: roles_def)
  have G: "graph_of s n = g" if "n \<in> set (pc_nodes p)" for n
    using static_nodes(1) [OF f _ N [OF that]] r by (simp add: roles_def graph_of_def)
  note I = movesI [where i = i and t = t and s = s and g = g]
  show ?thesis
  proof (cases p)
    case (Client cs)
    with p m st show ?thesis
      by (auto intro!: I [OF move.m_wait, where ps = "[]"] split: if_splits)
  next
    case (Schedule ns k)
    with schedule_moves [OF G q p st, of ns k] show ?thesis by simp
  next
    case (PRef n ns k)
    with schedule_moves [OF G q p st, of ns k n] show ?thesis by simp
  next
    case (PPut n ns k)
    with schedule_moves [OF G q p st, of ns k n] show ?thesis by simp
  next
    case (LCheck g' k)
    show ?thesis
    proof (cases "graph_recyclable (heap s) g \<or> items (wq s) \<noteq> [] \<or> is_canceled s g")
      case True
      with LCheck p m st show ?thesis
        by - (rule I [OF move.m_awake [OF True, of k], where ps = "[]"],
          auto simp: lcheck_step_def rq.len_0 [OF q] split: if_splits)
    next
      case False
      then have f: "\<not> graph_recyclable (heap s) g" "items (wq s) = []" "\<not> is_canceled s g" by auto
      with LCheck p m st show ?thesis
        by - (rule I [OF move.m_sleep [OF f, of k], where ps = "[]"],
          auto simp: lcheck_step_def rq.len_0 [OF q] split: if_splits)
    qed
  next
    case (LPop g' k)
    show ?thesis
    proof (cases "graph_recyclable (heap s) g \<or> is_canceled s g")
      case True
      with LPop p m st show ?thesis
        by - (rule I [OF move.m_leave [OF True], where ps = "[]"], auto simp: lpop_step_def)
    next
      case False
      show ?thesis
      proof (cases "Pop (wq s)")
        case (Inl e)
        then have "items (wq s) = []" using rq.pop_nonempty [OF q] by auto
        with False LPop p m st Inl show ?thesis
          by - (rule I [OF move.m_pop_empty, where ps = "[]"], auto simp: lpop_step_def)
      next
        case (Inr nq)
        then obtain n q' where nq: "Pop (wq s) = Inr (n, q')" by (cases nq) auto
        with False LPop p m st rq.pop_Inr [OF q nq] show ?thesis
          by - (rule I [OF move.m_pop, where ps = "[]"], auto simp: lpop_step_def)
      qed
    qed
  next
    case (LInvoke n g' k)
    show ?thesis
    proof (cases "make_closure (heap s) n (kont_span k)")
      case None
      with LInvoke p m st show ?thesis
        by - (rule I [OF move.m_invoke_bad [OF None], where ps = "[]"], auto simp: linvoke_step_def)
    next
      case (Some c)
      obtain po' b where pb: "CtxGo c (epool s) = (po', b)" by fastforce
      with cp.submit_queued [OF po, of c] have "pool_items po' = pool_items (epool s) @ [c]" by simp
      with Some LInvoke p m st pb show ?thesis
        by - (rule I [OF move.m_invoke [OF Some], where ps = "if b then [WPoll] else []"], auto simp: linvoke_step_def)
    qed
  next
    case (LLeave g' k)
    with p m st show ?thesis
      by (cases k) (rule I [OF move.m_exit [of g s "[Wait]"], where ps = "[]"], auto)
  qed (use m st in auto)
qed


lemma worker_step:
  assumes f: "static_flow h0 g" and r: "roles h0 g s" and a: "accounts s"
    and m: "work_pc h0 p" and p: "threads s ! i = p" and i: "i < length (threads s)"
    and st: "pc_step s i p ch now = Some t"
  shows "moves g s i t"
proof -
  have po: "pool_ok (epool s)" and q: "queue_inv (wq s)" using a by (simp_all add: accounts_def)
  have N: "n \<in> set (gnodes (hgraph h0 g))" if "n \<in> set (pc_nodes p)" for n
    using r p i that nth_mem [OF i] by (auto simp: roles_def)
  have G: "graph_of s n = g" if "n \<in> set (pc_nodes p)" for n
    using static_nodes(1) [OF f _ N [OF that]] r by (simp add: roles_def graph_of_def)
  note I = movesI [where i = i and t = t and s = s and g = g]
  show ?thesis
  proof (cases p)
    case (Schedule ns k)
    with schedule_moves [OF G q p st, of ns k] show ?thesis by simp
  next
    case (PRef n ns k)
    with schedule_moves [OF G q p st, of ns k n] show ?thesis by simp
  next
    case (PPut n ns k)
    with schedule_moves [OF G q p st, of ns k n] show ?thesis by simp
  next
    case WPoll
    obtain r' po' where rp: "worker_poll (epool s) = Inr (r', po')" using cp.poll_total [OF po] by blast
    show ?thesis
    proof (cases r')
      case None
      then have "pool_items (epool s) = []" using cp.poll_None [OF po] rp by blast
      with None WPoll p st rp cp.poll_None [OF po rp [unfolded None]] show ?thesis
        by - (rule I [OF move.m_gone [of s g], where ps = "[]"], auto simp: wpoll_step_def)
    next
      case (Some c)
      with WPoll p st rp cp.poll_Some [OF po rp [unfolded Some]] show ?thesis
        by - (rule I [OF move.m_take [of s c "pool_items po'" g], where ps = "[]"], auto simp: wpoll_step_def)
    qed
  next
    case (Body c)
    obtain sp ob where so: "openSpan (heap s) (cnode c) (cparent c) now (obs s) = (sp, ob)" by fastforce
    have ch: "calls_handle (heap s) c" using m Body by (cases c) auto
    show ?thesis
    proof (cases "is_canceled s (graph_of s (cnode c))")
      case True
      with Body p st so show ?thesis
        by - (rule I [OF move.m_skip [OF True, of g sp], where ps = "[]"], auto simp: body_step_def Let_def)
    next
      case False
      with Body p st so ch show ?thesis
        by - (rule I [OF move.m_call [OF False, of g sp], where ps = "[]"], auto simp: body_step_def Let_def)
    qed
  next
    case (Handle c sp)
    with m obtain n pa where c: "c = StaticC n pa" by (cases c) auto
    from st Handle c consider "ch = Return" | "ch = Panic" by (cases ch) auto
    then show ?thesis
    proof cases
      case 1
      with Handle p st c show ?thesis by - (rule I [OF move.m_ret [of g s c sp], where ps = "[]"], auto)
    next
      case 2
      with Handle p st c show ?thesis by - (rule I [OF move.m_panic [of g s c sp], where ps = "[]"], auto)
    qed
  next
    case (Defer c sp ok)
    with m obtain n pa where c: "c = StaticC n pa" by (cases c) auto
    show ?thesis
    proof (cases ok)
      case True
      with Defer p st c show ?thesis by - (rule I [OF move.m_defer_ok [of g s c sp], where ps = "[]"], auto)
    next
      case False
      with Defer p st c show ?thesis by - (rule I [OF move.m_defer_bad [of g s c sp], where ps = "[]"], auto)
    qed
  next
    case (Drop c vs)
    with m obtain n pa where c: "c = StaticC n pa" by (cases c) auto
    show ?thesis
    proof (cases vs)
      case Nil
      with Drop p st c show ?thesis by - (rule I [OF move.m_dropped [of g s c], where ps = "[]"], auto)
    next
      case (Cons v us)
      with Drop p st c show ?thesis by - (rule I [OF move.m_drop [of g s c v us], where ps = "[]"], auto)
    qed
  next
    case (Succs c vs cs)
    show ?thesis
    proof (cases vs)
      case Nil
      with Succs p st show ?thesis by - (rule I [OF move.m_succs [of g s c cs], where ps = "[]"], auto)
    next
      case (Cons v us)
      show ?thesis
      proof (cases "node_recyclable (heap s) v \<and> nstate (hnode (heap s) v) = kNodeStateIdle")
        case True
        then have t: "node_recyclable (heap s) v" "nstate (hnode (heap s) v) = kNodeStateIdle" by auto
        with Succs Cons p st show ?thesis
          by - (rule I [OF move.m_cand [OF t, of g c us cs], where ps = "[]"], auto)
      next
        case False
        with Succs Cons p st show ?thesis
          by - (rule I [OF move.m_not_cand [OF False, of g c us cs], where ps = "[]"], auto split: if_splits)
      qed
    qed
  next
    case (NSetup c cs)
    with st obtain es where es: "ch = Sorted es" "is_sort (heap s) cs es"
      by (auto simp: nsetup_step_def split: choice.splits if_splits)
    then have me: "mset es = mset cs" by (simp add: is_sort_def)
    from es NSetup p st show ?thesis
      by - (rule I [OF move.m_setup [OF me, of g s c], where ps = "[]"], auto simp: nsetup_step_def)
  next
    case (Deref c)
    with G have "graph_of s (cnode c) = g" by simp
    moreover have "\<not> is_condition c" using m Deref by (cases c) auto
    ultimately show ?thesis
      using Deref p st by - (rule I [OF move.m_deref [of g s c], where ps = "[]"],
        auto simp: deref_step_def split: if_splits)
  next
    case (Done c)
    have "\<not> wg s - 1 < 0" using Done_accounts(2) [OF a i] p Done st by fastforce
    with st Done obtain po' where
      t: "t = goto i WPoll (log [HEnd (cnode c)] (s\<lparr>wg := wg s - 1, epool := po'\<rparr>))"
      "task_end False (epool s) = Some po'"
      by (auto simp: done_step_def split: option.splits)
    with p Done task_end_simps [OF t(2)] show ?thesis
      by - (rule I [OF move.m_finish [of g s c], where ps = "[]"], auto)
  qed (use m st in auto)
qed

lemma step_move:
  assumes "static_flow h0 g" "roles h0 g s" "accounts s" "step s (i, ch, now) = Some t"
  shows "moves g s i t"
proof -
  have i: "i < length (threads s)" and st: "pc_step s i (threads s ! i) ch now = Some t"
    using assms(4) by (auto split: if_splits)
  show ?thesis
  proof (cases "i = 0")
    case True
    with main_step [OF assms(1-3) _ refl i st] assms(2) show ?thesis by (simp add: roles_def)
  next
    case False
    with worker_step [OF assms(1-3) _ refl i st] assms(2) i show ?thesis by (simp add: roles_def)
  qed
qed


section \<open>Transitions keep the roles\<close>

lemma goes_append:
  assumes "goes g s i p' w t"
  obtains ps where "set ps \<subseteq> {WPoll}" "threads t = (if w then signal g (threads s) else threads s)[i := p'] @ ps"
proof -
  from assms obtain ps where "ps = [] \<or> ps = [WPoll]"
    "threads t = (if w then signal g (threads s) else threads s)[i := p'] @ ps"
    unfolding goes_def by blast
  with that [of ps] show thesis by auto
qed

lemma goes_length: "goes g s i p' w t \<Longrightarrow> length (threads s) \<le> length (threads t)"
  by (auto simp: goes_def)

lemma goes_at: "goes g s i p' w t \<Longrightarrow> i < length (threads s) \<Longrightarrow> threads t ! i = p'"
  by (auto simp: goes_def nth_append)

lemma goes_other:
  assumes "goes g s i p' w t" "j < length (threads t)" "j \<noteq> i"
  shows "j < length (threads s) \<and> threads t ! j = threads s ! j \<or>
    j < length (threads s) \<and> w \<and> (\<exists>k. threads s ! j = LWait g k \<and> threads t ! j = LCheck g k) \<or>
    length (threads s) \<le> j \<and> threads t ! j = WPoll"
proof (cases "j < length (threads s)")
  case True
  with assms have "threads t ! j = (if w then signal g (threads s) else threads s) ! j"
    by (cases w) (auto simp: goes_def nth_append)
  with signal_nth [OF True, of g] True show ?thesis by (cases w) auto
next
  case False
  from assms(1) obtain ps where ps: "set ps \<subseteq> {WPoll}"
    "threads t = (if w then signal g (threads s) else threads s)[i := p'] @ ps"
    by (rule goes_append)
  with False assms(2) have "threads t ! j = ps ! (j - length (threads s))"
    "j - length (threads s) < length ps" by (auto simp: nth_append split: if_splits)
  with ps(1) False show ?thesis using nth_mem by fastforce
qed

lemma goes_cases:
  assumes "goes g s i p' w t" "i < length (threads s)" "p \<in> set (threads t)"
  shows "p = p' \<or> p \<in> set (threads s) \<or> (\<exists>k. p = LCheck g k) \<or> p = WPoll"
proof -
  from assms(3) obtain j where j: "j < length (threads t)" "p = threads t ! j" by (auto simp: in_set_conv_nth)
  show ?thesis
  proof (cases "j = i")
    case True
    with j goes_at [OF assms(1,2)] show ?thesis by simp
  next
    case False
    from goes_other [OF assms(1) j(1) False] j show ?thesis by auto
  qed
qed

lemma move_frame: "move g s p p' h q l es w \<Longrightarrow> frame h0 (heap s) \<Longrightarrow> frame h0 h"
  by (induction rule: move.induct) auto

lemma move_main: "move g s p p' h q l es w \<Longrightarrow> main_pc g p \<Longrightarrow> main_pc g p'"
proof (induction rule: move.induct)
  case (m_sched_done k)
  then show ?case by (cases k) auto
next
  case (m_sched_skip n ns k)
  then show ?case by (cases k) auto
qed auto

lemma is_suffix_simps [simp]: "is_suffix xs xs" "is_suffix (v # vs) xs \<Longrightarrow> is_suffix vs xs"
proof -
  show "is_suffix xs xs" by (simp add: is_suffix_def)
  show "is_suffix vs xs" if "is_suffix (v # vs) xs"
  proof -
    from that obtain us where "xs = (us @ [v]) @ vs" by (auto simp: is_suffix_def)
    then show ?thesis unfolding is_suffix_def ..
  qed
qed

lemma is_suffix_mem: "is_suffix vs xs \<Longrightarrow> set vs \<subseteq> set xs"
  by (auto simp: is_suffix_def)

lemma move_work:
  "move g s p p' h q l es w \<Longrightarrow> work_pc h0 p \<Longrightarrow> frame h0 (heap s) \<Longrightarrow>
   list_all is_static (pool_items (epool s)) \<Longrightarrow> work_pc h0 p'"
proof (induction rule: move.induct)
  case (m_sched_done k)
  then show ?case by (cases k) auto
next
  case (m_sched_skip n ns k)
  then show ?case by (cases k) auto
qed (auto simp: frame_def)

lemma move_nodes:
  assumes "move g s p p' h q l es w" "set (pc_nodes p) \<subseteq> N" "set (items (wq s)) \<subseteq> N"
    "cnode ` set (pool_items (epool s)) \<subseteq> N" "work_pc h0 p \<or> main_pc g p" "frame h0 (heap s)"
    "\<And>n. n \<in> N \<Longrightarrow> set (successors (hnode h0 n)) \<subseteq> N"
  shows "set (pc_nodes p') \<subseteq> N \<and> set q \<subseteq> N \<and> cnode ` set l \<subseteq> N"
  using assms
proof (induction rule: move.induct)
  case (m_sched_done k)
  then show ?case by (cases k) auto
next
  case (m_sched_skip n ns k)
  then show ?case by (cases k) auto
next
  case (m_invoke n k c)
  then have "cnode c = n" by (auto simp: make_closure_def split: node_ptr.splits)
  with m_invoke show ?case by auto
next
  case (m_cand v c vs cs)
  then have "v \<in> set (successors (hnode h0 (cnode c)))" using is_suffix_mem by fastforce
  moreover have "cnode c \<in> N" using m_cand.prems by simp
  ultimately have "v \<in> N" using m_cand.prems(6) by blast
  with m_cand.prems show ?case by auto
next
  case (m_setup es cs c)
  then show ?case using mset_eq_setD [OF m_setup.hyps] by auto
qed auto

lemma move_pool_static:
  assumes "move g s p p' h q l es w" "list_all is_static (pool_items (epool s))" "static_flow h0 g"
    "frame h0 (heap s)" "set (pc_nodes p) \<subseteq> set (gnodes (hgraph h0 g))"
  shows "list_all is_static l"
  using assms
proof (induction rule: move.induct)
  case (m_invoke n k c)
  then show ?case using static_nodes(2) [of h0 g "heap s" n]
    by (auto simp: make_closure_def split: node_ptr.splits)
qed auto

lemma moves_roles:
  assumes f: "static_flow h0 g" and r: "roles h0 g s" and i: "i < length (threads s)" and m: "moves g s i t"
  shows "roles h0 g t"
proof -
  let ?N = "set (gnodes (hgraph h0 g))"
  from m obtain p' es w where go: "goes g s i p' w t"
    and mv: "move g s (threads s ! i) p' (heap t) (items (wq t)) (pool_items (epool t)) es w"
    by (auto simp: moves_def)
  have fr: "frame h0 (heap s)" and po: "list_all is_static (pool_items (epool s))"
    and role: "i = 0 \<Longrightarrow> main_pc g (threads s ! i)" "i \<noteq> 0 \<Longrightarrow> work_pc h0 (threads s ! i)"
    and nn: "set (pc_nodes (threads s ! i)) \<subseteq> ?N"
    using r i by (auto simp: roles_def)
  have succ: "set (successors (hnode h0 n)) \<subseteq> ?N" if "n \<in> ?N" for n
    using static_nodes(4) [OF f frame_refl that] .
  have nodes: "set (pc_nodes p') \<subseteq> ?N \<and> set (items (wq t)) \<subseteq> ?N \<and> cnode ` set (pool_items (epool t)) \<subseteq> ?N"
    using move_nodes [OF mv nn _ _ _ fr succ] r role by (auto simp: roles_def)
  have "\<forall>p \<in> set (threads t). set (pc_nodes p) \<subseteq> ?N"
  proof
    fix p
    assume "p \<in> set (threads t)"
    from goes_cases [OF go i this] consider "p = p'" | "p \<in> set (threads s)" | "pc_nodes p = []" by auto
    then show "set (pc_nodes p) \<subseteq> ?N" using nodes r by cases (auto simp: roles_def)
  qed
  moreover have "main_pc g (threads t ! 0)"
  proof (cases "i = 0")
    case True
    with move_main [OF mv] role goes_at [OF go i] show ?thesis by simp
  next
    case False
    have m0: "main_pc g (threads s ! 0)" using r by (simp add: roles_def)
    have "0 < length (threads t)" using goes_length [OF go] i by linarith
    from goes_other [OF go this] False i consider "threads t ! 0 = threads s ! 0"
      | k where "threads s ! 0 = LWait g k" "threads t ! 0 = LCheck g k"
      by fastforce
    then show ?thesis using m0 by cases auto
  qed
  moreover have "work_pc h0 (threads t ! j)" if "0 < j" "j < length (threads t)" for j
  proof (cases "i = j")
    case True
    with move_work [OF mv _ fr po] role goes_at [OF go i] that show ?thesis by auto
  next
    case False
    have wj: "work_pc h0 (threads s ! j)" if "j < length (threads s)"
      using r that \<open>0 < j\<close> by (simp add: roles_def)
    from goes_other [OF go that(2)] False consider "j < length (threads s)" "threads t ! j = threads s ! j"
      | k where "j < length (threads s)" "threads s ! j = LWait g k" | "threads t ! j = WPoll"
      by blast
    then show ?thesis using wj by cases auto
  qed
  moreover have "threads t \<noteq> []" using goes_length [OF go] i by auto
  ultimately show ?thesis
    using move_frame [OF mv fr] move_pool_static [OF mv po f fr nn] nodes by (auto simp: roles_def)
qed

end
