(* ===== verification/Static_Safety.thy ===== *)
theory Static_Safety
  imports Static_Flow
begin

text \<open>
  Safety of a run of static tasks, with panics allowed: the position of every node is counted
  (queued, submitted, being executed, ended), a node is in at most one place and is never scheduled
  again, its join counter is what the drops so far leave, and a node is scheduled only when all its
  dependents have dropped it. From this: each task is called at most once, after all its dependents
  have returned, and the loop of \<open>invokeGraph\<close> never pops an empty queue.
\<close>

section \<open>Counting positions\<close>

fun k_late :: "nid \<Rightarrow> skont \<Rightarrow> nat" where
  "k_late n (KSucc c) = of_bool (cnode c = n)"
| "k_late n _ = 0"

text \<open>Occurrences of a node before the \<open>setup\<close> that follows its execution, and after it.\<close>

fun early :: "nid \<Rightarrow> pc \<Rightarrow> nat" where
  "early n (Schedule ns k) = count_list ns n"
| "early n (PRef m ns k) = count_list (m # ns) n"
| "early n (PPut m ns k) = count_list (m # ns) n"
| "early n (LInvoke m g k) = of_bool (m = n)"
| "early n (Body c) = of_bool (cnode c = n)"
| "early n (Handle c sp) = of_bool (cnode c = n)"
| "early n (Defer c sp ok) = of_bool (cnode c = n)"
| "early n (Drop c vs) = of_bool (cnode c = n)"
| "early n (Succs c vs cs) = of_bool (cnode c = n) + count_list cs n"
| "early n (NSetup c cs) = of_bool (cnode c = n) + count_list cs n"
| "early n _ = 0"

fun late :: "nid \<Rightarrow> pc \<Rightarrow> nat" where
  "late n (Schedule ns k) = k_late n k"
| "late n (PRef m ns k) = k_late n k"
| "late n (PPut m ns k) = k_late n k"
| "late n (Deref c) = of_bool (cnode c = n)"
| "late n (Done c) = of_bool (cnode c = n)"
| "late n _ = 0"

lemma early_late_nodes: "early n p + late n p = count_list (pc_nodes p) n"
proof -
  have "count_list (skont_nodes k) n = k_late n k" for k by (cases k) auto
  then show ?thesis by (cases p) auto
qed

text \<open>The edges into \<open>n\<close> that a goroutine's node has dropped.\<close>

fun k_cut :: "heap \<Rightarrow> nid \<Rightarrow> skont \<Rightarrow> nat" where
  "k_cut h n (KSucc c) = count_list (successors (hnode h (cnode c))) n"
| "k_cut h n _ = 0"

fun cut :: "heap \<Rightarrow> nid \<Rightarrow> pc \<Rightarrow> nat" where
  "cut h n (Drop c vs) = count_list (successors (hnode h (cnode c))) n - count_list vs n"
| "cut h n (Succs c vs cs) = count_list (successors (hnode h (cnode c))) n"
| "cut h n (NSetup c cs) = count_list (successors (hnode h (cnode c))) n"
| "cut h n (Schedule ns k) = k_cut h n k"
| "cut h n (PRef m ns k) = k_cut h n k"
| "cut h n (PPut m ns k) = k_cut h n k"
| "cut h n (Deref c) = count_list (successors (hnode h (cnode c))) n"
| "cut h n (Done c) = count_list (successors (hnode h (cnode c))) n"
| "cut h n _ = 0"

fun hcut :: "heap \<Rightarrow> nid \<Rightarrow> hevent \<Rightarrow> nat" where
  "hcut h n (HEnd d) = count_list (successors (hnode h d)) n"
| "hcut h n _ = 0"

text \<open>References to the graph that are held.\<close>

fun k_ref :: "skont \<Rightarrow> nat" where
  "k_ref (KSucc c) = 1"
| "k_ref _ = 0"

fun refs_of :: "pc \<Rightarrow> nat" where
  "refs_of (Schedule ns k) = k_ref k"
| "refs_of (PRef n ns k) = k_ref k"
| "refs_of (PPut n ns k) = Suc (k_ref k)"
| "refs_of (LInvoke n g k) = 1"
| "refs_of (Body c) = 1"
| "refs_of (Handle c sp) = 1"
| "refs_of (Defer c sp ok) = 1"
| "refs_of (Drop c vs) = 1"
| "refs_of (Succs c vs cs) = 1"
| "refs_of (NSetup c cs) = 1"
| "refs_of (Deref c) = 1"
| "refs_of _ = 0"

definition waiting :: "nid \<Rightarrow> sys \<Rightarrow> nat" where
  "waiting n s = total (early n) s + count_list (items (wq s)) n + count_list (map cnode (pool_items (epool s))) n"

definition finished :: "nid \<Rightarrow> sys \<Rightarrow> nat" where
  "finished n s = total (late n) s + count_list (hist s) (HEnd n)"

definition cuts :: "heap \<Rightarrow> nid \<Rightarrow> sys \<Rightarrow> nat" where
  "cuts h n s = total (cut h n) s + sum_list (map (hcut h n) (hist s))"

definition refs :: "sys \<Rightarrow> nat" where
  "refs s = total refs_of s + length (items (wq s)) + length (pool_items (epool s))"

definition countable_pc :: "(pc \<Rightarrow> nat) \<Rightarrow> bool" where
  "countable_pc f \<longleftrightarrow> wait_blind f \<and> f WPoll = 0"

lemma countable_simps [simp]:
  "countable_pc (early n)" "countable_pc (late n)" "countable_pc (cut h n)" "countable_pc refs_of"
  by (simp_all add: countable_pc_def wait_blind_def)

lemma goes_total:
  assumes "goes g s i p' w t" "i < length (threads s)" "countable_pc f"
  shows "total f t + f (threads s ! i) = total f s + f p'"
proof -
  obtain ps where ps: "set ps \<subseteq> {WPoll}" "threads t = (if w then signal g (threads s) else threads s)[i := p'] @ ps"
    using assms(1) by (rule goes_append)
  have z: "sum_list (map f ps) = 0" using ps(1) assms(3) by (induction ps) (auto simp: countable_pc_def)
  have "total f t = sum_list (map f ((if w then signal g (threads s) else threads s)[i := p']))"
    unfolding total_def ps(2) map_append sum_list_append z by simp
  moreover have "wait_blind f" using assms(3) by (simp add: countable_pc_def)
  ultimately show ?thesis
    using assms(2) sum_goto_signal [of f i "threads s" g p'] sum_list_update [of i "threads s" f p']
    by (cases w) (simp_all add: total_def)
qed

section \<open>Bounds on the counts\<close>

lemma sum_list_weighted:
  assumes "finite D" "\<And>p. p \<in> set ps \<Longrightarrow> f p \<le> (\<Sum>d \<in> D. F d p * w d)"
  shows "sum_list (map f ps) \<le> (\<Sum>d \<in> D. sum_list (map (F d) ps) * (w d :: nat))"
  using assms(2)
proof (induction ps)
  case (Cons p ps)
  then have "f p + sum_list (map f ps) \<le> (\<Sum>d \<in> D. F d p * w d) + (\<Sum>d \<in> D. sum_list (map (F d) ps) * w d)"
    by (meson add_mono list.set_intros)
  then show ?case by (simp add: sum.distrib [symmetric] algebra_simps)
qed simp

lemma sum_count_nodes: "set xs \<subseteq> D \<Longrightarrow> finite D \<Longrightarrow> (\<Sum>d \<in> D. count_list xs d) = length xs"
  by (rule sum_count_set)

lemma sum_list_count:
  assumes "finite D" "\<And>p. p \<in> set ps \<Longrightarrow> set (N p) \<subseteq> D"
  shows "(\<Sum>d \<in> D. sum_list (map (\<lambda>p. count_list (N p) d) ps)) = sum_list (map (\<lambda>p. length (N p)) ps)"
  using assms(2) by (induction ps) (simp_all add: sum.distrib sum_count_set [OF _ assms(1)])

definition ends_in :: "heap \<Rightarrow> gid \<Rightarrow> sys \<Rightarrow> bool" where
  "ends_in h0 g s \<longleftrightarrow> (\<forall>d. HEnd d \<in> set (hist s) \<longrightarrow> d \<in> set (gnodes (hgraph h0 g)))"

definition places :: "heap \<Rightarrow> gid \<Rightarrow> sys \<Rightarrow> bool" where
  "places h0 g s \<longleftrightarrow> (\<forall>n \<in> set (gnodes (hgraph h0 g)). waiting n s + finished n s \<le> 1)"

text \<open>The node whose span is closed at a program counter: its edges are being dropped or are dropped.\<close>

fun past_nodes :: "pc \<Rightarrow> nid list" where
  "past_nodes (Drop c vs) = [cnode c]"
| "past_nodes (Succs c vs cs) = [cnode c]"
| "past_nodes (NSetup c cs) = [cnode c]"
| "past_nodes (Schedule ns k) = skont_nodes k"
| "past_nodes (PRef n ns k) = skont_nodes k"
| "past_nodes (PPut n ns k) = skont_nodes k"
| "past_nodes (Deref c) = [cnode c]"
| "past_nodes (Done c) = [cnode c]"
| "past_nodes _ = []"

lemma past_nodes_le: "count_list (past_nodes p) d \<le> count_list (pc_nodes p) d"
  by (cases p) auto

lemma past_nodes_subset: "set (past_nodes p) \<subseteq> set (pc_nodes p)"
  by (cases p) auto

lemma cut_le:
  assumes "set (past_nodes p) \<subseteq> D" "finite D"
  shows "cut h n p \<le> (\<Sum>d \<in> D. count_list (past_nodes p) d * count_list (successors (hnode h d)) n)"
proof -
  have one: "count_list (successors (hnode h c)) n \<le> (\<Sum>d \<in> D. count_list (past_nodes p) d * count_list (successors (hnode h d)) n)"
    if "c \<in> set (past_nodes p)" for c
  proof -
    have "1 \<le> count_list (past_nodes p) c" using that by (simp add: Suc_le_eq count_list_0_iff flip: neq0_conv)
    then have "count_list (successors (hnode h c)) n \<le> count_list (past_nodes p) c * count_list (successors (hnode h c)) n"
      by simp
    also have "\<dots> \<le> (\<Sum>d \<in> D. count_list (past_nodes p) d * count_list (successors (hnode h d)) n)"
      using that assms by (intro member_le_sum) auto
    finally show ?thesis .
  qed
  show ?thesis
  proof (cases p)
    case (Schedule ns k)
    then show ?thesis using one by (cases k) auto
  next
    case (PRef m ns k)
    then show ?thesis using one by (cases k) auto
  next
    case (PPut m ns k)
    then show ?thesis using one by (cases k) auto
  next
    case (Drop c vs)
    then have "cut h n p \<le> count_list (successors (hnode h (cnode c))) n" by simp
    also have "\<dots> \<le> (\<Sum>d \<in> D. count_list (past_nodes p) d * count_list (successors (hnode h d)) n)"
      using one Drop by simp
    finally show ?thesis .
  qed (use one in auto)
qed


lemma hcut_le:
  assumes "\<And>d. e = HEnd d \<Longrightarrow> d \<in> D" "finite D"
  shows "hcut h n e \<le> (\<Sum>d \<in> D. of_bool (e = HEnd d) * count_list (successors (hnode h d)) n)"
proof (cases e)
  case (HEnd c)
  then have "hcut h n e = of_bool (e = HEnd c) * count_list (successors (hnode h c)) n" by simp
  also have "\<dots> \<le> (\<Sum>d \<in> D. of_bool (e = HEnd d) * count_list (successors (hnode h d)) n)"
    using assms HEnd by (intro member_le_sum) auto
  finally show ?thesis .
qed simp_all

lemma sum_list_of_bool: "sum_list (map (\<lambda>x. of_bool (x = y)) xs) = count_list xs y"
  by (induction xs) auto

lemma total_nodes: "total (early n) s + total (late n) s = sum_list (map (\<lambda>p. count_list (pc_nodes p) n) (threads s))"
  by (simp add: total_def early_late_nodes [symmetric] sum_list_addf)

lemma positions_eq:
  "waiting n s + finished n s = sum_list (map (\<lambda>p. count_list (pc_nodes p) n) (threads s)) +
     count_list (items (wq s)) n + count_list (map cnode (pool_items (epool s))) n + count_list (hist s) (HEnd n)"
  using total_nodes [of n s] by (simp add: waiting_def finished_def)

lemma edge_count: "static_flow h g \<Longrightarrow> count_list (successors (hnode h d)) n = count_list (dependents (hnode h n)) d"
  by (simp add: static_flow_def wf_heap_def edges_ok_def)

definition over :: "nid \<Rightarrow> sys \<Rightarrow> nat" where
  "over d s = sum_list (map (\<lambda>p. count_list (past_nodes p) d) (threads s)) + count_list (hist s) (HEnd d)"

lemma over_le: "over d s \<le> waiting d s + finished d s"
  unfolding over_def positions_eq using sum_list_mono [of "threads s", OF past_nodes_le] by (simp add: trans_le_add1)

text \<open>The edges dropped are edges of nodes whose execution is over; no more edges into a node are
  dropped than it has.\<close>

lemma cuts_weighted:
  assumes r: "roles h0 g s" and e: "ends_in h0 g s"
  shows "cuts h0 n s \<le> (\<Sum>d \<in> set (gnodes (hgraph h0 g)). over d s * count_list (successors (hnode h0 d)) n)"
proof -
  let ?N = "set (gnodes (hgraph h0 g))"
  let ?w = "\<lambda>d. count_list (successors (hnode h0 d)) n"
  have "total (cut h0 n) s \<le> (\<Sum>d \<in> ?N. sum_list (map (\<lambda>p. count_list (past_nodes p) d) (threads s)) * ?w d)"
    unfolding total_def
  proof (rule sum_list_weighted)
    fix p
    assume "p \<in> set (threads s)"
    with r have "set (pc_nodes p) \<subseteq> ?N" by (simp add: roles_def)
    with past_nodes_subset have "set (past_nodes p) \<subseteq> ?N" by (rule subset_trans)
    then show "cut h0 n p \<le> (\<Sum>d \<in> ?N. count_list (past_nodes p) d * ?w d)" by (rule cut_le) simp
  qed simp
  moreover have "sum_list (map (hcut h0 n) (hist s)) \<le> (\<Sum>d \<in> ?N. sum_list (map (\<lambda>x. of_bool (x = HEnd d)) (hist s)) * ?w d)"
  proof (rule sum_list_weighted)
    fix x
    assume "x \<in> set (hist s)"
    with e show "hcut h0 n x \<le> (\<Sum>d \<in> ?N. of_bool (x = HEnd d) * ?w d)"
      by (intro hcut_le) (auto simp: ends_in_def)
  qed simp
  ultimately show ?thesis
    unfolding cuts_def over_def add_mult_distrib sum.distrib sum_list_of_bool by (rule add_mono)
qed

lemma sum_edges:
  assumes "static_flow h0 g" "n \<in> set (gnodes (hgraph h0 g))"
  shows "(\<Sum>d \<in> set (gnodes (hgraph h0 g)). count_list (successors (hnode h0 d)) n) = length (dependents (hnode h0 n))"
  unfolding edge_count [OF assms(1)] using static_nodes(5) [OF assms(1) frame_refl assms(2)] by (rule sum_count_set) simp

lemma cuts_le:
  assumes f: "static_flow h0 g" and r: "roles h0 g s" and e: "ends_in h0 g s" and p: "places h0 g s"
    and n: "n \<in> set (gnodes (hgraph h0 g))"
  shows "cuts h0 n s \<le> length (dependents (hnode h0 n))"
proof -
  let ?N = "set (gnodes (hgraph h0 g))"
  have "cuts h0 n s \<le> (\<Sum>d \<in> ?N. over d s * count_list (successors (hnode h0 d)) n)" by (rule cuts_weighted [OF r e])
  also have "\<dots> \<le> (\<Sum>d \<in> ?N. 1 * count_list (successors (hnode h0 d)) n)"
  proof (rule sum_mono)
    fix d
    assume "d \<in> ?N"
    with p over_le [of d s] have "over d s \<le> 1" by (force simp: places_def)
    then show "over d s * count_list (successors (hnode h0 d)) n \<le> 1 * count_list (successors (hnode h0 d)) n"
      by (rule mult_right_mono) simp
  qed
  finally show ?thesis using sum_edges [OF f n] by simp
qed

text \<open>When all edges into a node are dropped, all its dependents are over.\<close>

lemma all_cut_over:
  assumes f: "static_flow h0 g" and r: "roles h0 g s" and e: "ends_in h0 g s" and p: "places h0 g s"
    and n: "n \<in> set (gnodes (hgraph h0 g))" and all: "cuts h0 n s = length (dependents (hnode h0 n))"
    and d: "d \<in> set (dependents (hnode h0 n))"
  shows "0 < over d s"
proof (rule ccontr)
  let ?N = "set (gnodes (hgraph h0 g))"
  let ?w = "\<lambda>d. count_list (successors (hnode h0 d)) n"
  assume "\<not> 0 < over d s"
  then have z: "over d s = 0" by simp
  have dN: "d \<in> ?N" using static_nodes(5) [OF f frame_refl n] d by blast
  have w: "0 < ?w d" using edge_count [OF f, of d n] d by (metis count_list_0_iff gr0I)
  have "(\<Sum>k \<in> ?N. over k s * ?w k) < (\<Sum>k \<in> ?N. ?w k)"
  proof (rule sum_strict_mono_ex1)
    show "\<forall>k \<in> ?N. over k s * ?w k \<le> ?w k"
    proof
      fix k
      assume "k \<in> ?N"
      with p over_le [of k s] have "over k s \<le> 1" by (force simp: places_def)
      then show "over k s * ?w k \<le> ?w k" using mult_right_mono [of "over k s" 1 "?w k"] by simp
    qed
    show "\<exists>k \<in> ?N. over k s * ?w k < ?w k" using dN z w by (intro bexI [of _ d]) auto
  qed simp
  with cuts_weighted [OF r e, of n] sum_edges [OF f n] all show False by simp
qed

lemma refs_of_le: "refs_of p \<le> length (pc_nodes p)"
proof -
  have "k_ref k \<le> length (skont_nodes k)" for k by (cases k) auto
  then show ?thesis by (cases p) (auto simp: le_SucI trans_le_add2)
qed

text \<open>The graph's counter does not wrap: it is bounded by the number of nodes.\<close>

lemma refs_le:
  assumes r: "roles h0 g s" and p: "places h0 g s"
  shows "refs s \<le> length (gnodes (hgraph h0 g))"
proof -
  let ?N = "set (gnodes (hgraph h0 g))"
  have "total refs_of s \<le> sum_list (map (\<lambda>p. length (pc_nodes p)) (threads s))"
    unfolding total_def by (intro sum_list_mono) (simp add: refs_of_le)
  also have "\<dots> = (\<Sum>d \<in> ?N. sum_list (map (\<lambda>p. count_list (pc_nodes p) d) (threads s)))"
    using r by (intro sum_list_count [symmetric]) (auto simp: roles_def)
  finally have t: "total refs_of s \<le> (\<Sum>d \<in> ?N. sum_list (map (\<lambda>p. count_list (pc_nodes p) d) (threads s)))" .
  have l: "length (items (wq s)) = (\<Sum>d \<in> ?N. count_list (items (wq s)) d)"
    "length (pool_items (epool s)) = (\<Sum>d \<in> ?N. count_list (map cnode (pool_items (epool s))) d)"
    using r sum_count_set [of "items (wq s)" ?N] sum_count_set [of "map cnode (pool_items (epool s))" ?N]
    by (auto simp: roles_def)
  have "refs s \<le> (\<Sum>d \<in> ?N. waiting d s + finished d s)"
    unfolding refs_def l positions_eq sum.distrib using t by simp
  also have "\<dots> \<le> (\<Sum>d \<in> ?N. 1)" using p by (intro sum_mono) (simp add: places_def)
  also have "\<dots> \<le> length (gnodes (hgraph h0 g))" by (simp add: card_length)
  finally show ?thesis .
qed


section \<open>Join counters\<close>

text \<open>The join counter of a node is what its setups added less what the drops took away; a node that
  has been scheduled has had all its incoming edges dropped; a node that is waiting or running and
  has dependents is not idle.\<close>

definition counters :: "heap \<Rightarrow> gid \<Rightarrow> sys \<Rightarrow> bool" where
  "counters h0 g s \<longleftrightarrow> (\<forall>n \<in> set (gnodes (hgraph h0 g)).
     let l = length (dependents (hnode h0 n)) in
       njoin (hnode (heap s) n) = of_nat ((1 + finished n s) * l) - of_nat (cuts h0 n s) \<and>
       (waiting n s + finished n s = 1 \<longrightarrow> cuts h0 n s = l) \<and>
       (waiting n s = 1 \<and> 0 < l \<longrightarrow> nstate (hnode (heap s) n) \<noteq> kNodeStateIdle))"

text \<open>How a transition changes the counts.\<close>

lemma move_deltas:
  assumes "goes g s i p' w t" "i < length (threads s)" "hist t = hist s @ es" "p = threads s ! i"
  shows "waiting n t + early n p + count_list (items (wq s)) n + count_list (map cnode (pool_items (epool s))) n =
      waiting n s + early n p' + count_list (items (wq t)) n + count_list (map cnode (pool_items (epool t))) n"
    and "finished n t + late n p = finished n s + late n p' + count_list es (HEnd n)"
    and "cuts h n t + cut h n p = cuts h n s + cut h n p' + sum_list (map (hcut h n) es)"
    and "refs t + refs_of p + length (items (wq s)) + length (pool_items (epool s)) =
      refs s + refs_of p' + length (items (wq t)) + length (pool_items (epool t))"
  using goes_total [OF assms(1,2), of "early n"] goes_total [OF assms(1,2), of "late n"]
    goes_total [OF assms(1,2), of "cut h n"] goes_total [OF assms(1,2), of refs_of] assms(3,4)
  by (simp_all add: waiting_def finished_def cuts_def refs_def)

text \<open>Most transitions move a node from one place to another, or lose it to a cancellation, and leave
  the counters alone.\<close>

definition unmoved :: "heap \<Rightarrow> sys \<Rightarrow> sys \<Rightarrow> nid \<Rightarrow> bool" where
  "unmoved h0 s t n \<longleftrightarrow> waiting n t \<le> waiting n s \<and> finished n t = finished n s \<and> cuts h0 n t = cuts h0 n s \<and>
     njoin (hnode (heap t) n) = njoin (hnode (heap s) n) \<and>
     (nstate (hnode (heap t) n) = nstate (hnode (heap s) n) \<or> nstate (hnode (heap t) n) \<noteq> kNodeStateIdle)"

lemma unmoved_keeps:
  assumes "places h0 g s" "counters h0 g s" "\<And>n. n \<in> set (gnodes (hgraph h0 g)) \<Longrightarrow> unmoved h0 s t n"
  shows "places h0 g t" "counters h0 g t"
proof -
  have *: "waiting n t + finished n t \<le> 1 \<and> (waiting n t + finished n t = 1 \<longrightarrow> waiting n s + finished n s = 1) \<and>
      (waiting n t = 1 \<longrightarrow> waiting n s = 1)" if n: "n \<in> set (gnodes (hgraph h0 g))" for n
  proof -
    have "waiting n s + finished n s \<le> 1" using assms(1) n by (simp add: places_def)
    with assms(3) [OF n] show ?thesis by (simp add: unmoved_def)
  qed
  then show "places h0 g t" by (simp add: places_def)
  show "counters h0 g t"
    unfolding counters_def Let_def
  proof (intro ballI)
    fix n
    assume n: "n \<in> set (gnodes (hgraph h0 g))"
    show "njoin (hnode (heap t) n) = of_nat ((1 + finished n t) * length (dependents (hnode h0 n))) - of_nat (cuts h0 n t) \<and>
       (waiting n t + finished n t = 1 \<longrightarrow> cuts h0 n t = length (dependents (hnode h0 n))) \<and>
       (waiting n t = 1 \<and> 0 < length (dependents (hnode h0 n)) \<longrightarrow> nstate (hnode (heap t) n) \<noteq> kNodeStateIdle)"
      using assms(2) [unfolded counters_def Let_def, THEN bspec, OF n] assms(3) [OF n] * [OF n]
      unfolding unmoved_def by metis
  qed
qed

fun special :: "pc \<Rightarrow> bool" where
  "special (Drop c (v # vs)) = True"
| "special (Succs c (v # vs) cs) = True"
| "special (NSetup c cs) = True"
| "special _ = False"

lemma after_schedule_counts [simp]:
  assumes "main_skont g k \<or> work_skont k"
  shows "early n (after_schedule k) = 0" "late n (after_schedule k) = k_late n k"
    "cut h n (after_schedule k) = k_cut h n k" "refs_of (after_schedule k) = k_ref k"
  using assms by (cases k; auto)+

lemma make_closure_node: "make_closure h n sp = Some c \<Longrightarrow> cnode c = n"
  by (auto simp: make_closure_def split: node_ptr.splits)

lemma move_unmoved:
  assumes mv: "move g s (threads s ! i) p' (heap t) (items (wq t)) (pool_items (epool t)) es w"
    and go: "goes g s i p' w t" and i: "i < length (threads s)" and hs: "hist t = hist s @ es"
    and role: "main_pc g (threads s ! i) \<or> work_pc h0 (threads s ! i)" and fr: "frame h0 (heap s)"
    and sp: "\<not> special (threads s ! i)"
  shows "unmoved h0 s t n"
proof -
  note d = move_deltas(1) [OF go i hs refl, of n] move_deltas(2) [OF go i hs refl, of n]
    move_deltas(3) [OF go i hs refl, of h0 n]
  have su: "successors (hnode (heap s) m) = successors (hnode h0 m)" for m using fr by (simp add: frame_def)
  from mv show ?thesis
  proof cases
    case (m_invoke n' k c)
    moreover have "cnode c = n'" using m_invoke by (simp add: make_closure_node)
    ultimately show ?thesis using d by (cases "c" ; cases "n' = n") (auto simp: unmoved_def)
  qed (use d role sp su in \<open>auto split: if_splits simp: unmoved_def set_state_def graph_ref_def graph_deref_def graph_cancel_def\<close>)
qed


lemma move_ends_in:
  assumes mv: "move g s (threads s ! i) p' h q l es w" and hs: "hist t = hist s @ es"
    and e: "ends_in h0 g s" and nn: "set (pc_nodes (threads s ! i)) \<subseteq> set (gnodes (hgraph h0 g))"
  shows "ends_in h0 g t"
  using mv by cases (use e nn hs in \<open>auto simp: ends_in_def\<close>)

lemma of_nat_int32_inj: "a < 2 ^ 32 \<Longrightarrow> b < 2 ^ 32 \<Longrightarrow> (of_nat a :: int32) = of_nat b \<Longrightarrow> a = b"
  by (metis unat_of_nat_int32)

lemma counters_node:
  assumes "counters h0 g s" "n \<in> set (gnodes (hgraph h0 g))" "l = length (dependents (hnode h0 n))"
  shows "njoin (hnode (heap s) n) = of_nat ((1 + finished n s) * l) - of_nat (cuts h0 n s)"
    "waiting n s + finished n s = 1 \<Longrightarrow> cuts h0 n s = l"
    "waiting n s = 1 \<Longrightarrow> 0 < l \<Longrightarrow> nstate (hnode (heap s) n) \<noteq> kNodeStateIdle"
  using assms(1) [unfolded counters_def Let_def, THEN bspec, OF assms(2)] assms(3) by blast+

text \<open>An idle node with dependents and a zero counter is nowhere yet, and all its dependents have
  dropped it.\<close>

lemma candidate_fresh:
  assumes f: "static_flow h0 g" and r: "roles h0 g s" and e: "ends_in h0 g s" and pl: "places h0 g s"
    and c: "counters h0 g s" and v: "v \<in> set (gnodes (hgraph h0 g))"
    and d: "dependents (hnode h0 v) \<noteq> []" and z: "njoin (hnode (heap s) v) = 0"
    and st: "nstate (hnode (heap s) v) = kNodeStateIdle"
  shows "waiting v s = 0 \<and> finished v s = 0 \<and> cuts h0 v s = length (dependents (hnode h0 v))"
proof -
  let ?l = "length (dependents (hnode h0 v))"
  have l: "0 < ?l" "?l < 2 ^ 32" using d static_nodes(6) [OF f frame_refl v] by auto
  note k = counters_node [OF c v refl]
  have one: "waiting v s + finished v s \<le> 1" using pl v by (simp add: places_def)
  have "finished v s \<noteq> 1"
  proof
    assume "finished v s = 1"
    with one k(1,2) z have "(of_nat ?l :: int32) = 0" by simp
    with l of_nat_int32_eq_0 show False by simp
  qed
  moreover have "waiting v s \<noteq> 1" using k(3) l(1) st by blast
  ultimately have zero: "waiting v s = 0" "finished v s = 0" using one by linarith+
  with k(1) z have "(of_nat ?l :: int32) = of_nat (cuts h0 v s)" by simp
  moreover have "cuts h0 v s < 2 ^ 32" using cuts_le [OF f r e pl v] l by simp
  ultimately have "cuts h0 v s = ?l" using of_nat_int32_inj l(2) by metis
  with zero show ?thesis by simp
qed

lemma static_strong_deps:
  assumes "static_flow h0 g" "frame h0 h" "n \<in> set (gnodes (hgraph h0 g))"
  shows "strong_deps h n = dependents (hnode h0 n)"
proof -
  have "dependents (hnode h n) = dependents (hnode h0 n)" using assms(2) by (simp add: frame_def)
  moreover have "Typ (hnode h d) \<noteq> nodeCondition" if "d \<in> set (dependents (hnode h n))" for d
    using that static_nodes(3) [OF assms(1,2)] static_nodes(5) [OF assms] by auto
  ultimately show ?thesis by (auto simp: strong_deps_def filter_id_conv)
qed

definition consistent :: "heap \<Rightarrow> gid \<Rightarrow> sys \<Rightarrow> bool" where
  "consistent h0 g s \<longleftrightarrow> static_flow h0 g \<and> roles h0 g s \<and> ends_in h0 g s \<and> places h0 g s \<and> counters h0 g s"

lemma consistentD:
  assumes "consistent h0 g s"
  shows "static_flow h0 g" "roles h0 g s" "ends_in h0 g s" "places h0 g s" "counters h0 g s"
    "frame h0 (heap s)" "successors (hnode (heap s) k) = successors (hnode h0 k)"
    "i < length (threads s) \<Longrightarrow> main_pc g (threads s ! i) \<or> work_pc h0 (threads s ! i)"
    "i < length (threads s) \<Longrightarrow> set (pc_nodes (threads s ! i)) \<subseteq> set (gnodes (hgraph h0 g))"
  using assms by (auto simp: consistent_def roles_def frame_def) (metis gr0I)

lemma positions_le:
  assumes "consistent h0 g s"
  shows "waiting n s + finished n s \<le> 1"
proof (cases "n \<in> set (gnodes (hgraph h0 g))")
  case True
  with consistentD(4) [OF assms] show ?thesis by (simp add: places_def)
next
  case n: False
  note d = consistentD(2,3) [OF assms]
  have "count_list (pc_nodes p) n = 0" if "p \<in> set (threads s)" for p
    using d(1) n that by (auto simp: roles_def count_list_0_iff)
  then have z: "sum_list (map (\<lambda>p. count_list (pc_nodes p) n) (threads s)) = 0" by simp
  have "count_list (items (wq s)) n = 0" "count_list (map cnode (pool_items (epool s))) n = 0"
    "count_list (hist s) (HEnd n) = 0"
    using d n by (auto simp: roles_def ends_in_def count_list_0_iff)
  then show ?thesis unfolding positions_eq z by simp
qed

text \<open>The three transitions that change counters: dropping an edge, taking a candidate, setting the
  node up again.\<close>

lemma drop_counters:
  assumes cn: "consistent h0 g s" and i: "i < length (threads s)" and go: "goes g s i p' w t"
    and hs: "hist t = hist s @ es"
    and mv: "move g s (threads s ! i) p' (heap t) (items (wq t)) (pool_items (epool t)) es w"
    and rt: "roles h0 g t" and et: "ends_in h0 g t"
    and drop: "threads s ! i = Drop c' (v # vs)"
  shows "places h0 g t \<and> counters h0 g t"
proof -
  let ?N = "set (gnodes (hgraph h0 g))"
  note f = consistentD(1) [OF cn] and r = consistentD(2) [OF cn] and e = consistentD(3) [OF cn]
    and pl = consistentD(4) [OF cn] and c = consistentD(5) [OF cn]
    and fr = consistentD(6) [OF cn] and su = consistentD(7) [OF cn]
    and role = consistentD(8) [OF cn i] and nn = consistentD(9) [OF cn i]
  note dw = move_deltas(1) [OF go i hs refl] and df = move_deltas(2) [OF go i hs refl]
    and dc = move_deltas(3) [OF go i hs refl, of h0]
  have sx: "is_suffix (v # vs) (successors (hnode h0 (cnode c')))" "cnode c' \<in> ?N"
    using role drop nn by auto
  have le: "count_list (v # vs) n \<le> count_list (successors (hnode h0 (cnode c'))) n" for n
    using sx(1) by (auto simp: is_suffix_def)
  have ty: "Typ (hnode (heap s) (cnode c')) \<noteq> nodeCondition"
    using static_nodes(3) [OF f fr sx(2)] by simp
  from mv drop ty have h: "heap t = node_deref v (heap s)" and p': "p' = Drop c' vs"
    and q: "items (wq t) = items (wq s)" "pool_items (epool t) = pool_items (epool s)" "es = []"
    by (auto elim!: move.cases simp: drop_one_def)
  have w: "waiting n t = waiting n s" "finished n t = finished n s"
    "cuts h0 n t = cuts h0 n s + of_bool (v = n)" for n
    using dw [of n] df [of n] dc [of n] le [of n] drop p' q by (auto split: if_splits)
  then have pt: "places h0 g t" using pl by (simp add: places_def)
  have "counters h0 g t"
    unfolding counters_def Let_def
  proof (intro ballI conjI impI)
    fix n
    assume n: "n \<in> ?N"
    note k = counters_node [OF c n refl]
    show "njoin (hnode (heap t) n) = of_nat ((1 + finished n t) * length (dependents (hnode h0 n))) - of_nat (cuts h0 n t)"
      using k(1) w by (auto simp: h node_deref_def)
    show "cuts h0 n t = length (dependents (hnode h0 n))" if "waiting n t + finished n t = 1"
    proof -
      have "cuts h0 n s = length (dependents (hnode h0 n))" using k(2) that w by simp
      moreover have "cuts h0 n t \<le> length (dependents (hnode h0 n))" by (rule cuts_le [OF f rt et pt n])
      ultimately show ?thesis using w(3) [of n] by simp
    qed
    show "nstate (hnode (heap t) n) \<noteq> kNodeStateIdle"
      if "waiting n t = 1 \<and> 0 < length (dependents (hnode h0 n))"
      using k(3) that w by (auto simp: h node_deref_def)
  qed
  with pt show ?thesis by simp
qed

lemma succs_counters:
  assumes cn: "consistent h0 g s" and i: "i < length (threads s)" and go: "goes g s i p' w t"
    and hs: "hist t = hist s @ es"
    and mv: "move g s (threads s ! i) p' (heap t) (items (wq t)) (pool_items (epool t)) es w"
    and rt: "roles h0 g t" and et: "ends_in h0 g t"
    and succ: "threads s ! i = Succs c' (v # vs) cs"
  shows "places h0 g t \<and> counters h0 g t"
proof -
  let ?N = "set (gnodes (hgraph h0 g))"
  note f = consistentD(1) [OF cn] and r = consistentD(2) [OF cn] and e = consistentD(3) [OF cn]
    and pl = consistentD(4) [OF cn] and c = consistentD(5) [OF cn]
    and fr = consistentD(6) [OF cn] and su = consistentD(7) [OF cn]
    and role = consistentD(8) [OF cn i] and nn = consistentD(9) [OF cn i]
  note dw = move_deltas(1) [OF go i hs refl] and df = move_deltas(2) [OF go i hs refl]
    and dc = move_deltas(3) [OF go i hs refl, of h0]
  from succ have sx: "is_suffix (v # vs) (successors (hnode h0 (cnode c')))" and cN: "cnode c' \<in> ?N"
    using role nn by auto
  then have vs: "v \<in> set (successors (hnode h0 (cnode c')))" using is_suffix_mem by fastforce
  then have vN: "v \<in> ?N" using static_nodes(4) [OF f frame_refl cN] by blast
  have "count_list (dependents (hnode h0 v)) (cnode c') \<noteq> 0"
    using edge_count [OF f, of "cnode c'" v] vs by (metis count_list_0_iff)
  then have dv: "dependents (hnode h0 v) \<noteq> []" by auto
  show ?thesis
  proof (cases "node_recyclable (heap s) v \<and> nstate (hnode (heap s) v) = kNodeStateIdle")
    case False
    from mv succ False have "heap t = heap s" and "p' = Succs c' vs cs"
      and "items (wq t) = items (wq s)" "pool_items (epool t) = pool_items (epool s)" "es = []"
      by (auto elim!: move.cases)
    with dw df dc succ have "unmoved h0 s t n" for n by (fastforce simp: unmoved_def)
    with unmoved_keeps [OF pl c] show ?thesis by blast
  next
    case True
    from mv succ True have h: "heap t = set_state kNodeStateWaiting v (heap s)" and p': "p' = Succs c' vs (cs @ [v])"
      and q: "items (wq t) = items (wq s)" "pool_items (epool t) = pool_items (epool s)" "es = []"
      by (auto elim!: move.cases)
    have fresh: "waiting v s = 0 \<and> finished v s = 0 \<and> cuts h0 v s = length (dependents (hnode h0 v))"
      using candidate_fresh [OF f r e pl c vN dv] True by (simp add: node_recyclable_def)
    have w: "waiting n t = waiting n s + of_bool (v = n)" "finished n t = finished n s"
      "cuts h0 n t = cuts h0 n s" for n
      using dw [of n] df [of n] dc [of n] succ p' q by (auto split: if_splits)
    then have pt: "places h0 g t" using pl fresh by (simp add: places_def)
    have "counters h0 g t"
      unfolding counters_def Let_def
    proof (intro ballI conjI impI)
      fix n
      assume n: "n \<in> ?N"
      note k = counters_node [OF c n refl]
      show "njoin (hnode (heap t) n) = of_nat ((1 + finished n t) * length (dependents (hnode h0 n))) - of_nat (cuts h0 n t)"
        using k(1) w by (auto simp: h set_state_def)
      show "cuts h0 n t = length (dependents (hnode h0 n))" if "waiting n t + finished n t = 1"
        using k(2) that w fresh by (cases "v = n") auto
      show "nstate (hnode (heap t) n) \<noteq> kNodeStateIdle"
        if "waiting n t = 1 \<and> 0 < length (dependents (hnode h0 n))"
        using k(3) that w by (cases "v = n") (auto simp: h set_state_def)
    qed
    with pt show ?thesis by simp
  qed
qed

lemma setup_counters:
  assumes cn: "consistent h0 g s" and i: "i < length (threads s)" and go: "goes g s i p' w t"
    and hs: "hist t = hist s @ es"
    and mv: "move g s (threads s ! i) p' (heap t) (items (wq t)) (pool_items (epool t)) es w"
    and rt: "roles h0 g t" and et: "ends_in h0 g t"
    and again: "threads s ! i = NSetup c' cs"
  shows "places h0 g t \<and> counters h0 g t"
proof -
  let ?N = "set (gnodes (hgraph h0 g))"
  note f = consistentD(1) [OF cn] and r = consistentD(2) [OF cn] and e = consistentD(3) [OF cn]
    and pl = consistentD(4) [OF cn] and c = consistentD(5) [OF cn]
    and fr = consistentD(6) [OF cn] and su = consistentD(7) [OF cn]
    and role = consistentD(8) [OF cn i] and nn = consistentD(9) [OF cn i]
  note dw = move_deltas(1) [OF go i hs refl] and df = move_deltas(2) [OF go i hs refl]
    and dc = move_deltas(3) [OF go i hs refl, of h0]
  from again have cN: "cnode c' \<in> ?N" using nn by auto
  from mv again obtain es' where h: "heap t = node_setup (cnode c') (heap s)" and p': "p' = Schedule es' (KSucc c')"
    and q: "items (wq t) = items (wq s)" "pool_items (epool t) = pool_items (epool s)" "es = []"
    and me: "mset es' = mset cs"
    by (auto elim!: move.cases)
  have cm: "count_list es' n = count_list cs n" for n using me by (metis count_mset)
  have w: "waiting n t + of_bool (cnode c' = n) = waiting n s" "finished n t = finished n s + of_bool (cnode c' = n)"
    "cuts h0 n t = cuts h0 n s" for n
    using dw [of n] df [of n] dc [of n] again p' q cm [of n] su by auto
  then have "waiting n t + finished n t = waiting n s + finished n s" for n
    by (metis add.assoc add.commute)
  then have pt: "places h0 g t" and same: "\<And>n. waiting n t + finished n t = waiting n s + finished n s"
    using pl by (simp_all add: places_def)
  have "waiting (cnode c') s + finished (cnode c') s \<le> 1" using pl cN by (simp add: places_def)
  with w(1) [of "cnode c'"] have own: "waiting (cnode c') t = 0" "finished (cnode c') s = 0" by auto
  have "counters h0 g t"
    unfolding counters_def Let_def
  proof (intro ballI conjI impI)
    fix n
    assume n: "n \<in> ?N"
    note k = counters_node [OF c n refl]
    show "njoin (hnode (heap t) n) = of_nat ((1 + finished n t) * length (dependents (hnode h0 n))) - of_nat (cuts h0 n t)"
      using k(1) w own static_strong_deps [OF f fr cN]
      by (auto simp: h node_setup_eq algebra_simps)
    show "cuts h0 n t = length (dependents (hnode h0 n))" if "waiting n t + finished n t = 1"
      using k(2) that same w(3) by simp
    show "nstate (hnode (heap t) n) \<noteq> kNodeStateIdle"
      if "waiting n t = 1 \<and> 0 < length (dependents (hnode h0 n))"
    proof -
      have "n \<noteq> cnode c'" using own that by auto
      then show ?thesis using k(3) that w(1) [of n] by (simp add: h node_setup_eq)
    qed
  qed
  with pt show ?thesis by simp
qed

lemma moves_consistent:
  assumes cn: "consistent h0 g s" and i: "i < length (threads s)" and m: "moves g s i t"
  shows "consistent h0 g t"
proof -
  from m obtain p' es w where go: "goes g s i p' w t" and hs: "hist t = hist s @ es"
    and mv: "move g s (threads s ! i) p' (heap t) (items (wq t)) (pool_items (epool t)) es w"
    by (auto simp: moves_def)
  note d = consistentD [OF cn]
  have et: "ends_in h0 g t" by (rule move_ends_in [OF mv hs d(3) d(9) [OF i]])
  have rt: "roles h0 g t" by (rule moves_roles [OF d(1,2) i m])
  note special = drop_counters [OF cn i go hs mv rt et] succs_counters [OF cn i go hs mv rt et]
    setup_counters [OF cn i go hs mv rt et]
  have "places h0 g t \<and> counters h0 g t"
  proof (cases "special (threads s ! i)")
    case False
    from unmoved_keeps [OF d(4,5)] move_unmoved [OF mv go i hs d(8) [OF i] d(6) False] show ?thesis by blast
  next
    case True
    then show ?thesis by (cases "threads s ! i" rule: special.cases) (auto dest: special)
  qed
  with et rt d(1) show ?thesis by (simp add: consistent_def)
qed


section \<open>The graph's counter and the waiting loop\<close>

text \<open>The counter of the graph counts the references; a loop that has passed its check has something
  to pop, unless the graph is finished or canceled; no goroutine has crashed.\<close>

definition loop_ok :: "gid \<Rightarrow> sys \<Rightarrow> bool" where
  "loop_ok g s \<longleftrightarrow> gjoin (hgraph (heap s) g) = of_nat (refs s) \<and>
     (\<forall>k. threads s ! 0 = LPop g k \<longrightarrow> items (wq s) \<noteq> [] \<or> refs s = 0 \<or> is_canceled s g) \<and>
     (\<forall>p \<in> set (threads s). \<not> is_crashed p)"

lemma refs_small:
  assumes "consistent h0 g s"
  shows "refs s < 2 ^ 32"
proof -
  note d = consistentD [OF assms]
  have "length (gnodes (hgraph h0 g)) < 2 ^ 32" using d(1) by (simp add: static_flow_def)
  with refs_le [OF d(2,4)] show ?thesis by linarith
qed

lemma recyclable_refs:
  "consistent h0 g s \<Longrightarrow> loop_ok g s \<Longrightarrow> graph_recyclable (heap s) g \<longleftrightarrow> refs s = 0"
  using refs_small of_nat_int32_eq_0 [of "refs s"] by (auto simp: graph_recyclable_def loop_ok_def)

lemma move_graph:
  assumes "move g s p p' h q l es w" "\<And>n. n \<in> set (pc_nodes p) \<Longrightarrow> graph_of s n = g"
  shows "canceled (hgraph (heap s) g) \<Longrightarrow> canceled (hgraph h g)"
    and "gjoin (hgraph h g) = (case p of PRef n ns k \<Rightarrow> gjoin (hgraph (heap s) g) + 1
      | Deref c \<Rightarrow> gjoin (hgraph (heap s) g) - 1 | _ \<Rightarrow> gjoin (hgraph (heap s) g))"
  using assms
  by (cases; auto simp: graph_ref_def graph_deref_def graph_cancel_def set_state_def drop_one_def
      node_deref_def node_setup_eq)+

lemma move_refs:
  assumes mv: "move g s (threads s ! i) p' (heap t) (items (wq t)) (pool_items (epool t)) es w"
    and go: "goes g s i p' w t" and i: "i < length (threads s)" and hs: "hist t = hist s @ es"
    and role: "main_pc g (threads s ! i) \<or> work_pc h0 (threads s ! i)"
  shows "refs t + (case threads s ! i of Deref c \<Rightarrow> 1 | _ \<Rightarrow> 0) =
    refs s + (case threads s ! i of PRef n ns k \<Rightarrow> 1 | _ \<Rightarrow> 0) \<or> is_crashed p'"
  using mv by cases (use move_deltas(4) [OF go i hs refl] role in auto)

lemma refs_of_refs: "i < length (threads s) \<Longrightarrow> refs_of (threads s ! i) \<le> refs s"
  using sum_list_nth_le [of i "threads s" refs_of] by (simp add: refs_def total_def)

lemma move_work_queue:
  "move g s p p' h q l es w \<Longrightarrow> work_pc h0 p \<Longrightarrow> items (wq s) \<noteq> [] \<Longrightarrow> q \<noteq> []"
  by (erule move.cases) auto

lemma moves_no_crash:
  assumes cn: "consistent h0 g s" and lo: "loop_ok g s" and i: "i < length (threads s)"
    and mv: "move g s (threads s ! i) p' h q l es w"
  shows "\<not> is_crashed p'"
proof -
  note d = consistentD [OF cn]
  from mv show ?thesis
  proof cases
    case (m_pop_empty k e)
    then have "i = 0" using d(2) i by (cases "i = 0") (auto simp: roles_def)
    with m_pop_empty lo recyclable_refs [OF cn lo] show ?thesis by (auto simp: loop_ok_def)
  next
    case (m_invoke_bad n k e)
    then have "n \<in> set (gnodes (hgraph h0 g))" using d(9) [OF i] by simp
    then have "make_closure (heap s) n (kont_span k) \<noteq> None"
      using static_nodes(2) [OF d(1,6)] by (simp add: make_closure_def)
    with m_invoke_bad show ?thesis by simp
  next
    case (m_sched_done k)
    then show ?thesis by simp
  next
    case (m_sched_skip n ns k)
    then show ?thesis by simp
  qed simp_all
qed

lemma moves_loop_ok:
  assumes cn: "consistent h0 g s" and lo: "loop_ok g s" and i: "i < length (threads s)" and m: "moves g s i t"
  shows "loop_ok g t"
proof -
  from m obtain p' es w where go: "goes g s i p' w t" and hs: "hist t = hist s @ es"
    and mv: "move g s (threads s ! i) p' (heap t) (items (wq t)) (pool_items (epool t)) es w"
    by (auto simp: moves_def)
  note d = consistentD [OF cn]
  have nc: "\<not> is_crashed p'" by (rule moves_no_crash [OF cn lo i mv])
  have G: "graph_of s n = g" if "n \<in> set (pc_nodes (threads s ! i))" for n
    using static_nodes(1) [OF d(1,6)] d(9) [OF i] that by (auto simp: graph_of_def)
  have rf: "refs t + (case threads s ! i of Deref c \<Rightarrow> 1 | _ \<Rightarrow> 0) =
      refs s + (case threads s ! i of PRef n ns k \<Rightarrow> 1 | _ \<Rightarrow> 0)"
    using move_refs [OF mv go i hs d(8) [OF i]] nc by blast
  have gj: "gjoin (hgraph (heap t) g) = of_nat (refs t)"
  proof -
    have "(of_nat (refs t) :: int32) + of_nat (case threads s ! i of Deref c \<Rightarrow> 1 | _ \<Rightarrow> 0) =
        of_nat (refs s) + of_nat (case threads s ! i of PRef n ns k \<Rightarrow> 1 | _ \<Rightarrow> 0)"
      using rf unfolding of_nat_add [symmetric] by (rule arg_cong)
    then show ?thesis
      using move_graph(2) [OF mv G] lo by (auto simp: loop_ok_def algebra_simps split: pc.splits)
  qed
  have lp: "items (wq t) \<noteq> [] \<or> refs t = 0 \<or> is_canceled t g" if "threads t ! 0 = LPop g k" for k
  proof (cases "i = 0")
    case True
    with that goes_at [OF go i] have "p' = LPop g k" by simp
    from mv this show ?thesis
    proof cases
      case m_awake
      with rf recyclable_refs [OF cn lo] show ?thesis by (auto simp: is_canceled_def)
    qed (use d(2) i in \<open>auto simp: roles_def elim: after_schedule.elims\<close>)
  next
    case False
    then have wk: "work_pc h0 (threads s ! i)" using d(2) i by (simp add: roles_def)
    have "threads s ! 0 = LPop g k"
      using goes_other [OF go, of 0] goes_length [OF go] i False that by fastforce
    with lo consider "items (wq s) \<noteq> []" | "refs s = 0" | "is_canceled s g" by (auto simp: loop_ok_def)
    then show ?thesis
    proof cases
      case 1
      with move_work_queue [OF mv wk] show ?thesis by simp
    next
      case 2
      with refs_of_refs [OF i] have "refs_of (threads s ! i) = 0" by simp
      with 2 rf wk have "refs t = 0"
        by (cases "threads s ! i") (auto elim: work_skont.elims)
      then show ?thesis by simp
    next
      case 3
      with move_graph(1) [OF mv G] show ?thesis by (simp add: is_canceled_def)
    qed
  qed
  have "\<not> is_crashed p" if "p \<in> set (threads t)" for p
    using goes_cases [OF go i that] nc lo by (auto simp: loop_ok_def)
  with gj lp show ?thesis by (simp add: loop_ok_def)
qed


section \<open>The history of calls\<close>

text \<open>The node whose function has been left without a panic, or whose span is closed.\<close>

fun done_nodes :: "pc \<Rightarrow> nid list" where
  "done_nodes (Defer c sp ok) = (if ok then [cnode c] else [])"
| "done_nodes p = past_nodes p"

lemma past_done: "set (past_nodes p) \<subseteq> set (done_nodes p)"
  by (cases p) auto

lemma done_nodes_le: "count_list (done_nodes p) d \<le> count_list (pc_nodes p) d"
  by (cases p) auto

fun called_nodes :: "pc \<Rightarrow> nid list" where
  "called_nodes (Handle c sp) = [cnode c]"
| "called_nodes (Defer c sp ok) = [cnode c]"
| "called_nodes p = done_nodes p"

fun running :: "nid \<Rightarrow> pc \<Rightarrow> nat" where
  "running n (Handle c sp) = of_bool (cnode c = n)"
| "running n _ = 0"

definition ordered :: "heap \<Rightarrow> hevent list \<Rightarrow> bool" where
  "ordered h0 hs \<longleftrightarrow> (\<forall>i n. i < length hs \<and> hs ! i = HCall n \<longrightarrow>
     (\<forall>d \<in> set (dependents (hnode h0 n)). HRet d \<in> set (take i hs)))"

definition told :: "heap \<Rightarrow> gid \<Rightarrow> sys \<Rightarrow> bool" where
  "told h0 g s \<longleftrightarrow>
     (\<forall>n. count_list (hist s) (HCall n) = count_list (hist s) (HRet n) + count_list (hist s) (HPanic n) + total (running n) s) \<and>
     (\<forall>n. count_list (hist s) (HCall n) \<le> total (\<lambda>p. count_list (called_nodes p) n) s + count_list (hist s) (HEnd n)) \<and>
     (\<not> is_canceled s g \<longrightarrow> (\<forall>p \<in> set (threads s). \<forall>d \<in> set (done_nodes p). HRet d \<in> set (hist s)) \<and>
        (\<forall>d. HEnd d \<in> set (hist s) \<longrightarrow> HRet d \<in> set (hist s))) \<and>
     ordered h0 (hist s)"

lemma countable_called [simp]: "countable_pc (\<lambda>p. count_list (called_nodes p) n)" "countable_pc (running n)"
  by (simp_all add: countable_pc_def wait_blind_def)

lemma called_nodes_le: "count_list (called_nodes p) n \<le> count_list (pc_nodes p) n"
  using done_nodes_le [of p n] by (cases p) auto

lemma ordered_append:
  assumes "ordered h0 hs" "es = [] \<or> (\<exists>e. es = [e])"
    "\<And>n. es = [HCall n] \<Longrightarrow> \<forall>d \<in> set (dependents (hnode h0 n)). HRet d \<in> set hs"
  shows "ordered h0 (hs @ es)"
  unfolding ordered_def
proof (intro allI impI)
  fix i n
  assume i: "i < length (hs @ es) \<and> (hs @ es) ! i = HCall n"
  show "\<forall>d \<in> set (dependents (hnode h0 n)). HRet d \<in> set (take i (hs @ es))"
  proof (cases "i < length hs")
    case True
    with i assms(1) show ?thesis by (auto simp: ordered_def nth_append)
  next
    case False
    with i assms(2) have "i = length hs" "es = [HCall n]" by (auto simp: nth_append)
    with assms(3) show ?thesis by simp
  qed
qed

lemma after_schedule_nodes [simp]:
  assumes "main_skont g k \<or> work_skont k"
  shows "running n (after_schedule k) = 0" "done_nodes (after_schedule k) = skont_nodes k"
    "called_nodes (after_schedule k) = skont_nodes k"
  using assms by (cases k; auto)+

text \<open>In a graph that is not canceled, the dependents of a node in the pool have returned.\<close>

lemma over_returned:
  assumes "told h0 g s" "\<not> is_canceled s g" "0 < over d s"
  shows "HRet d \<in> set (hist s)"
proof (cases "HEnd d \<in> set (hist s)")
  case True
  with assms(1,2) show ?thesis by (simp add: told_def)
next
  case False
  with assms(3) have "0 < sum_list (map (\<lambda>p. count_list (past_nodes p) d) (threads s))"
    unfolding over_def using count_list_0_iff [of "hist s" "HEnd d"] by linarith
  moreover have "sum_list (map (\<lambda>p. count_list (past_nodes p) d) (threads s)) = 0"
    if "\<forall>p \<in> set (threads s). count_list (past_nodes p) d = 0"
    using that by simp
  ultimately have "\<not> (\<forall>p \<in> set (threads s). count_list (past_nodes p) d = 0)" by (metis less_irrefl)
  then obtain p where "p \<in> set (threads s)" "d \<in> set (past_nodes p)"
    unfolding count_list_0_iff by blast
  with assms(1,2) past_done show ?thesis by (fastforce simp: told_def)
qed

lemma body_deps_returned:
  assumes cn: "consistent h0 g s" and to: "told h0 g s" and nc: "\<not> is_canceled s g"
    and i: "i < length (threads s)" and b: "threads s ! i = Body c"
    and d: "d \<in> set (dependents (hnode h0 (cnode c)))"
  shows "HRet d \<in> set (hist s)"
proof -
  let ?n = "cnode c"
  note k = consistentD [OF cn]
  have n: "?n \<in> set (gnodes (hgraph h0 g))" using k(9) [OF i] b by simp
  have "1 \<le> total (early ?n) s" using sum_list_nth_le [OF i, of "early ?n"] b by (simp add: total_def)
  then have "1 \<le> waiting ?n s" by (simp add: waiting_def)
  moreover have "waiting ?n s + finished ?n s \<le> 1" using k(4) n by (simp add: places_def)
  ultimately have "cuts h0 ?n s = length (dependents (hnode h0 ?n))"
    using counters_node(2) [OF k(5) n refl] by simp
  from over_returned [OF to nc all_cut_over [OF k(1-4) n this d]] show ?thesis .
qed

lemma move_one_event: "move g s p p' h q l es w \<Longrightarrow> es = [] \<or> (\<exists>e. es = [e])"
  by (erule move.cases) auto

lemma move_done_nodes:
  assumes "move g s p p' h q l es w" "main_pc g p \<or> work_pc h0 p"
    "\<And>n. n \<in> set (pc_nodes p) \<Longrightarrow> graph_of s n = g" "\<not> canceled (hgraph h g)"
  shows "set (done_nodes p') \<subseteq> set (done_nodes p) \<union> {d. HRet d \<in> set es} \<and>
    {d. HEnd d \<in> set es} \<subseteq> set (done_nodes p)"
  using assms(1)
proof cases
  case (m_sched_done k)
  with assms(2) show ?thesis by (cases k) auto
next
  case (m_sched_skip n ns k)
  with assms(2) show ?thesis by (cases k) auto
next
  case (m_skip c sp)
  with assms(3,4) show ?thesis by (simp add: is_canceled_def)
next
  case (m_defer_bad c sp)
  with assms(3,4) show ?thesis by (simp add: graph_cancel_def)
qed auto

lemma moves_told:
  assumes cn: "consistent h0 g s" and to: "told h0 g s" and i: "i < length (threads s)" and m: "moves g s i t"
  shows "told h0 g t"
proof -
  from m obtain p' es w where go: "goes g s i p' w t" and hs: "hist t = hist s @ es"
    and mv: "move g s (threads s ! i) p' (heap t) (items (wq t)) (pool_items (epool t)) es w"
    by (auto simp: moves_def)
  note d = consistentD [OF cn] and role = consistentD(8) [OF cn i]
  have G: "graph_of s n = g" if "n \<in> set (pc_nodes (threads s ! i))" for n
    using static_nodes(1) [OF d(1,6)] d(9) [OF i] that by (auto simp: graph_of_def)
  note tr = goes_total [OF go i countable_called(2)] and tc = goes_total [OF go i countable_called(1)]
  have c1: "count_list (hist t) (HCall n) = count_list (hist t) (HRet n) + count_list (hist t) (HPanic n) + total (running n) t"
    for n
  proof -
    have "count_list es (HCall n) + running n (threads s ! i) =
        count_list es (HRet n) + count_list es (HPanic n) + running n p'"
      using mv role by cases auto
    with tr [of n] to show ?thesis by (simp add: told_def hs)
  qed
  have c2: "count_list (hist t) (HCall n) \<le> total (\<lambda>p. count_list (called_nodes p) n) t + count_list (hist t) (HEnd n)" for n
  proof -
    have "count_list es (HCall n) + count_list (called_nodes (threads s ! i)) n \<le>
        count_list (called_nodes p') n + count_list es (HEnd n)"
      using mv role by cases auto
    moreover have "count_list (hist s) (HCall n) \<le> total (\<lambda>p. count_list (called_nodes p) n) s + count_list (hist s) (HEnd n)"
      using to unfolding told_def by blast
    ultimately show ?thesis using tc [of n] by (simp add: hs)
  qed
  have c3: "(\<forall>p \<in> set (threads t). \<forall>d \<in> set (done_nodes p). HRet d \<in> set (hist t)) \<and>
      (\<forall>d. HEnd d \<in> set (hist t) \<longrightarrow> HRet d \<in> set (hist t))" if nt: "\<not> is_canceled t g"
  proof -
    have ns: "\<not> is_canceled s g" using move_graph(1) [OF mv G] nt by (auto simp: is_canceled_def)
    with to have old: "\<forall>p \<in> set (threads s). \<forall>d \<in> set (done_nodes p). HRet d \<in> set (hist s)"
      "\<forall>d. HEnd d \<in> set (hist s) \<longrightarrow> HRet d \<in> set (hist s)" by (simp_all add: told_def)
    have mine: "\<forall>d \<in> set (done_nodes (threads s ! i)). HRet d \<in> set (hist s)" using bspec [OF old(1) nth_mem [OF i]] .
    note dn = move_done_nodes [OF mv role G nt [unfolded is_canceled_def]]
    have new: "\<forall>d \<in> set (done_nodes p'). HRet d \<in> set (hist t)" using dn mine hs by auto
    have "\<forall>d \<in> set (done_nodes p). HRet d \<in> set (hist t)" if "p \<in> set (threads t)" for p
      using goes_cases [OF go i that] new old(1) hs by auto
    moreover have "\<forall>d. HEnd d \<in> set (hist t) \<longrightarrow> HRet d \<in> set (hist t)"
      using dn mine old(2) hs by auto
    ultimately show ?thesis by blast
  qed
  have "ordered h0 (hist t)"
    unfolding hs
  proof (rule ordered_append)
    show "ordered h0 (hist s)" using to by (simp add: told_def)
    show "es = [] \<or> (\<exists>e. es = [e])" by (rule move_one_event [OF mv])
    fix n
    assume "es = [HCall n]"
    with mv obtain c where b: "threads s ! i = Body c" "cnode c = n" "\<not> is_canceled s (graph_of s n)"
      by (auto elim: move.cases)
    then have "\<not> is_canceled s g" using G by simp
    with body_deps_returned [OF cn to _ i b(1)] b(2)
    show "\<forall>d \<in> set (dependents (hnode h0 n)). HRet d \<in> set (hist s)" by blast
  qed
  with c1 c2 c3 show ?thesis by (simp add: told_def)
qed

end
