(* ===== verification/Static_Results.thy ===== *)
theory Static_Results
  imports Static_Safety
begin

text \<open>
  What the invariants of \<open>Static_Safety\<close> say of every reachable state of a run of static tasks: the
  setup of the graph establishes them, every step keeps them, and they give the order and the number
  of the calls and rule out a crash.
\<close>

section \<open>The setup establishes the invariants\<close>

definition starting :: "heap \<Rightarrow> gid \<Rightarrow> sys \<Rightarrow> bool" where
  "starting h0 g s \<longleftrightarrow>
     ((\<exists>tf. threads s = [Client [Run tf, Wait]] \<and> graph (hflow (heap s) tf) = g) \<or>
      threads s = [GSetup g (GMain [Wait])]) \<and>
     hnode (heap s) = hnode h0 \<and> hgraph (heap s) = hgraph h0 \<and>
     items (wq s) = [] \<and> pool_items (epool s) = [] \<and> hist s = []"

definition static_inv :: "heap \<Rightarrow> gid \<Rightarrow> sys \<Rightarrow> bool" where
  "static_inv h0 g s \<longleftrightarrow> consistent h0 g s \<and> loop_ok g s \<and> told h0 g s"

lemma starts_starting: "starts_flow h0 g s \<Longrightarrow> starting h0 g s"
  by (auto simp: starts_flow_def NewExecutor_def starting_def NewQueue_inv NewCopool_def comp_def
      split: if_splits)

lemma count_sorted_entries:
  assumes "mset es = mset (filter P ns)" "distinct ns"
  shows "count_list es n \<le> 1" "set es = {x \<in> set ns. P x}"
proof -
  have "mset es = mset (filter P ns)" by (rule assms(1))
  then have "distinct es" using assms(2) by (metis distinct_filter mset_eq_imp_distinct_iff)
  then show "count_list es n \<le> 1" by (simp add: distinct_count_atmost_1 count_mset [symmetric])
  show "set es = {x \<in> set ns. P x}" using mset_eq_setD [OF assms(1)] by auto
qed

text \<open>The state after \<open>scheduleGraph\<close> has set the graph up and sorted its entries.\<close>

definition set_up :: "heap \<Rightarrow> gid \<Rightarrow> sys \<Rightarrow> bool" where
  "set_up h0 g t \<longleftrightarrow> (\<exists>h es. hnode h = hnode h0 \<and> hgraph h = hgraph h0 \<and>
     mset es = mset (filter (\<lambda>n. dependents (hnode h0 n) = []) (gnodes (hgraph h0 g))) \<and>
     heap t = upd_graph g (\<lambda>x. x\<lparr>entries := es\<rparr>) (graph_setup g h) \<and>
     threads t = [Schedule es (KLoop g (GMain [Wait]))] \<and>
     items (wq t) = [] \<and> pool_items (epool t) = [] \<and> hist t = [])"

lemma set_up_facts:
  assumes f: "static_flow h0 g" and u: "set_up h0 g t"
  obtains es where "threads t = [Schedule es (KLoop g (GMain [Wait]))]"
    "items (wq t) = []" "pool_items (epool t) = []" "hist t = []"
    "\<And>n. count_list es n \<le> 1" "set es = {n \<in> set (gnodes (hgraph h0 g)). dependents (hnode h0 n) = []}"
    "\<And>m. hnode (heap t) m = (if m \<in> set (gnodes (hgraph h0 g)) then (hnode h0 m)\<lparr>nstate := kNodeStateIdle,
      njoin := of_nat (length (dependents (hnode h0 m)))\<rparr> else hnode h0 m)"
    "\<And>k. gnodes (hgraph (heap t) k) = gnodes (hgraph h0 k)" "gjoin (hgraph (heap t) g) = 0"
    "canceled (hgraph (heap t) g) = canceled (hgraph h0 g)"
    "\<And>n. waiting n t = count_list es n" "\<And>n. finished n t = 0" "\<And>n. cuts h0 n t = 0" "refs t = 0"
proof -
  let ?N = "set (gnodes (hgraph h0 g))"
  from u obtain h es where hn: "hnode h = hnode h0" "hgraph h = hgraph h0"
    and es: "mset es = mset (filter (\<lambda>n. dependents (hnode h0 n) = []) (gnodes (hgraph h0 g)))"
    and t: "heap t = upd_graph g (\<lambda>x. x\<lparr>entries := es\<rparr>) (graph_setup g h)"
      "threads t = [Schedule es (KLoop g (GMain [Wait]))]"
      "items (wq t) = []" "pool_items (epool t) = []" "hist t = []"
    by (auto simp: set_up_def)
  have di: "distinct (gnodes (hgraph h0 g))" using f wf_heapD(11) by (auto simp: static_flow_def)
  note ce = count_sorted_entries [OF es di]
  have node: "hnode (heap t) m = (if m \<in> ?N then (hnode h0 m)\<lparr>nstate := kNodeStateIdle,
      njoin := of_nat (length (dependents (hnode h0 m)))\<rparr> else hnode h0 m)" for m
  proof -
    have "strong_deps h m = dependents (hnode h0 m)" if "m \<in> ?N"
      using static_strong_deps [OF f frame_refl that] hn by (simp add: strong_deps_def)
    then show ?thesis using graph_setup_hnode [of h g m] di hn t(1) by simp
  qed
  have gr: "gnodes (hgraph (heap t) k) = gnodes (hgraph h0 k)" "gjoin (hgraph (heap t) g) = 0"
    "canceled (hgraph (heap t) g) = canceled (hgraph h0 g)" for k
    using graph_setup_hgraph [of h g] di hn t(1) by auto
  have q: "waiting n t = count_list es n" "finished n t = 0" "cuts h0 n t = 0" "refs t = 0" for n
    using t(2-5) by (simp_all add: waiting_def finished_def cuts_def refs_def total_def)
  show thesis by (rule that [OF t(2-5) ce node gr q])
qed

lemma after_setup:
  assumes f: "static_flow h0 g" and u: "set_up h0 g t"
  shows "static_inv h0 g t"
proof -
  let ?N = "set (gnodes (hgraph h0 g))"
  obtain es where t: "threads t = [Schedule es (KLoop g (GMain [Wait]))]"
    "items (wq t) = []" "pool_items (epool t) = []" "hist t = []"
    and ce: "\<And>n. count_list es n \<le> 1" "set es = {n \<in> ?N. dependents (hnode h0 n) = []}"
    and node: "\<And>m. hnode (heap t) m = (if m \<in> ?N then (hnode h0 m)\<lparr>nstate := kNodeStateIdle,
      njoin := of_nat (length (dependents (hnode h0 m)))\<rparr> else hnode h0 m)"
    and gr: "\<And>k. gnodes (hgraph (heap t) k) = gnodes (hgraph h0 k)" "gjoin (hgraph (heap t) g) = 0"
      "canceled (hgraph (heap t) g) = canceled (hgraph h0 g)"
    and q: "\<And>n. waiting n t = count_list es n" "\<And>n. finished n t = 0" "\<And>n. cuts h0 n t = 0" "refs t = 0"
    by (rule set_up_facts [OF f u]) (rule that)
  have fr: "frame h0 (heap t)" using gr by (simp add: frame_def node)
  have "roles h0 g t" using fr t ce(2) by (auto simp: roles_def)
  moreover have "ends_in h0 g t" using t(4) by (simp add: ends_in_def)
  moreover have "places h0 g t" using ce(1) by (simp add: places_def q)
  moreover have "counters h0 g t"
    unfolding counters_def Let_def
  proof (intro ballI)
    fix n
    assume n: "n \<in> ?N"
    have "count_list es n = 1 \<Longrightarrow> dependents (hnode h0 n) = []"
      using ce(2) count_notin [of n es] by force
    then show "njoin (hnode (heap t) n) = of_nat ((1 + finished n t) * length (dependents (hnode h0 n))) - of_nat (cuts h0 n t) \<and>
       (waiting n t + finished n t = 1 \<longrightarrow> cuts h0 n t = length (dependents (hnode h0 n))) \<and>
       (waiting n t = 1 \<and> 0 < length (dependents (hnode h0 n)) \<longrightarrow> nstate (hnode (heap t) n) \<noteq> kNodeStateIdle)"
      using n by (auto simp: q node)
  qed
  ultimately have "consistent h0 g t" using f by (simp add: consistent_def)
  moreover have "loop_ok g t" using gr t q by (simp add: loop_ok_def)
  moreover have "told h0 g t" using t by (simp add: told_def total_def ordered_def)
  ultimately show ?thesis by (simp add: static_inv_def)
qed

lemma starting_step:
  assumes f: "static_flow h0 g" and s: "starting h0 g s" and st: "step s (i, ch, now) = Some t"
  shows "starting h0 g t \<or> set_up h0 g t"
proof -
  have len: "length (threads s) = 1" using s by (auto simp: starting_def)
  have i: "i < length (threads s)" and p: "pc_step s i (threads s ! i) ch now = Some t"
    using st by (auto split: if_splits)
  with len have i0: "i = 0" by simp
  from s consider (client) tf where "threads s = [Client [Run tf, Wait]]" "graph (hflow (heap s) tf) = g"
    | (gsetup) "threads s = [GSetup g (GMain [Wait])]"
    by (auto simp: starting_def)
  then show ?thesis
  proof cases
    case client
    with p i0 s show ?thesis by (auto simp: starting_def)
  next
    case gsetup
    let ?h = "graph_setup g (heap s)"
    have h: "hnode (heap s) = hnode h0" "hgraph (heap s) = hgraph h0" using s by (simp_all add: starting_def)
    have di: "distinct (gnodes (hgraph h0 g))" using f wf_heapD(11) by (auto simp: static_flow_def)
    have en: "entries (hgraph ?h g) = filter (\<lambda>n. dependents (hnode h0 n) = []) (gnodes (hgraph h0 g))"
      using graph_setup_hgraph [of "heap s" g] di h by simp
    from p gsetup i0 obtain es where es: "mset es = mset (entries (hgraph ?h g))"
      "t = goto i (Schedule es (KLoop g (GMain [Wait]))) (s\<lparr>heap := upd_graph g (\<lambda>x. x\<lparr>entries := es\<rparr>) ?h\<rparr>)"
      by (auto simp: gsetup_step_def Let_def is_sort_def split: choice.splits if_splits)
    have "set_up h0 g t"
      unfolding set_up_def
      by (rule exI [of _ "heap s"], rule exI [of _ es]) (use h es [unfolded en] gsetup i0 s in \<open>auto simp: starting_def\<close>)
    then show ?thesis ..
  qed
qed

lemma static_inv_step:
  assumes "static_inv h0 g s" "accounts s" "step s (i, ch, now) = Some t"
  shows "static_inv h0 g t"
proof -
  have c: "consistent h0 g s" "loop_ok g s" "told h0 g s" using assms(1) by (simp_all add: static_inv_def)
  have i: "i < length (threads s)" using assms(3) by (simp split: if_splits)
  have m: "moves g s i t" by (rule step_move [OF consistentD(1,2) [OF c(1)] assms(2,3)])
  show ?thesis
    using moves_consistent [OF c(1) i m] moves_loop_ok [OF c(1,2) i m] moves_told [OF c(1,3) i m]
    by (simp add: static_inv_def)
qed

lemma starting_no_crash: "starting h0 g s \<Longrightarrow> \<not> crashed s"
  by (auto simp: starting_def crashed_def)

lemma static_inv_no_crash: "static_inv h0 g s \<Longrightarrow> \<not> crashed s"
  by (auto simp: static_inv_def loop_ok_def crashed_def list_ex_iff)

lemma reach_static:
  "reach s0 s \<Longrightarrow> starts_flow h0 g s0 \<Longrightarrow> starting h0 g s \<or> static_inv h0 g s"
proof (induction rule: reach.induct)
  case start
  then show ?case using starts_starting by blast
next
  case (step s e t)
  obtain i ch now where e: "e = (i, ch, now)" by (cases e)
  have f: "static_flow h0 g" using step.prems by (simp add: starts_flow_def)
  from step.IH step.prems have s: "starting h0 g s \<or> static_inv h0 g s" by blast
  then have "\<not> crashed s" using starting_no_crash static_inv_no_crash by blast
  then have a: "accounts s" using reach_accounts [OF step.hyps(1) starts_fresh [OF step.prems]] by blast
  from s show ?case
    using starting_step [OF f _ step.hyps(2) [unfolded e]] after_setup [OF f] static_inv_step [OF _ a step.hyps(2) [unfolded e]] by blast
qed

section \<open>What the runs of static tasks do\<close>

lemma two_tasks_static: "static_flow two_tasks 1"
proof -
  have "ptr (hnode two_tasks 1) = PStatic" "ptr (hnode two_tasks 2) = PStatic"
    by (simp_all add: two_tasks_def NewTaskFlow_def newGraph_def NewStatic_def newNode_def graph_push_def
        empty_heap_def nil_node_def nil_graph_def Task_Precede_def precede_def Let_def)
  then show ?thesis
    using built_wf_heap [OF two_tasks_built] by (simp add: static_flow_def two_tasks_simps [unfolded One_nat_def])
qed

lemma two_tasks_starts: "starts_flow two_tasks 1 (demo 1 two_tasks [Run 1, Wait])"
proof -
  have "graph (hflow two_tasks 1) = 1" by code_simp
  then show ?thesis
    unfolding starts_flow_def demo_def
    by (intro conjI two_tasks_static, intro exI [of _ 1] exI [of _ "[]"] exI [of _ 0])
      (simp add: NewExecutor_def)
qed

text \<open>(C5) In a run of static tasks nothing panics outside a task: the loop never pops an empty queue,
  no node lacks its payload, no counter goes negative, whatever the tasks do and however the
  goroutines interleave.\<close>

theorem static_never_crashes:
  assumes "starts_flow h g s0" "reach s0 s"
  shows "\<not> crashed s"
  using reach_static [OF assms(2,1)] starting_no_crash static_inv_no_crash by blast

lemma static_never_crashes_witness:
  "\<exists>s. reach (demo 1 two_tasks [Run 1, Wait]) s \<and> hist s \<noteq> [] \<and> \<not> crashed s"
proof -
  obtain s where s: "run (demo 1 two_tasks [Run 1, Wait]) two_tasks_trace = Some s" "hist s \<noteq> []"
    using two_tasks_run by auto
  have r: "reach (demo 1 two_tasks [Run 1, Wait]) s" using run_reach [OF s(1) reach.start] .
  from static_never_crashes [OF two_tasks_starts r] r s(2) show ?thesis by blast
qed

lemma called_once:
  assumes "starts_flow h g s0" "reach s0 s"
  shows "count_list (hist s) (HCall n) \<le> 1"
  using reach_static [OF assms(2,1)]
proof
  assume "starting h g s"
  then show ?thesis by (simp add: starting_def)
next
  assume i: "static_inv h g s"
  then have c: "consistent h g s" and t: "told h g s" by (simp_all add: static_inv_def)
  have "count_list (hist s) (HCall n) \<le> total (\<lambda>p. count_list (called_nodes p) n) s + count_list (hist s) (HEnd n)"
    using t unfolding told_def by blast
  also have "\<dots> \<le> waiting n s + finished n s"
    unfolding positions_eq total_def using sum_list_mono [of "threads s", OF called_nodes_le]
    by (simp add: trans_le_add1)
  also have "\<dots> \<le> 1" by (rule positions_le [OF c])
  finally show ?thesis .
qed

text \<open>(C4) Every task is called at most once in a run, and every call has returned, panicked or is
  still running. This holds with panics and cancellation as well.\<close>

theorem static_at_most_once:
  assumes "starts_flow h g s0" "reach s0 s"
  shows "count_list (hist s) (HCall n) \<le> 1 \<and>
    count_list (hist s) (HCall n) = count_list (hist s) (HRet n) + count_list (hist s) (HPanic n) +
      length (filter (\<lambda>p. \<exists>c sp. p = Handle c sp \<and> cnode c = n) (threads s))"
proof -
  have run: "length (filter (\<lambda>p. \<exists>c sp. p = Handle c sp \<and> cnode c = n) ps) = sum_list (map (running n) ps)" for ps
  proof (induction ps)
    case (Cons p ps)
    then show ?case by (cases p) auto
  qed simp
  have "count_list (hist s) (HCall n) =
      count_list (hist s) (HRet n) + count_list (hist s) (HPanic n) + total (running n) s"
    using reach_static [OF assms(2,1)]
  proof
    assume "starting h g s"
    then show ?thesis by (auto simp: starting_def total_def)
  next
    assume "static_inv h g s"
    then show ?thesis by (simp add: static_inv_def told_def)
  qed
  then show ?thesis using called_once [OF assms, of n] run [of "threads s"] by (simp add: total_def)
qed

lemma static_at_most_once_witness:
  "\<exists>s. reach (demo 1 two_tasks [Run 1, Wait]) s \<and> HCall 2 \<in> set (hist s) \<and> count_list (hist s) (HCall 2) \<le> 1"
proof -
  obtain s where s: "run (demo 1 two_tasks [Run 1, Wait]) two_tasks_trace = Some s" "HCall 2 \<in> set (hist s)"
    using two_tasks_run by auto
  have r: "reach (demo 1 two_tasks [Run 1, Wait]) s" using run_reach [OF s(1) reach.start] .
  from static_at_most_once [OF two_tasks_starts r, of 2] r s(2) show ?thesis by blast
qed

text \<open>(C3) A task is called only after all its dependents have returned: when the call of \<open>n\<close> is the
  \<open>i\<close>-th event of the history, the return of every dependent is among the events before it.\<close>

theorem static_dependency_order:
  assumes "starts_flow h g s0" "reach s0 s"
    and "i < length (hist s)" "hist s ! i = HCall n" "d \<in> set (dependents (hnode h n))"
  shows "HRet d \<in> set (take i (hist s))"
  using reach_static [OF assms(2,1)]
proof
  assume "starting h g s"
  with assms(3) show ?thesis by (simp add: starting_def)
next
  assume "static_inv h g s"
  then have "ordered h (hist s)" by (simp add: static_inv_def told_def)
  with assms(3-5) show ?thesis by (simp add: ordered_def)
qed

lemma static_dependency_order_witness:
  "\<exists>s. reach (demo 1 two_tasks [Run 1, Wait]) s \<and> hist s ! 3 = HCall 2 \<and> HRet 1 \<in> set (take 3 (hist s))"
proof -
  obtain s where s: "run (demo 1 two_tasks [Run 1, Wait]) two_tasks_trace = Some s"
    "hist s = [HCall 1, HRet 1, HEnd 1, HCall 2, HRet 2, HEnd 2]"
    using two_tasks_run by auto
  have r: "reach (demo 1 two_tasks [Run 1, Wait]) s" using run_reach [OF s(1) reach.start] .
  have "1 \<in> set (dependents (hnode two_tasks 2))" by (simp add: two_tasks_simps [unfolded One_nat_def])
  with static_dependency_order [OF two_tasks_starts r, of 3 2 1] r s(2) show ?thesis by auto
qed

end
