(* ===== verification/Progress.thy ===== *)
theory Progress
  imports Accounting
begin

text \<open>
  When can the executor stop? No goroutine is ever blocked by a lock alone: the mutex of the
  executor and the mutexes of the graphs' condition variables are taken in one order, and whoever
  holds one can go on. So in a state in which nothing can move every goroutine has ended, sleeps on
  a condition variable, or waits for the wait group. This holds for all flows and clients.
\<close>

lemma step_Some:
  "i < length (threads s) \<Longrightarrow> \<not> crashed s \<Longrightarrow> pc_step s i (threads s ! i) ch now = Some t \<Longrightarrow> \<not> stuck s"
  by (auto simp: stuck_def crashed_def intro!: exI [of _ i] exI [of _ ch] exI [of _ now])

lemma sort_exists: "\<exists>ys. is_sort h xs ys"
  by (intro exI [of _ "sort_key (\<lambda>n. priority (hnode h n)) xs"]) (simp add: is_sort_def)

lemma gsetup_enabled: "\<exists>ch t. gsetup_step s i g k ch = Some t"
proof -
  obtain es where "is_sort (graph_setup g (heap s)) (entries (hgraph (graph_setup g (heap s)) g)) es"
    using sort_exists by blast
  then show ?thesis by (intro exI [of _ "Sorted es"]) (simp add: gsetup_step_def Let_def)
qed

lemma nsetup_enabled: "\<exists>ch t. nsetup_step s i c cs ch = Some t"
proof -
  obtain es where "is_sort (heap s) cs es" using sort_exists by blast
  then show ?thesis by (intro exI [of _ "Sorted es"]) (simp add: nsetup_step_def)
qed

lemma handle_enabled: "\<exists>ch t. handle_step s i c sp ch = Some t"
proof (cases c)
  case (StaticC n p)
  then show ?thesis by (intro exI [of _ Return]) simp
next
  case (SubflowC n p g)
  show ?thesis
  proof (cases "instantiated (hgraph (heap s) g)")
    case True
    with SubflowC show ?thesis by (intro exI [of _ Tau]) simp
  next
    case False
    with SubflowC show ?thesis by (intro exI [of _ "Instantiate [] True"]) (simp add: Let_def)
  qed
next
  case (ConditionC n p)
  then show ?thesis by (intro exI [of _ Panic]) simp
qed

lemma unconditional_enabled:
  "\<exists>t. lpop_step s i g k = Some t" "\<exists>t. linvoke_step s i n g k = Some t" "\<exists>t. lleave_step s i g k = Some t"
  "\<exists>t. wpoll_step s i = Some t" "\<exists>t. body_step s i c now = Some t" "\<exists>t. defer_step s i c sp ok now = Some t"
  "\<exists>t. drop_step s i c vs = Some t" "\<exists>t. succs_step s i c vs cs = Some t" "\<exists>t. csetup_step s i c = Some t"
  "\<exists>t. done_step s i c = Some t"
proof -
  show "\<exists>t. lpop_step s i g k = Some t" by (auto simp: lpop_step_def split: sum.splits)
  show "\<exists>t. linvoke_step s i n g k = Some t" by (auto simp: linvoke_step_def split: option.splits prod.splits)
  show "\<exists>t. lleave_step s i g k = Some t" by (cases k) auto
  show "\<exists>t. wpoll_step s i = Some t" by (auto simp: wpoll_step_def split: sum.splits option.splits prod.splits)
  show "\<exists>t. body_step s i c now = Some t" by (auto simp: body_step_def Let_def split: prod.splits)
  show "\<exists>t. defer_step s i c sp ok now = Some t" by (cases c) (auto simp: Let_def)
  show "\<exists>t. drop_step s i c vs = Some t" by (cases vs) auto
  show "\<exists>t. succs_step s i c vs cs = Some t" by (cases vs) auto
  show "\<exists>t. csetup_step s i c = Some t" by (simp add: csetup_step_def)
  show "\<exists>t. done_step s i c = Some t" by (auto simp: done_step_def task_end_def Let_def)
qed

text \<open>The locks: whoever holds \<open>e.mu\<close> can go on; then whoever holds a graph's mutex can.\<close>

lemma stuck_locks_free:
  assumes "stuck s" "\<not> crashed s"
  shows "mu_free s" "cond_free s g"
proof -
  have en: "\<not> (\<exists>ch now t. pc_step s i (threads s ! i) ch now = Some t)" if "i < length (threads s)" for i
    using step_Some [OF that assms(2)] assms(1) by blast
  have no_pop: "threads s ! i \<noteq> LPop g' k" if "i < length (threads s)" for i g' k
  proof
    assume "threads s ! i = LPop g' k"
    with en [OF that] unconditional_enabled(1) [of s i g' k] show False by auto
  qed
  then show mu: "mu_free s"
    by (force simp: mu_free_def list_ex_length elim: holds_mu.elims)
  have "threads s ! i \<noteq> PPut n ns k" if "i < length (threads s)" for i n ns k
  proof
    assume "threads s ! i = PPut n ns k"
    with en [OF that] mu show False by (auto simp: pput_step_def)
  qed
  then show "cond_free s g"
    by (force simp: cond_free_def list_ex_length elim: holds_cond.elims)
qed

fun resting :: "sys \<Rightarrow> pc \<Rightarrow> bool" where
  "resting s (Client cs) = (cs = [] \<or> (\<exists>cs'. cs = Wait # cs' \<and> wg s \<noteq> 0))"
| "resting s (LWait g k) = True"
| "resting s WGone = True"
| "resting s p = False"

lemma resting_or_step:
  assumes "\<not> crashed s" "p \<in> set (threads s)" "mu_free s" "\<And>g. cond_free s g"
  shows "resting s p \<or> (\<exists>ch now t. pc_step s i p ch now = Some t)"
proof (cases p)
  case (Client cs)
  then show ?thesis by (cases "(s, i, cs)" rule: client_step.cases) auto
next
  case (GSetup g k)
  then show ?thesis using gsetup_enabled [of s i g k] by auto
next
  case (Schedule ns k)
  then show ?thesis using assms(4) by (cases ns) auto
next
  case (PRef n ns k)
  then show ?thesis using assms(4) by (simp add: pref_step_def)
next
  case (PPut n ns k)
  then show ?thesis using assms(3) by (simp add: pput_step_def)
next
  case (LCheck g k)
  then show ?thesis using assms(3,4) by (simp add: lcheck_step_def)
next
  case (Handle c sp)
  then show ?thesis using handle_enabled [of s i c sp] by simp
next
  case (NSetup c cs)
  then show ?thesis using nsetup_enabled [of s i c cs] by simp
next
  case (Deref c)
  then show ?thesis using assms(4) by (simp add: deref_step_def Let_def)
next
  case (Crashed e)
  with assms(1,2) show ?thesis by (force simp: crashed_def list_ex_iff)
qed (use unconditional_enabled in simp_all)

lemma stuck_pc:
  assumes "stuck s" "\<not> crashed s" "p \<in> set (threads s)"
  shows "p = Client [] \<or> (\<exists>cs. p = Client (Wait # cs) \<and> wg s \<noteq> 0) \<or> (\<exists>g k. p = LWait g k) \<or> p = WGone"
proof -
  obtain i where i: "i < length (threads s)" "p = threads s ! i" using assms(3) by (auto simp: in_set_conv_nth)
  have "resting s p"
    using resting_or_step [OF assms(2,3) stuck_locks_free [OF assms(1,2)], of i] step_Some [OF i(1) assms(2)]
      assms(1) i(2) by blast
  then show ?thesis by (cases p) auto
qed



end
