(* ===== verification/Static_Liveness.thy ===== *)
theory Static_Liveness
  imports Static_Results Progress
begin

text \<open>
  Liveness of a run of static tasks: the loop of \<open>invokeGraph\<close> sleeps only while the graph has
  references and the queue is empty, a node whose dependents have all dropped it is in some place or
  about to be examined, and no node is forgotten. With the absence of deadlocks on locks (\<open>Progress\<close>)
  this gives: when nothing can move and no task has panicked, every task has returned and \<open>Wait\<close> has
  returned. The bound on the length of runs is in \<open>Static_Termination\<close>.
\<close>

lemma movesE:
  assumes "consistent h0 g s" "i < length (threads s)" "moves g s i t"
  obtains p' es w where "goes g s i p' w t" "hist t = hist s @ es"
    "move g s (threads s ! i) p' (heap t) (items (wq t)) (pool_items (epool t)) es w"
    "main_pc g (threads s ! i) \<or> work_pc h0 (threads s ! i)"
    "\<And>n. n \<in> set (pc_nodes (threads s ! i)) \<Longrightarrow> n \<in> set (gnodes (hgraph h0 g)) \<and> graph_of s n = g"
proof -
  note d = consistentD [OF assms(1)]
  have G: "n \<in> set (gnodes (hgraph h0 g)) \<and> graph_of s n = g" if "n \<in> set (pc_nodes (threads s ! i))" for n
    using static_nodes(1) [OF d(1,6)] d(9) [OF assms(2)] that by (auto simp: graph_of_def)
  from assms(3) obtain p' es w where "goes g s i p' w t" "hist t = hist s @ es"
    "move g s (threads s ! i) p' (heap t) (items (wq t)) (pool_items (epool t)) es w"
    by (auto simp: moves_def)
  from that [OF this d(8) [OF assms(2)] G] show thesis .
qed

section \<open>The waiting loop sleeps and leaves for a reason\<close>

definition loop_live :: "gid \<Rightarrow> sys \<Rightarrow> bool" where
  "loop_live g s \<longleftrightarrow>
     (\<forall>k. threads s ! 0 = LWait g k \<longrightarrow> items (wq s) = [] \<and> refs s \<noteq> 0) \<and>
     ((\<exists>k. threads s ! 0 = LLeave g k) \<or> (\<exists>cs. threads s ! 0 = Client cs) \<longrightarrow> is_canceled s g \<or> refs s = 0)"

lemma goes_zero:
  assumes "goes g s i p' w t" "i < length (threads s)" "i \<noteq> 0"
  shows "threads t ! 0 = threads s ! 0 \<and> (w \<longrightarrow> (\<forall>k. threads s ! 0 \<noteq> LWait g k)) \<or>
    w \<and> (\<exists>k. threads s ! 0 = LWait g k \<and> threads t ! 0 = LCheck g k)"
proof -
  from assms(2) obtain q qs where q: "threads s = q # qs" by (cases "threads s") auto
  have "signal g (q # qs) ! 0 = (case q of LWait g' k \<Rightarrow> if g' = g then LCheck g k else q | _ \<Rightarrow> q)"
    by (cases q) auto
  moreover have "threads t ! 0 = (if w then signal g (threads s) else threads s) ! 0"
    using assms by (cases w) (auto simp: goes_def nth_append)
  ultimately show ?thesis using q by (cases w; cases q) auto
qed

text \<open>What a worker's transition can do to the queue and the references, when it sends no signal.\<close>

lemma move_work_quiet:
  assumes "move g s p p' h q l es w" "work_pc h0 p" "\<not> w"
  shows "q = items (wq s) \<and> (\<forall>c. p \<noteq> Deref c)"
  using assms by cases auto

lemma moves_loop_live:
  assumes cn: "consistent h0 g s" and lo: "loop_ok g s" and i: "i < length (threads s)" and m: "moves g s i t"
    and lv: "loop_live g s"
  shows "loop_live g t"
proof -
  obtain p' es w where go: "goes g s i p' w t" and hs: "hist t = hist s @ es"
    and mv: "move g s (threads s ! i) p' (heap t) (items (wq t)) (pool_items (epool t)) es w"
    and role: "main_pc g (threads s ! i) \<or> work_pc h0 (threads s ! i)"
    and N: "\<And>n. n \<in> set (pc_nodes (threads s ! i)) \<Longrightarrow> n \<in> set (gnodes (hgraph h0 g)) \<and> graph_of s n = g"
    by (rule movesE [OF cn i m]) (rule that)
  have nc: "\<not> is_crashed p'" by (rule moves_no_crash [OF cn lo i mv])
  have rf: "refs t + (case threads s ! i of Deref c \<Rightarrow> 1 | _ \<Rightarrow> 0) =
      refs s + (case threads s ! i of PRef n ns k \<Rightarrow> 1 | _ \<Rightarrow> 0)"
    using move_refs [OF mv go i hs role] nc by blast
  have ca: "is_canceled s g \<Longrightarrow> is_canceled t g"
    using move_graph(1) [OF mv] N by (auto simp: is_canceled_def)
  show ?thesis
  proof (cases "i = 0")
    case True
    then have p0: "threads t ! 0 = p'" using goes_at [OF go i] by simp
    have mp: "main_pc g (threads s ! i)" using consistentD(2) [OF cn] True by (simp add: roles_def)
    from mv show ?thesis
    proof cases
      case (m_sleep k)
      with rf recyclable_refs [OF cn lo] p0 show ?thesis by (simp add: loop_live_def)
    next
      case (m_leave k)
      with rf recyclable_refs [OF cn lo] p0 show ?thesis by (auto simp: loop_live_def is_canceled_def)
    next
      case (m_exit cs)
      with rf lv p0 True show ?thesis by (auto simp: loop_live_def is_canceled_def)
    next
      case (m_wait cs)
      with rf lv p0 True show ?thesis by (auto simp: loop_live_def is_canceled_def)
    next
      case (m_sched_done k)
      with mp p0 show ?thesis by (cases k) (auto simp: loop_live_def)
    next
      case (m_sched_skip n ns k)
      with mp p0 show ?thesis by (cases k) (auto simp: loop_live_def)
    qed (use mp p0 in \<open>auto simp: loop_live_def\<close>)
  next
    case False
    have wk: "work_pc h0 (threads s ! i)" using consistentD(2) [OF cn] i False by (simp add: roles_def)
    have none: "refs t = 0" if "refs s = 0"
    proof -
      have "refs_of (threads s ! i) = 0" using refs_of_refs [OF i] that by simp
      with that rf wk show ?thesis by (cases "threads s ! i") (auto elim: work_skont.elims)
    qed
    from goes_zero [OF go i False] show ?thesis
    proof (elim disjE conjE exE)
      assume same: "threads t ! 0 = threads s ! 0" and w: "w \<longrightarrow> (\<forall>k. threads s ! 0 \<noteq> LWait g k)"
      have "items (wq t) = [] \<and> refs t \<noteq> 0" if "threads s ! 0 = LWait g k" for k
      proof -
        have "items (wq s) = []" "refs s \<noteq> 0" using lv that by (auto simp: loop_live_def)
        moreover have "\<not> w" using w that by blast
        ultimately show ?thesis using move_work_quiet [OF mv wk] rf by (auto split: pc.splits)
      qed
      with same lv none ca show ?thesis unfolding loop_live_def by metis
    next
      fix k
      assume "threads t ! 0 = LCheck g k"
      then show ?thesis by (simp add: loop_live_def)
    qed
  qed
qed

section \<open>No node is forgotten\<close>

text \<open>How often a goroutine is still going to examine a node in \<open>sche_successors\<close>.\<close>

fun exam :: "heap \<Rightarrow> nid \<Rightarrow> pc \<Rightarrow> nat" where
  "exam h n (Drop c vs) = count_list (successors (hnode h (cnode c))) n"
| "exam h n (Succs c vs cs) = count_list vs n"
| "exam h n _ = 0"

lemma countable_exam [simp]: "countable_pc (exam h n)"
  by (simp add: countable_pc_def wait_blind_def)

text \<open>In a graph that is not canceled, every node is somewhere, or has an edge that is not dropped,
  or is about to be examined; and a node that is nowhere is idle.\<close>

definition remembered :: "heap \<Rightarrow> sys \<Rightarrow> nid \<Rightarrow> bool" where
  "remembered h0 s n \<longleftrightarrow>
     (waiting n s + finished n s = 1 \<or> cuts h0 n s < length (dependents (hnode h0 n)) \<or> 0 < total (exam h0 n) s) \<and>
     (waiting n s + finished n s = 0 \<longrightarrow> nstate (hnode (heap s) n) = kNodeStateIdle)"

definition all_remembered :: "heap \<Rightarrow> gid \<Rightarrow> sys \<Rightarrow> bool" where
  "all_remembered h0 g s \<longleftrightarrow> (\<not> is_canceled s g \<longrightarrow> (\<forall>n \<in> set (gnodes (hgraph h0 g)). remembered h0 s n))"

lemma remembered_keep:
  assumes "remembered h0 s n" "waiting n t + finished n t = waiting n s + finished n s" "cuts h0 n t = cuts h0 n s"
    "total (exam h0 n) s \<le> total (exam h0 n) t"
    "nstate (hnode (heap t) n) = nstate (hnode (heap s) n) \<or> waiting n t + finished n t \<noteq> 0"
  shows "remembered h0 t n"
  using assms unfolding remembered_def by (metis order.strict_trans2)

lemma early_waiting: "i < length (threads s) \<Longrightarrow> early n (threads s ! i) \<le> waiting n s"
  using sum_list_nth_le [of i "threads s" "early n"] by (simp add: waiting_def total_def)

lemma move_remembered:
  assumes cn: "consistent h0 g s" and i: "i < length (threads s)" and go: "goes g s i p' w t"
    and hs: "hist t = hist s @ es"
    and mv: "move g s (threads s ! i) p' (heap t) (items (wq t)) (pool_items (epool t)) es w"
    and role: "main_pc g (threads s ! i) \<or> work_pc h0 (threads s ! i)"
    and G: "\<And>n. n \<in> set (pc_nodes (threads s ! i)) \<Longrightarrow> n \<in> set (gnodes (hgraph h0 g)) \<and> graph_of s n = g"
    and cr: "\<not> is_crashed p'" and nc: "\<not> is_canceled s g" and n: "n \<in> set (gnodes (hgraph h0 g))" and re: "remembered h0 s n"
  shows "remembered h0 t n"
proof -
  note d = consistentD [OF cn]
  note dw = move_deltas(1) [OF go i hs refl, of n] and df = move_deltas(2) [OF go i hs refl, of n]
    and dc = move_deltas(3) [OF go i hs refl, of h0 n] and de = goes_total [OF go i countable_exam, of h0 n]
    and ew = early_waiting [OF i, of n]
  note k = counters_node [OF d(5) n refl]
  from mv show ?thesis
  proof cases
    case (m_sched_skip m ns k')
    with G [of m] nc show ?thesis by simp
  next
    case (m_drop c v vs)
    with role have sx: "is_suffix (v # vs) (successors (hnode h0 (cnode c)))" by auto
    then have le: "count_list (v # vs) n \<le> count_list (successors (hnode h0 (cnode c))) n" by (auto simp: is_suffix_def)
    have st: "nstate (hnode (heap t) n) = nstate (hnode (heap s) n)"
      using m_drop by (simp add: drop_one_def node_deref_def)
    show ?thesis
    proof (cases "v = n")
      case True
      then have "0 < exam h0 n (threads s ! i)" using le m_drop by simp
      then have "0 < total (exam h0 n) s"
        using sum_list_nth_le [OF i, of "exam h0 n"] by (simp add: total_def)
      then have "0 < total (exam h0 n) t" using de m_drop by simp
      moreover have "waiting n t + finished n t = waiting n s + finished n s" using dw df m_drop by simp
      ultimately show ?thesis using re st by (simp add: remembered_def)
    next
      case False
      show ?thesis
        by (rule remembered_keep [OF re]) (use dw df dc de m_drop st le False in \<open>auto split: if_splits\<close>)
    qed
  next
    case (m_cand v c vs cs)
    show ?thesis
    proof (cases "v = n")
      case True
      have "waiting n t + finished n t \<le> 1" if "consistent h0 g t" using positions_le [OF that] .
      moreover have "waiting n t = waiting n s + 1" using dw m_cand True by (auto split: if_splits)
      moreover have "waiting n s = 0 \<and> finished n s = 0"
      proof -
        have "dependents (hnode h0 n) \<noteq> []"
        proof -
          have "v \<in> set (successors (hnode h0 (cnode c)))" using role m_cand is_suffix_mem by fastforce
          then have "count_list (dependents (hnode h0 n)) (cnode c) \<noteq> 0"
            using edge_count [OF d(1), of "cnode c" n] True by (metis count_list_0_iff)
          then show ?thesis by auto
        qed
        then show ?thesis
          using candidate_fresh [OF d(1-5) n] m_cand True by (simp add: node_recyclable_def)
      qed
      ultimately show ?thesis using df m_cand by (simp add: remembered_def)
    next
      case False
      show ?thesis
        by (rule remembered_keep [OF re])
          (use dw df dc de m_cand False in \<open>auto simp: set_state_def split: if_splits\<close>)
    qed
  next
    case (m_not_cand v c vs cs)
    have same: "waiting n t + finished n t = waiting n s + finished n s" "cuts h0 n t = cuts h0 n s"
      "nstate (hnode (heap t) n) = nstate (hnode (heap s) n)"
      using dw df dc m_not_cand by auto
    show ?thesis
    proof (cases "v = n \<and> waiting n s + finished n s = 0")
      case True
      then have "nstate (hnode (heap s) n) = kNodeStateIdle" using re by (simp add: remembered_def)
      with m_not_cand True have "njoin (hnode (heap s) n) \<noteq> 0" by (simp add: node_recyclable_def)
      with k(1) True have "cuts h0 n s \<noteq> length (dependents (hnode h0 n))" by auto
      with cuts_le [OF d(1-4) n] same re show ?thesis by (auto simp: remembered_def)
    next
      case False
      have "waiting n s + finished n s \<le> 1" by (rule positions_le [OF cn])
      with False same re de m_not_cand show ?thesis
        by (cases "v = n") (auto simp: remembered_def)
    qed
  next
    case (m_setup es' cs c)
    have "count_list es' n = count_list cs n" using m_setup by (metis count_mset)
    then have "waiting n t + finished n t = waiting n s + finished n s" "cuts h0 n t = cuts h0 n s"
      "total (exam h0 n) s \<le> total (exam h0 n) t" "cnode c = n \<Longrightarrow> finished n t \<noteq> 0"
      using dw df dc de m_setup d(7) by auto
    then show ?thesis
      by (intro remembered_keep [OF re]) (use m_setup in \<open>auto simp: node_setup_eq\<close>)
  next
    case (m_invoke m k' c)
    then have "cnode c = m" by (simp add: make_closure_node)
    with m_invoke show ?thesis
      by (intro remembered_keep [OF re]) (use dw df dc de in \<open>auto split: if_splits\<close>)
  next
    case (m_take c)
    then show ?thesis
      by (intro remembered_keep [OF re]) (use dw df dc de in \<open>auto split: if_splits\<close>)
  next
    case (m_finish c)
    then show ?thesis
      by (intro remembered_keep [OF re]) (use dw df dc de in \<open>auto split: if_splits\<close>)
  next
    case (m_invoke_bad m k' e)
    with cr show ?thesis by simp
  qed (use dw df dc de ew role d(7) in \<open>auto intro!: remembered_keep [OF re]
      simp: set_state_def graph_ref_def graph_deref_def graph_cancel_def split: if_splits\<close>)
qed


lemma moves_remembered:
  assumes cn: "consistent h0 g s" and lo: "loop_ok g s" and i: "i < length (threads s)" and m: "moves g s i t"
    and re: "all_remembered h0 g s"
  shows "all_remembered h0 g t"
proof -
  obtain p' es w where go: "goes g s i p' w t" and hs: "hist t = hist s @ es"
    and mv: "move g s (threads s ! i) p' (heap t) (items (wq t)) (pool_items (epool t)) es w"
    and role: "main_pc g (threads s ! i) \<or> work_pc h0 (threads s ! i)"
    and N: "\<And>n. n \<in> set (pc_nodes (threads s ! i)) \<Longrightarrow> n \<in> set (gnodes (hgraph h0 g)) \<and> graph_of s n = g"
    by (rule movesE [OF cn i m]) (rule that)
  have "is_canceled s g \<Longrightarrow> is_canceled t g"
    using move_graph(1) [OF mv] N by (auto simp: is_canceled_def)
  then show ?thesis
    using re move_remembered [OF cn i go hs mv role N moves_no_crash [OF cn lo i mv]] unfolding all_remembered_def by blast
qed

section \<open>Cancellation comes from a panic\<close>

definition panics_told :: "gid \<Rightarrow> sys \<Rightarrow> bool" where
  "panics_told g s \<longleftrightarrow>
     (is_canceled s g \<or> (\<exists>c sp. Defer c sp False \<in> set (threads s)) \<longrightarrow> (\<exists>n. HPanic n \<in> set (hist s)))"

lemma moves_panics_told:
  assumes cn: "consistent h0 g s" and i: "i < length (threads s)" and m: "moves g s i t"
    and pt: "panics_told g s"
  shows "panics_told g t"
proof -
  obtain p' es w where go: "goes g s i p' w t" and hs: "hist t = hist s @ es"
    and mv: "move g s (threads s ! i) p' (heap t) (items (wq t)) (pool_items (epool t)) es w"
    and role: "main_pc g (threads s ! i) \<or> work_pc h0 (threads s ! i)"
    by (rule movesE [OF cn i m]) (rule that)
  have new: "(canceled (hgraph (heap t) g) \<and> \<not> canceled (hgraph (heap s) g) \<longrightarrow> (\<exists>c sp. threads s ! i = Defer c sp False)) \<and>
      (\<forall>c sp. p' = Defer c sp False \<longrightarrow> (\<exists>n. HPanic n \<in> set es))"
    using mv
  proof cases
    case (m_sched_done k)
    with role show ?thesis by (cases k) auto
  next
    case (m_sched_skip n ns k)
    with role show ?thesis by (cases k) auto
  qed (auto simp: graph_ref_def graph_deref_def set_state_def drop_one_def node_deref_def node_setup_eq
      split: if_splits)
  have old: "Defer c sp False \<in> set (threads t) \<Longrightarrow> Defer c sp False = p' \<or> Defer c sp False \<in> set (threads s)" for c sp
    using goes_cases [OF go i] by fastforce
  have mine: "threads s ! i = Defer c sp False \<Longrightarrow> Defer c sp False \<in> set (threads s)" for c sp
    using nth_mem [OF i] by simp
  show ?thesis
    unfolding panics_told_def
  proof
    assume a: "is_canceled t g \<or> (\<exists>c sp. Defer c sp False \<in> set (threads t))"
    then have "is_canceled s g \<or> (\<exists>c sp. Defer c sp False \<in> set (threads s)) \<or> (\<exists>n. HPanic n \<in> set es)"
      using new old mine unfolding is_canceled_def by metis
    then show "\<exists>n. HPanic n \<in> set (hist t)" using pt hs unfolding panics_told_def by auto
  qed
qed

section \<open>All reachable states\<close>

definition live_inv :: "heap \<Rightarrow> gid \<Rightarrow> sys \<Rightarrow> bool" where
  "live_inv h0 g s \<longleftrightarrow> static_inv h0 g s \<and> loop_live g s \<and> all_remembered h0 g s \<and> panics_told g s"

lemma live_inv_step:
  assumes l: "live_inv h0 g s" and a: "accounts s" and st: "step s (i, ch, now) = Some t"
  shows "live_inv h0 g t"
proof -
  have c: "consistent h0 g s" "loop_ok g s" and si: "static_inv h0 g s"
    using l by (simp_all add: live_inv_def static_inv_def)
  have i: "i < length (threads s)" using st by (simp split: if_splits)
  have m: "moves g s i t" by (rule step_move [OF consistentD(1,2) [OF c(1)] a st])
  show ?thesis
    using static_inv_step [OF si a st] moves_loop_live [OF c i m] moves_remembered [OF c i m]
      moves_panics_told [OF c(1) i m] l by (simp add: live_inv_def)
qed


lemma set_up_live:
  assumes f: "static_flow h0 g" and u: "set_up h0 g t" and nc: "\<not> canceled (hgraph h0 g)"
  shows "live_inv h0 g t"
proof -
  let ?N = "set (gnodes (hgraph h0 g))"
  obtain es where t: "threads t = [Schedule es (KLoop g (GMain [Wait]))]"
    "items (wq t) = []" "pool_items (epool t) = []" "hist t = []"
    and ce: "\<And>n. count_list es n \<le> 1" "set es = {n \<in> ?N. dependents (hnode h0 n) = []}"
    and node: "\<And>m. hnode (heap t) m = (if m \<in> ?N then (hnode h0 m)\<lparr>nstate := kNodeStateIdle,
      njoin := of_nat (length (dependents (hnode h0 m)))\<rparr> else hnode h0 m)"
    and gr: "\<And>k. gnodes (hgraph (heap t) k) = gnodes (hgraph h0 k)" "gjoin (hgraph (heap t) g) = 0"
      "canceled (hgraph (heap t) g) = canceled (hgraph h0 g)"
    and q: "\<And>n. waiting n t = count_list es n" "\<And>n. finished n t = 0" "\<And>n. cuts h0 n t = 0" "refs t = 0"
    by (rule set_up_facts [OF f u]) (rule that)
  have "remembered h0 t n" if n: "n \<in> ?N" for n
  proof (cases "dependents (hnode h0 n) = []")
    case True
    then have "count_list es n \<noteq> 0" using ce(2) n by (simp add: count_list_0_iff)
    then have "count_list es n = 1" using ce(1) [of n] by linarith
    with n show ?thesis by (simp add: remembered_def q node)
  next
    case False
    with n show ?thesis by (simp add: remembered_def q node)
  qed
  then have "all_remembered h0 g t" by (simp add: all_remembered_def)
  then show ?thesis
    using after_setup [OF f u] t nc gr(3)
    by (simp add: live_inv_def loop_live_def panics_told_def is_canceled_def)
qed

lemma reach_live:
  "reach s0 s \<Longrightarrow> starts_flow h0 g s0 \<Longrightarrow> \<not> canceled (hgraph h0 g) \<Longrightarrow> starting h0 g s \<or> live_inv h0 g s"
proof (induction rule: reach.induct)
  case start
  then show ?case using starts_starting by blast
next
  case (step s e t)
  obtain i ch now where e: "e = (i, ch, now)" by (cases e)
  have f: "static_flow h0 g" using step.prems by (simp add: starts_flow_def)
  from step.IH step.prems have s: "starting h0 g s \<or> live_inv h0 g s" by blast
  then have "\<not> crashed s" using starting_no_crash static_inv_no_crash by (auto simp: live_inv_def)
  then have a: "accounts s" using reach_accounts [OF step.hyps(1) starts_fresh [OF step.prems(1)]] by blast
  from s show ?case
    using starting_step [OF f _ step.hyps(2) [unfolded e]] set_up_live [OF f _ step.prems(2)]
      live_inv_step [OF _ a step.hyps(2) [unfolded e]] by blast
qed

section \<open>What a stopped run has done\<close>

lemma starting_not_stuck: "starting h0 g s \<Longrightarrow> \<not> stuck s"
proof
  assume s: "starting h0 g s" "stuck s"
  then have "resting s (threads s ! 0)"
    using stuck_pc [OF s(2) starting_no_crash [OF s(1)], of "threads s ! 0"] by (auto simp: starting_def)
  with s(1) show False by (auto simp: starting_def)
qed

lemma live_no_crash: "live_inv h0 g s \<Longrightarrow> \<not> crashed s"
  by (rule static_inv_no_crash [of h0 g]) (simp add: live_inv_def)

text \<open>Nobody holds a reference in a stopped run, and the loop does not sleep.\<close>

lemma stuck_places:
  assumes l: "live_inv h0 g s" and st: "stuck s"
  shows "\<forall>p \<in> set (threads s). in_closure p = 0 \<and> polling p = 0 \<and> refs_of p = 0 \<and> pc_nodes p = [] \<and> exam h0 n p = 0 \<and>
      cut h0 n p = 0 \<and> carries p = 0"
proof
  fix p
  assume p: "p \<in> set (threads s)"
  have "\<not> crashed s" by (rule live_no_crash [OF l])
  from stuck_pc [OF st this p] consider "p = Client []" | cs where "p = Client (Wait # cs)"
    | g' k where "p = LWait g' k" | "p = WGone" by blast
  then show "in_closure p = 0 \<and> polling p = 0 \<and> refs_of p = 0 \<and> pc_nodes p = [] \<and> exam h0 n p = 0 \<and> cut h0 n p = 0 \<and> carries p = 0"
  proof cases
    case (3 g' k)
    with p obtain i where i: "i < length (threads s)" "threads s ! i = LWait g' k" by (auto simp: in_set_conv_nth)
    then have "i = 0" using l by (cases "i = 0") (auto simp: live_inv_def static_inv_def consistent_def roles_def)
    then have "main_kont g k" using l i by (auto simp: live_inv_def static_inv_def consistent_def roles_def)
    then have "gk_closure k = 0" by (cases k) auto
    with 3 show ?thesis by simp
  qed (simp_all add: polling_def)
qed

lemma total_zero: "(\<And>p. p \<in> set (threads s) \<Longrightarrow> f p = 0) \<Longrightarrow> total f s = 0"
  by (simp add: total_def)

lemma total_nonzero:
  assumes "0 < total f s" obtains p where "p \<in> set (threads s)" "f p \<noteq> 0"
  using total_zero [of s f] assms by (metis less_irrefl)

lemma stuck_pool_empty:
  assumes l: "live_inv h0 g s" and st: "stuck s" and a: "accounts s"
  shows "pool_items (epool s) = []" "refs s = length (items (wq s))" "wg s = int (length (items (wq s)))"
proof -
  note z = stuck_places [OF l st]
  have "total in_closure s = 0" "total polling s = 0" "total refs_of s = 0" "total carries s = 0"
    by (rule total_zero, use z in blast)+
  moreover from this a show e: "pool_items (epool s) = []" by (auto simp: accounts_def)
  moreover from e have "length (pool_items (epool s)) = 0" by (simp only: list.size)
  ultimately show "refs s = length (items (wq s))" "wg s = int (length (items (wq s)))"
    using a unfolding accounts_def refs_def by linarith+
qed

text \<open>In a stopped run the client is not asleep in the loop; if the graph is not canceled it has
  finished its program.\<close>

lemma stuck_client:
  assumes l: "live_inv h0 g s" and st: "stuck s" and a: "accounts s"
  shows "(\<exists>cs. threads s ! 0 = Client cs) \<and> (\<not> is_canceled s g \<longrightarrow> threads s ! 0 = Client [] \<and> items (wq s) = [])"
proof -
  note e = stuck_pool_empty [OF l st a]
  have lv: "loop_live g s" and r: "roles h0 g s" and nc: "\<not> crashed s"
    using l live_no_crash [OF l] by (auto simp: live_inv_def static_inv_def consistent_def)
  have m: "threads s ! 0 \<in> set (threads s)" "main_pc g (threads s ! 0)" using r by (auto simp: roles_def)
  have "threads s ! 0 \<noteq> LWait g k" for k using lv e(2) by (auto simp: loop_live_def items_empty_iff)
  then obtain cs where cs: "threads s ! 0 = Client cs"
    using stuck_pc [OF st nc m(1)] m(2) by (cases "threads s ! 0") auto
  moreover have "cs = [] \<and> items (wq s) = []" if "\<not> is_canceled s g"
  proof -
    have "items (wq s) = []" using lv cs that e(2) by (auto simp: loop_live_def items_empty_iff)
    with stuck_pc [OF st nc m(1)] cs e(3) show ?thesis by auto
  qed
  ultimately show ?thesis by blast
qed

text \<open>The dropped edges of a stopped run are those of the ended nodes.\<close>

lemma stuck_cuts:
  assumes l: "live_inv h0 g s" and st: "stuck s"
  shows "cuts h0 n s = sum_list (map (hcut h0 n) (hist s))" "finished n s = count_list (hist s) (HEnd n)"
    "total (exam h0 n) s = 0" "total (early n) s = 0"
proof -
  note z = stuck_places [OF l st]
  have nn: "pc_nodes p = []" if "p \<in> set (threads s)" for p using z that by blast
  then have "early n p + late n p = 0" if "p \<in> set (threads s)" for p using that by (simp add: early_late_nodes)
  then have "total (early n) s = 0" "total (late n) s = 0" by (auto intro!: total_zero)
  moreover have "total (cut h0 n) s = 0" "total (exam h0 n) s = 0" by (rule total_zero, use z in blast)+
  ultimately show "cuts h0 n s = sum_list (map (hcut h0 n) (hist s))" "finished n s = count_list (hist s) (HEnd n)"
    "total (exam h0 n) s = 0" "total (early n) s = 0"
    by (simp_all add: cuts_def finished_def)
qed

lemma sum_list_hcut:
  assumes "finite D" "\<And>d. HEnd d \<in> set hs \<Longrightarrow> d \<in> D"
  shows "sum_list (map (hcut h n) hs) = (\<Sum>d \<in> D. count_list hs (HEnd d) * count_list (successors (hnode h d)) n)"
  using assms(2)
proof (induction hs)
  case (Cons e hs)
  then have IH: "sum_list (map (hcut h n) hs) = (\<Sum>d \<in> D. count_list hs (HEnd d) * count_list (successors (hnode h d)) n)"
    by simp
  have "(\<Sum>d \<in> D. count_list (e # hs) (HEnd d) * count_list (successors (hnode h d)) n) =
      (\<Sum>d \<in> D. of_bool (e = HEnd d) * count_list (successors (hnode h d)) n) +
      (\<Sum>d \<in> D. count_list hs (HEnd d) * count_list (successors (hnode h d)) n)"
    unfolding sum.distrib [symmetric] by (rule sum.cong) (auto simp: algebra_simps)
  moreover have "hcut h n e = (\<Sum>d \<in> D. of_bool (e = HEnd d) * count_list (successors (hnode h d)) n)"
  proof (cases e)
    case (HEnd c)
    then have "c \<in> D" using Cons.prems by simp
    then have "(\<Sum>d \<in> D. of_bool (e = HEnd d) * count_list (successors (hnode h d)) n) =
        (\<Sum>d \<in> {c}. of_bool (e = HEnd d) * count_list (successors (hnode h d)) n)"
      using assms(1) HEnd by (intro sum.mono_neutral_right) auto
    with HEnd show ?thesis by simp
  qed simp_all
  ultimately show ?case using IH by simp
qed simp

text \<open>The edges of the graph, from a node to the nodes that depend on it.\<close>

definition edges :: "heap \<Rightarrow> gid \<Rightarrow> (nid \<times> nid) set" where
  "edges h g = {(d, n). n \<in> set (gnodes (hgraph h g)) \<and> d \<in> set (dependents (hnode h n))}"

lemma edges_wf:
  assumes "acyclic (edges h g)"
  shows "wf (edges h g)"
proof -
  have "edges h g = (\<Union>n \<in> set (gnodes (hgraph h g)). (\<lambda>d. (d, n)) ` set (dependents (hnode h n)))"
    by (auto simp: edges_def)
  then have "finite (edges h g)" by simp
  from this assms show ?thesis by (rule finite_acyclic_wf)
qed

lemma stuck_all_ended:
  assumes l: "live_inv h0 g s" and st: "stuck s" and a: "accounts s" and nc: "\<not> is_canceled s g"
    and dag: "acyclic (edges h0 g)" and n: "n \<in> set (gnodes (hgraph h0 g))"
  shows "HEnd n \<in> set (hist s)"
  using n
proof (induction n rule: wf_induct_rule [OF edges_wf [OF dag]])
  case (1 n)
  let ?N = "set (gnodes (hgraph h0 g))"
  let ?w = "\<lambda>d. count_list (successors (hnode h0 d)) n"
  have cn: "consistent h0 g s" using l by (simp add: live_inv_def static_inv_def)
  note d = consistentD [OF cn] and c = stuck_cuts [OF l st]
  have one: "count_list (hist s) (HEnd k) * ?w k = ?w k" if k: "k \<in> ?N" for k
  proof (cases "?w k = 0")
    case False
    then have "k \<in> set (dependents (hnode h0 n))" using edge_count [OF d(1), of k n] by (metis count_list_0_iff)
    then have "HEnd k \<in> set (hist s)" using "1.IH" [of k] "1.prems" k by (auto simp: edges_def)
    then have "count_list (hist s) (HEnd k) \<noteq> 0" by (simp add: count_list_0_iff)
    moreover have "count_list (hist s) (HEnd k) \<le> 1" using positions_le [OF cn, of k] c(2) [of k] by simp
    ultimately show ?thesis by (simp add: le_Suc_eq)
  qed simp
  have "cuts h0 n s = (\<Sum>k \<in> ?N. count_list (hist s) (HEnd k) * ?w k)"
    unfolding c(1) using d(3) by (intro sum_list_hcut) (auto simp: ends_in_def)
  also have "\<dots> = (\<Sum>k \<in> ?N. ?w k)" by (rule sum.cong [OF refl one])
  also have "\<dots> = length (dependents (hnode h0 n))" by (rule sum_edges [OF d(1) "1.prems"])
  finally have full: "cuts h0 n s = length (dependents (hnode h0 n))" .
  have "remembered h0 s n" using l nc "1.prems" by (simp add: live_inv_def all_remembered_def)
  then have "waiting n s + finished n s = 1" using full c(3) by (simp add: remembered_def)
  moreover have "waiting n s = 0"
    using stuck_client [OF l st a] nc stuck_pool_empty(1) [OF l st a] c(4) by (simp add: waiting_def)
  ultimately show ?case using c(2) [of n] count_notin [of "HEnd n" "hist s"] by fastforce
qed


lemma stuck_reach:
  assumes "starts_flow h g s0" "reach s0 s" "stuck s" "\<not> canceled (hgraph h g)"
  shows "live_inv h g s \<and> accounts s"
proof -
  have "starting h g s \<or> live_inv h g s" using reach_live [OF assms(2,1,4)] .
  then have l: "live_inv h g s" using starting_not_stuck assms(3) by blast
  with reach_accounts [OF assms(2) starts_fresh [OF assms(1)]] live_no_crash show ?thesis by blast
qed

text \<open>A run of \<open>two_tasks\<close> to its end, for the witnesses.\<close>

lemma two_threads_stuck:
  assumes "threads t = [Client [], WGone]"
  shows "stuck t"
  unfolding stuck_def
proof
  fix e :: event
  obtain i ch now where "e = (i, ch, now)" by (cases e)
  with assms show "step t e = None" by (cases "i = 0"; cases "i = 1") auto
qed

lemma two_tasks_stuck:
  "\<exists>s. reach (demo 1 two_tasks [Run 1, Wait]) s \<and> stuck s \<and> hist s = [HCall 1, HRet 1, HEnd 1, HCall 2, HRet 2, HEnd 2]"
proof -
  obtain s where s: "run (demo 1 two_tasks [Run 1, Wait]) two_tasks_trace = Some s" "wg s = 0"
    "threads s = [Client [Wait], WGone]" "hist s = [HCall 1, HRet 1, HEnd 1, HCall 2, HRet 2, HEnd 2]"
    using two_tasks_run by auto
  let ?t = "goto 0 (Client []) s"
  have st: "step s (0, Tau, 0) = Some ?t" using s(2,3) by simp
  have "stuck ?t" by (rule two_threads_stuck) (simp add: s(3))
  with reach.step [OF run_reach [OF s(1) reach.start] st] s(4) show ?thesis by (intro exI [of _ ?t]) simp
qed

lemma two_tasks_dag: "acyclic (edges two_tasks 1)"
proof -
  have "edges two_tasks 1 = {(1, 2)}" by (auto simp: edges_def two_tasks_simps [unfolded One_nat_def])
  moreover have "({(1, 2)} :: (nat \<times> nat) set) \<subseteq> less_than" by auto
  ultimately show ?thesis by (metis acyclic_subset wf_acyclic wf_less_than)
qed

lemma two_tasks_live: "\<not> canceled (hgraph two_tasks 1)"
  by (simp add: two_tasks_def NewTaskFlow_def newGraph_def NewStatic_def newNode_def graph_push_def
      empty_heap_def nil_node_def nil_graph_def Task_Precede_def precede_def Let_def)

text \<open>(C2) A run in which no task panics completes: if the flow has no cycle and was not canceled
  before, then in every reachable state in which nothing can move \<open>Run\<close> and \<open>Wait\<close> have returned,
  every task of the flow has returned and has ended, the queues are empty and the wait group is
  zero. No deadlock and no lost node, for every interleaving and every number of workers.\<close>

theorem static_completes:
  assumes "starts_flow h g s0" "\<not> canceled (hgraph h g)" "acyclic (edges h g)"
    and "reach s0 s" "stuck s" "\<And>n. HPanic n \<notin> set (hist s)"
  shows "threads s ! 0 = Client [] \<and> wg s = 0 \<and> items (wq s) = [] \<and> pool_items (epool s) = [] \<and>
    (\<forall>n \<in> set (gnodes (hgraph h g)). HRet n \<in> set (hist s) \<and> HEnd n \<in> set (hist s))"
proof -
  have l: "live_inv h g s" and a: "accounts s" using stuck_reach [OF assms(1,4,5,2)] by auto
  then have nc: "\<not> is_canceled s g" using assms(6) by (auto simp: live_inv_def panics_told_def)
  have c: "threads s ! 0 = Client []" "items (wq s) = []" using stuck_client [OF l assms(5) a] nc by auto
  note e = stuck_pool_empty [OF l assms(5) a]
  have ended: "HEnd n \<in> set (hist s)" if "n \<in> set (gnodes (hgraph h g))" for n
    using stuck_all_ended [OF l assms(5) a nc assms(3) that] .
  have "told h g s" using l by (simp add: live_inv_def static_inv_def)
  with nc ended have "HRet n \<in> set (hist s)" if "n \<in> set (gnodes (hgraph h g))" for n
    using that by (simp add: told_def)
  with c e ended show ?thesis by simp
qed

lemma static_completes_witness:
  "\<exists>s. reach (demo 1 two_tasks [Run 1, Wait]) s \<and> threads s ! 0 = Client [] \<and> wg s = 0 \<and> HRet 2 \<in> set (hist s)"
proof -
  obtain s where s: "reach (demo 1 two_tasks [Run 1, Wait]) s" "stuck s"
    "hist s = [HCall 1, HRet 1, HEnd 1, HCall 2, HRet 2, HEnd 2]"
    using two_tasks_stuck by blast
  have "2 \<in> set (gnodes (hgraph two_tasks 1))" by (simp add: two_tasks_simps [unfolded One_nat_def])
  moreover have "HPanic n \<notin> set (hist s)" for n using s(3) by simp
  ultimately show ?thesis
    using static_completes [OF two_tasks_starts two_tasks_live two_tasks_dag s(1,2)] s(1) by blast
qed

text \<open>(C7) The one way a run of static tasks can hang: in a reachable state in which nothing can move,
  the client has finished, or some task has panicked and the client is in \<open>Wait\<close> while nodes that
  were counted by \<open>wg.Add\<close> are still in the executor's queue. \<open>Run\<close> itself always returns.\<close>

theorem static_hang_only_after_panic:
  assumes "starts_flow h g s0" "\<not> canceled (hgraph h g)" "reach s0 s" "stuck s"
  shows "threads s ! 0 = Client [] \<or>
    threads s ! 0 = Client [Wait] \<and> (\<exists>n. HPanic n \<in> set (hist s)) \<and> items (wq s) \<noteq> [] \<and>
      wg s = int (length (items (wq s)))"
proof -
  have l: "live_inv h g s" and a: "accounts s" using stuck_reach [OF assms(1,3,4,2)] by auto
  note e = stuck_pool_empty [OF l assms(4) a]
  have r: "roles h g s" using l by (simp add: live_inv_def static_inv_def consistent_def)
  then have m: "threads s ! 0 \<in> set (threads s)" "main_pc g (threads s ! 0)" by (auto simp: roles_def)
  obtain cs where cs: "threads s ! 0 = Client cs" using stuck_client [OF l assms(4) a] by blast
  show ?thesis
  proof (cases "cs = []")
    case False
    then have "cs = [Wait]" using m(2) cs by auto
    moreover from this have "wg s \<noteq> 0" using stuck_pc [OF assms(4) live_no_crash [OF l] m(1)] cs by auto
    moreover have "is_canceled s g" using stuck_client [OF l assms(4) a] cs False by auto
    then have "\<exists>n. HPanic n \<in> set (hist s)" using l by (simp add: live_inv_def panics_told_def)
    ultimately show ?thesis using cs e(3) by (auto simp: items_empty_iff)
  qed (use cs in simp)
qed

lemma static_hang_only_after_panic_witness:
  "\<exists>s. reach (demo 1 two_tasks [Run 1, Wait]) s \<and> threads s ! 0 = Client []"
proof -
  obtain s where s: "reach (demo 1 two_tasks [Run 1, Wait]) s" "stuck s"
    "hist s = [HCall 1, HRet 1, HEnd 1, HCall 2, HRet 2, HEnd 2]"
    using two_tasks_stuck by blast
  then have "\<not> (\<exists>n. HPanic n \<in> set (hist s))" by simp
  with static_hang_only_after_panic [OF two_tasks_starts two_tasks_live s(1,2)] s(1) show ?thesis by blast
qed

end
