(* ===== verification/Static_Termination.thy ===== *)
theory Static_Termination
  imports Static_Liveness
begin

text \<open>
  Every run of a flow of static tasks ends, with panics allowed and with cycles as well: a weight of
  program counters, queued nodes, submitted tasks and nodes not yet scheduled goes down with every
  step, and bounds the number of steps by a function of the size of the flow. \<open>M\<close> bounds the number
  of successors of a node.
\<close>

section \<open>The weight of a state\<close>

definition w_task :: "nat \<Rightarrow> nat" where "w_task M = 2 * M + 12"
definition w_queued :: "nat \<Rightarrow> nat" where "w_queued M = w_task M + 4"
definition w_node :: "nat \<Rightarrow> nat" where "w_node M = w_queued M + 4"

fun weight :: "nat \<Rightarrow> pc \<Rightarrow> nat" where
  "weight M (Client cs) = length cs"
| "weight M (Schedule ns k) = w_node M * length ns + 6"
| "weight M (PRef n ns k) = w_node M * length ns + w_node M + 5"
| "weight M (PPut n ns k) = w_node M * length ns + w_node M + 4"
| "weight M (LCheck g k) = 5"
| "weight M (LWait g k) = 4"
| "weight M (LPop g k) = 4"
| "weight M (LInvoke n g k) = w_task M + 7"
| "weight M (LLeave g k) = 3"
| "weight M WPoll = 1"
| "weight M WGone = 0"
| "weight M (Body c) = 2 * M + 12"
| "weight M (Handle c sp) = 2 * M + 11"
| "weight M (Defer c sp ok) = 2 * M + 10"
| "weight M (Drop c vs) = length vs + M + 9"
| "weight M (Succs c vs cs) = w_node M * length cs + length vs + 8"
| "weight M (NSetup c cs) = w_node M * length cs + 7"
| "weight M (Deref c) = 4"
| "weight M (Done c) = 2"
| "weight M _ = 0"

text \<open>The nodes that can still become candidates: nowhere, idle, with dependents.\<close>

definition unborn :: "heap \<Rightarrow> sys \<Rightarrow> nid \<Rightarrow> bool" where
  "unborn h0 s n \<longleftrightarrow> waiting n s + finished n s = 0 \<and> nstate (hnode (heap s) n) = kNodeStateIdle \<and>
     dependents (hnode h0 n) \<noteq> []"

definition unborn_count :: "heap \<Rightarrow> gid \<Rightarrow> sys \<Rightarrow> nat" where
  "unborn_count h0 g s = length (filter (unborn h0 s) (gnodes (hgraph h0 g)))"

definition state_weight :: "nat \<Rightarrow> heap \<Rightarrow> gid \<Rightarrow> sys \<Rightarrow> nat" where
  "state_weight M h0 g s = total (weight M) s + w_queued M * length (items (wq s)) +
     w_task M * length (pool_items (epool s)) + w_node M * unborn_count h0 g s"

section \<open>Every step lowers the weight\<close>

text \<open>A signal wakes at most the client and costs one; a started worker costs one.\<close>

lemma weight_signal: "sum_list (map (weight M) (signal g ps)) \<le> sum_list (map (weight M) ps) + 1"
  by (induction g ps rule: signal.induct) auto

lemma weight_signal_goto:
  assumes "i < length ps" "\<And>k. ps ! i \<noteq> LWait g k"
  shows "sum_list (map (weight M) ((signal g ps)[i := p])) + weight M (ps ! i) \<le> sum_list (map (weight M) ps) + weight M p + 1"
proof -
  have "sum_list (map (weight M) ((signal g ps)[i := p])) + weight M (signal g ps ! i) = sum_list (map (weight M) (signal g ps)) + weight M p"
    using assms(1) sum_list_update [of i "signal g ps" "weight M" p] by simp
  moreover have "signal g ps ! i = ps ! i" using signal_nth_same [OF assms(1)] assms(2) by blast
  ultimately show ?thesis using weight_signal [of M g ps] by simp
qed


lemma goes_weight:
  assumes go: "goes g s i p' w t" and i: "i < length (threads s)" and nw: "\<And>k. threads s ! i \<noteq> LWait g k"
  shows "total (weight M) t + weight M (threads s ! i) \<le>
    total (weight M) s + weight M p' + of_bool w + of_bool (is_invoke (threads s ! i))"
proof -
  from go obtain ps where ps: "ps = [] \<or> ps = [WPoll] \<and> is_invoke (threads s ! i)"
    "threads t = (if w then signal g (threads s) else threads s)[i := p'] @ ps"
    by (auto simp: goes_def)
  have "sum_list (map (weight M) ((if w then signal g (threads s) else threads s)[i := p'])) + weight M (threads s ! i) \<le>
      total (weight M) s + weight M p' + of_bool w"
    using weight_signal_goto [OF i nw, of M p'] sum_list_update [OF i, of "weight M" p'] by (simp add: total_def)
  moreover have "sum_list (map (weight M) ps) \<le> of_bool (is_invoke (threads s ! i))" using ps(1) by auto
  ultimately show ?thesis unfolding total_def ps(2) map_append sum_list_append by linarith
qed

lemma move_unborn:
  assumes cn: "consistent h0 g s" and i: "i < length (threads s)" and go: "goes g s i p' w t"
    and hs: "hist t = hist s @ es"
    and mv: "move g s (threads s ! i) p' (heap t) (items (wq t)) (pool_items (epool t)) es w"
    and role: "main_pc g (threads s ! i) \<or> work_pc h0 (threads s ! i)"
    and n: "n \<in> set (gnodes (hgraph h0 g))" and u: "unborn h0 t n"
  shows "unborn h0 s n"
proof -
  note d = consistentD [OF cn]
  note dw = move_deltas(1) [OF go i hs refl, of n] and df = move_deltas(2) [OF go i hs refl, of n]
  have z: "waiting n t = 0" "finished n t = 0" "nstate (hnode (heap t) n) = kNodeStateIdle"
    "0 < length (dependents (hnode h0 n))" using u by (simp_all add: unborn_def)
  have fin: "finished n s = 0 \<and> nstate (hnode (heap s) n) = kNodeStateIdle"
    using mv
  proof cases
    case (m_setup es' cs c)
    then have "cnode c \<noteq> n" using df z(2) by auto
    with m_setup df z show ?thesis by (auto simp: node_setup_eq)
  qed (use df z role d(7) in \<open>auto simp: set_state_def graph_ref_def graph_deref_def graph_cancel_def drop_one_def
      node_deref_def split: if_splits\<close>)
  have "waiting n s \<le> 1" using positions_le [OF cn, of n] by simp
  moreover have "waiting n s \<noteq> 1" using counters_node(3) [OF d(5) n refl] z(4) fin by blast
  ultimately have "waiting n s = 0" by simp
  then show ?thesis using fin z(4) by (simp add: unborn_def)
qed

lemma move_cand_born:
  assumes i: "i < length (threads s)" and go: "goes g s i (Succs c vs (cs @ [v])) w t" and hs: "hist t = hist s @ es"
    and mv: "items (wq t) = items (wq s)" "pool_items (epool t) = pool_items (epool s)"
    and p: "threads s ! i = Succs c (v # vs) cs"
  shows "\<not> unborn h0 t v"
proof -
  have "waiting v t \<noteq> 0" using move_deltas(1) [OF go i hs refl, of v] mv p by simp
  then show ?thesis by (simp add: unborn_def)
qed

lemma filter_fewer:
  assumes "\<And>x. x \<in> set xs \<Longrightarrow> Q x \<Longrightarrow> P x"
  shows "length (filter Q xs) \<le> length (filter P xs)"
    and "v \<in> set xs \<Longrightarrow> P v \<Longrightarrow> \<not> Q v \<Longrightarrow> length (filter Q xs) < length (filter P xs)"
  using assms
proof (induction xs)
  case (Cons x xs)
  {
    case 1
    then show ?case using Cons.IH(1) by (auto simp: le_SucI)
  next
    case 2
    have le: "length (filter Q xs) \<le> length (filter P xs)" using Cons.IH(1) 2(4) by simp
    show ?case
    proof (cases "v = x")
      case True
      with 2 le show ?thesis by simp
    next
      case False
      then have "length (filter Q xs) < length (filter P xs)" using Cons.IH(2) 2 by simp
      then show ?thesis using 2(4) [of x] by auto
    qed
  }
qed auto

lemma moves_weight:
  assumes cn: "consistent h0 g s" and i: "i < length (threads s)" and m: "moves g s i t"
    and M: "\<And>n. n \<in> set (gnodes (hgraph h0 g)) \<Longrightarrow> length (successors (hnode h0 n)) \<le> M"
  shows "state_weight M h0 g t < state_weight M h0 g s"
proof -
  obtain p' es w where go: "goes g s i p' w t" and hs: "hist t = hist s @ es"
    and mv: "move g s (threads s ! i) p' (heap t) (items (wq t)) (pool_items (epool t)) es w"
    and role: "main_pc g (threads s ! i) \<or> work_pc h0 (threads s ! i)"
    and N: "\<And>n. n \<in> set (pc_nodes (threads s ! i)) \<Longrightarrow> n \<in> set (gnodes (hgraph h0 g)) \<and> graph_of s n = g"
    by (rule movesE [OF cn i m]) (rule that)
  note d = consistentD [OF cn]
  have nw: "threads s ! i \<noteq> LWait g k" for k using mv by (auto elim: move.cases)
  note gw = goes_weight [OF go i nw, of M]
  have ub: "unborn h0 t n \<Longrightarrow> unborn h0 s n" if "n \<in> set (gnodes (hgraph h0 g))" for n
    by (rule move_unborn [OF cn i go hs mv role that])
  obtain u u' where u: "unborn_count h0 g s = u" "unborn_count h0 g t = u'" by blast
  note fewer = filter_fewer [of "gnodes (hgraph h0 g)" "unborn h0 t" "unborn h0 s", OF ub]
  have "u' \<le> u" using fewer(1) u by (simp add: unborn_count_def)
  obtain U U' where U: "U = w_node M * u" "U' = w_node M * u'" by blast
  have UU: "U' \<le> U" using \<open>u' \<le> u\<close> by (simp add: U)
  have su: "length (successors (hnode (heap s) n)) \<le> M" if "n \<in> set (pc_nodes (threads s ! i))" for n
    using M N [OF that] d(7) [of n] by simp
  have W: "w_queued M = w_task M + 4" "w_node M = w_task M + 8" "w_task M = 2 * M + 12"
    by (simp_all add: w_task_def w_queued_def w_node_def)
  have S: "state_weight M h0 g s = total (weight M) s + w_queued M * length (items (wq s)) +
     w_task M * length (pool_items (epool s)) + U"
    "state_weight M h0 g t = total (weight M) t + w_queued M * length (items (wq t)) +
     w_task M * length (pool_items (epool t)) + U'" by (simp_all add: state_weight_def u U)
  have ks: "weight M (after_schedule k) \<le> 5" if "main_skont g k \<or> work_skont k" for k
    using that by (cases k) auto
  from mv show ?thesis
  proof cases
    case (m_cand v c vs cs)
    have vs: "v \<in> set (successors (hnode h0 (cnode c)))" using role m_cand is_suffix_mem by fastforce
    have cN: "cnode c \<in> set (gnodes (hgraph h0 g))" using N m_cand by simp
    have vN: "v \<in> set (gnodes (hgraph h0 g))" using static_nodes(4) [OF d(1) frame_refl cN] vs by blast
    have "count_list (dependents (hnode h0 v)) (cnode c) \<noteq> 0"
      using edge_count [OF d(1), of "cnode c" v] vs by (metis count_list_0_iff)
    then have dv: "dependents (hnode h0 v) \<noteq> []" by auto
    have "waiting v s = 0 \<and> finished v s = 0"
      using candidate_fresh [OF d(1-5) vN dv] m_cand by (simp add: node_recyclable_def)
    then have "unborn h0 s v" using m_cand dv by (simp add: unborn_def)
    moreover have "\<not> unborn h0 t v" using move_cand_born [OF i _ hs] go m_cand by simp
    ultimately have "Suc u' \<le> u" using fewer(2) [OF _ _ vN] u by (simp add: unborn_count_def)
    then have "U' + w_node M \<le> U" using mult_le_mono2 [of "Suc u'" u "w_node M"] by (simp add: U)
    then show ?thesis using gw m_cand unfolding S by simp
  next
    case (m_sched_done k)
    then show ?thesis using gw UU ks [of k] role unfolding S by simp
  next
    case (m_sched_skip n ns k)
    then show ?thesis using gw UU ks [of k] role W unfolding S by simp
  next
    case (m_setup es' cs c)
    then have "length es' = length cs" by (metis size_mset)
    then show ?thesis using gw UU m_setup unfolding S by simp
  next
    case (m_defer_ok c sp)
    then show ?thesis using gw UU su [of "cnode c"] unfolding S by simp
  next
    case (m_defer_bad c sp)
    then show ?thesis using gw UU su [of "cnode c"] unfolding S by simp
  next
    case (m_dropped c)
    then show ?thesis using gw UU su [of "cnode c"] unfolding S by simp
  next
    case (m_exit cs)
    then have "length cs \<le> 1" using role by auto
    then show ?thesis using gw UU m_exit unfolding S by simp
  qed (use gw UU W in \<open>auto simp: S\<close>)
qed

section \<open>The length of a run\<close>

lemma set_up_weight:
  assumes f: "static_flow h0 g" and u: "set_up h0 g t"
  shows "state_weight M h0 g t \<le> w_node M * length (gnodes (hgraph h0 g)) + 6"
proof -
  obtain es where t: "threads t = [Schedule es (KLoop g (GMain [Wait]))]"
    "items (wq t) = []" "pool_items (epool t) = []"
    and es: "mset es = mset (filter (\<lambda>n. dependents (hnode h0 n) = []) (gnodes (hgraph h0 g)))"
    using u by (auto simp: set_up_def)
  let ?D = "\<lambda>n. dependents (hnode h0 n) = []"
  have "length es = length (filter ?D (gnodes (hgraph h0 g)))" using es by (metis size_mset)
  moreover have "unborn_count h0 g t \<le> length (filter (\<lambda>n. \<not> ?D n) (gnodes (hgraph h0 g)))"
    unfolding unborn_count_def by (rule filter_fewer) (simp add: unborn_def)
  ultimately have "length es + unborn_count h0 g t \<le> length (gnodes (hgraph h0 g))"
    using sum_length_filter_compl [of ?D "gnodes (hgraph h0 g)"] by simp
  then have "w_node M * length es + w_node M * unborn_count h0 g t \<le> w_node M * length (gnodes (hgraph h0 g))"
    by (metis add_mult_distrib2 mult_le_mono2)
  then show ?thesis using t by (simp add: state_weight_def total_def)
qed

lemma static_run_weight:
  assumes f: "starts_flow h g s0" and M: "\<And>n. n \<in> set (gnodes (hgraph h g)) \<Longrightarrow> length (successors (hnode h n)) \<le> M"
  shows "run s es = Some t \<Longrightarrow> reach s0 s \<Longrightarrow> static_inv h g s \<Longrightarrow>
    length es + state_weight M h g t \<le> state_weight M h g s"
proof (induction es arbitrary: s)
  case (Cons e es)
  obtain i ch now where e: "e = (i, ch, now)" by (cases e)
  obtain u where u: "step s (i, ch, now) = Some u" "run u es = Some t"
    using Cons.prems(1) e by (auto split: option.splits)
  have a: "accounts s"
    using reach_accounts [OF Cons.prems(2) starts_fresh [OF f]] static_inv_no_crash Cons.prems(3) by blast
  have c: "consistent h g s" using Cons.prems(3) by (simp add: static_inv_def)
  have i: "i < length (threads s)" using u(1) by (simp split: if_splits)
  have "state_weight M h g u < state_weight M h g s"
    by (rule moves_weight [OF c i step_move [OF consistentD(1,2) [OF c] a u(1)] M])
  moreover have "length es + state_weight M h g t \<le> state_weight M h g u"
    using Cons.IH [OF u(2) reach.step [OF Cons.prems(2) u(1)] static_inv_step [OF Cons.prems(3) a u(1)]] .
  ultimately show ?case by simp
qed simp

text \<open>The first two steps: the client calls \<open>Run\<close>, and the graph is set up.\<close>

lemma setup_next:
  assumes "static_flow h0 g" "starting h0 g s" "threads s = [GSetup g (GMain [Wait])]" "step s (i, ch, now) = Some u"
  shows "set_up h0 g u"
proof -
  have "threads u \<noteq> [GSetup g (GMain [Wait])]" "threads u \<noteq> [Client [Run tf, Wait]]" for tf
    using assms(3,4) by (auto simp: gsetup_step_def Let_def split: choice.splits if_splits)
  then have "\<not> starting h0 g u" by (auto simp: starting_def)
  then show ?thesis using starting_step [OF assms(1,2,4)] by blast
qed

lemma starting_next:
  assumes "starting h0 g s" "threads s \<noteq> [GSetup g (GMain [Wait])]" "step s (i, ch, now) = Some u"
  shows "threads u = [GSetup g (GMain [Wait])]"
proof -
  obtain tf where "threads s = [Client [Run tf, Wait]]" "graph (hflow (heap s) tf) = g"
    using assms(1,2) by (auto simp: starting_def)
  with assms(3) show ?thesis by (auto split: if_splits)
qed

definition run_bound :: "nat \<Rightarrow> nat \<Rightarrow> nat" where
  "run_bound M nodes = (2 * M + 20) * nodes + 8"

lemma starting_bound:
  assumes f: "starts_flow h g s0" and M: "\<And>n. n \<in> set (gnodes (hgraph h g)) \<Longrightarrow> length (successors (hnode h n)) \<le> M"
    and r: "reach s0 s" and s: "starting h g s" and run: "run s es = Some t"
  shows "length es \<le> run_bound M (length (gnodes (hgraph h g)))"
    and "threads s = [GSetup g (GMain [Wait])] \<Longrightarrow> length es < run_bound M (length (gnodes (hgraph h g)))"
proof -
  have sf: "static_flow h g" using f by (simp add: starts_flow_def)
  have W: "run_bound M n = w_node M * n + 8" for n by (simp add: run_bound_def w_node_def w_queued_def w_task_def)
  have B: "length fs < run_bound M (length (gnodes (hgraph h g)))"
    if v: "reach s0 v" "starting h g v" "threads v = [GSetup g (GMain [Wait])]" "run v fs = Some t" for v fs
  proof (cases fs)
    case (Cons e gs)
    obtain i ch now where e: "e = (i, ch, now)" by (cases e)
    obtain u where u: "step v (i, ch, now) = Some u" "run u gs = Some t"
      using v(4) Cons e by (auto split: option.splits)
    have su: "set_up h g u" by (rule setup_next [OF sf v(2,3) u(1)])
    have "length gs + state_weight M h g t \<le> state_weight M h g u"
      by (rule static_run_weight [OF f M u(2) reach.step [OF v(1) u(1)] after_setup [OF sf su]])
    then show ?thesis using set_up_weight [OF sf su, of M] Cons by (simp add: W)
  qed (simp add: W)
  then show "threads s = [GSetup g (GMain [Wait])] \<Longrightarrow> length es < run_bound M (length (gnodes (hgraph h g)))"
    using r s run by blast
  show "length es \<le> run_bound M (length (gnodes (hgraph h g)))"
  proof (cases "threads s = [GSetup g (GMain [Wait])] \<or> es = []")
    case True
    then show ?thesis using B [OF r s _ run] by auto
  next
    case False
    then obtain e fs where es: "es = e # fs" by (cases es) auto
    obtain i ch now where e: "e = (i, ch, now)" by (cases e)
    obtain u where u: "step s (i, ch, now) = Some u" "run u fs = Some t"
      using run es e by (auto split: option.splits)
    have tu: "threads u = [GSetup g (GMain [Wait])]" using starting_next [OF s _ u(1)] False by blast
    then have "\<not> set_up h g u" by (auto simp: set_up_def)
    then have "starting h g u" using starting_step [OF sf s u(1)] by blast
    then show ?thesis using B [OF reach.step [OF r u(1)] _ tu u(2)] es by simp
  qed
qed

text \<open>(C6) Every run of a flow of static tasks ends: with at most \<open>M\<close> successors per node and \<open>k\<close>
  nodes, no run has more than \<open>(2 M + 20) k + 8\<close> steps, however its goroutines interleave, with any
  number of workers, with panics and on cyclic graphs as well.\<close>

theorem static_terminates:
  assumes "starts_flow h g s0" "run s0 es = Some t"
    and "\<And>n. n \<in> set (gnodes (hgraph h g)) \<Longrightarrow> length (successors (hnode h n)) \<le> M"
  shows "length es \<le> (2 * M + 20) * length (gnodes (hgraph h g)) + 8"
  using starting_bound(1) [OF assms(1,3) reach.start starts_starting [OF assms(1)] assms(2)]
  by (simp add: run_bound_def)

lemma static_terminates_witness:
  "run (demo 1 two_tasks [Run 1, Wait]) two_tasks_trace \<noteq> None \<and> length two_tasks_trace \<le> 52"
proof -
  obtain t where t: "run (demo 1 two_tasks [Run 1, Wait]) two_tasks_trace = Some t" using two_tasks_run by auto
  have "length (successors (hnode two_tasks n)) \<le> 1" if "n \<in> set (gnodes (hgraph two_tasks 1))" for n
    using that by (auto simp: two_tasks_simps [unfolded One_nat_def])
  from static_terminates [OF two_tasks_starts t this] t show ?thesis
    by (simp add: two_tasks_simps [unfolded One_nat_def])
qed

end
