(* ===== verification/Graph_Walk.thy ===== *)
theory Graph_Walk
  imports Flow_Graph "HOL-Library.Monad_Syntax"
begin

text \<open>
  \<open>eGraph.walk\<close> of \<open>graph.go\<close>: every node of a graph and of the subflows in it that have been
  instantiated, depth first. The recursion goes through the heap, so that it ends is a property of
  the heaps the API builds: the graph of a subflow is always younger than the graph its node is in,
  and belongs to one node.
\<close>

section \<open>The code\<close>

text \<open>The nodes in the order in which \<open>walk\<close> hands them to its argument; \<open>None\<close> when it does not
  return.\<close>

partial_function (option) walk_nodes :: "heap \<Rightarrow> nid list \<Rightarrow> nid list option" where
  "walk_nodes h ns =
     (case ns of [] \<Rightarrow> Some []
      | n # ns' \<Rightarrow>
          do { xs \<leftarrow> (case ptr (hnode h n) of
                        PSubflow g \<Rightarrow> (if g \<noteq> 0 \<and> instantiated (hgraph h g) then walk_nodes h (gnodes (hgraph h g)) else Some [])
                      | _ \<Rightarrow> Some []);
               ys \<leftarrow> walk_nodes h ns';
               Some (n # xs @ ys) })"

declare walk_nodes.simps [code]

definition graph_walk :: "heap \<Rightarrow> gid \<Rightarrow> nid list option" where
  "graph_walk h g = walk_nodes h (gnodes (hgraph h g))"

section \<open>The subflow graphs of a heap\<close>

definition nested :: "heap \<Rightarrow> bool" where
  "nested h \<longleftrightarrow>
     (\<forall>n g. ptr (hnode h n) = PSubflow g \<longrightarrow> ngraph (hnode h n) < g \<and> g < gnext h) \<and>
     (\<forall>n m g. ptr (hnode h n) = PSubflow g \<and> ptr (hnode h m) = PSubflow g \<longrightarrow> n = m)"

lemma nested_empty: "nested empty_heap"
  by (simp add: nested_def empty_heap_def nil_node_def)

lemma nested_keep:
  assumes "nested h" "\<And>n. ngraph (hnode h' n) = ngraph (hnode h n)" "gnext h \<le> gnext h'"
    and "\<And>n g. (ptr (hnode h' n) = PSubflow g) = (ptr (hnode h n) = PSubflow g)"
  shows "nested h'"
  using assms by (auto simp: nested_def) (metis order_less_le_trans)

lemma fold_nested: "(\<And>v h. nested h \<Longrightarrow> nested (f v h)) \<Longrightarrow> nested h \<Longrightarrow> nested (fold f vs h)"
  by (induction vs arbitrary: h) auto

lemma precede_nested: "nested h \<Longrightarrow> nested (precede n v h)"
  by (erule nested_keep) auto

lemma Task_Precede_nested: "nested h \<Longrightarrow> nested (Task_Precede t ts h)"
proof -
  assume n: "nested h"
  have "nested (fold (\<lambda>v. upd_node t (\<lambda>x. x\<lparr>ptr := branch_put v (ptr x)\<rparr>)) ts h)"
    by (rule fold_nested [OF _ n], erule nested_keep) (auto simp: branch_put_def split: node_ptr.splits)
  then show ?thesis
    using fold_nested [of "precede t", OF precede_nested] n by (simp add: Task_Precede_def Let_def split: node_ptr.splits)
qed

text \<open>A new node enters a graph that is older than the graph it may bring.\<close>

lemma graph_push_ptr [simp]:
  "ptr (hnode (graph_push g [n] h) m) = ptr (hnode h m)" "gnext (graph_push g [n] h) = gnext h"
  "ngraph (hnode (graph_push g [n] h) m) = (if m = n then g else ngraph (hnode h m))"
  by (auto simp: graph_push_def)

lemma push_nested:
  assumes "nested h" "\<And>g'. ptr (hnode h n) = PSubflow g' \<Longrightarrow> g < g'"
  shows "nested (graph_push g [n] h)"
  using assms by (auto simp: nested_def)

lemma subflow_call_nested:
  assumes w: "wf_heap h" and n: "nested h" and g: "g < gnext h"
  shows "nested (subflow_call g c h)"
proof -
  have nil: "ptr (hnode h (nnext h)) = PNil" using wf_heapD(7) [OF w] by (simp add: nil_node_def)
  show ?thesis
  proof (cases c)
    case (BTask name ns)
    have "nested (snd (NewStatic name ns h))"
      by (rule nested_keep [OF n]) (use wf_heapD(7) [OF w] in \<open>auto simp: NewStatic_def newNode_def Let_def nil_node_def\<close>)
    then show ?thesis
      using BTask by (auto simp: case_prod_unfold Let_def intro!: push_nested simp: NewStatic_def newNode_def)
  next
    case (BCondition name ns)
    have "nested (snd (NewCondition name ns h))"
      by (rule nested_keep [OF n]) (use wf_heapD(7) [OF w] in \<open>auto simp: NewCondition_def newNode_def Let_def nil_node_def\<close>)
    then show ?thesis
      using BCondition by (auto simp: case_prod_unfold Let_def intro!: push_nested simp: NewCondition_def newNode_def)
  next
    case (BSubflow name ns)
    have less: "ptr (hnode h m) = PSubflow k \<Longrightarrow> k < gnext h \<and> ngraph (hnode h m) < k" for m k
      using n by (simp add: nested_def)
    have un: "ptr (hnode h m) = PSubflow k \<Longrightarrow> ptr (hnode h m') = PSubflow k \<Longrightarrow> m = m'" for m m' k
      using n by (simp add: nested_def)
    have no: "ptr (hnode h m) \<noteq> PSubflow (gnext h)" for m using less by blast
    have "nested (snd (NewSubflow name ns h))"
      using wf_heapD(5) [OF w] un less no
      by (auto simp: nested_def NewSubflow_def newNode_def newGraph_def Let_def nil_node_def less_Suc_eq)
    then show ?thesis
      using BSubflow g
      by (auto simp: case_prod_unfold Let_def intro!: push_nested simp: NewSubflow_def newNode_def newGraph_def)
  next
    case (BPrecede t ts)
    then show ?thesis using Task_Precede_nested [OF n] by simp
  next
    case (BSucceed t ts)
    then show ?thesis using fold_nested [of "\<lambda>v. precede v t", OF precede_nested n] by (simp add: Task_Succeed_def)
  next
    case (BPriority t p)
    then show ?thesis by (auto simp: Task_Priority_def intro!: nested_keep [OF n] split: if_splits)
  qed
qed

lemma built_nested: "built h \<Longrightarrow> nested h"
proof (induction rule: built.induct)
  case empty
  show ?case by (rule nested_empty)
next
  case (flow h name t h')
  then have "h' = snd (NewTaskFlow name h)" by simp
  then show ?case
    by (auto simp: NewTaskFlow_def newGraph_def Let_def intro!: nested_keep [OF flow.IH])
next
  case (reset h t)
  then show ?case by (auto simp: TaskFlow_Reset_def intro!: nested_keep [OF reset.IH])
next
  case (tf_call h t c h')
  then show ?case using subflow_call_nested [OF built_wf_heap] taskflow_call_Inr by blast
next
  case (sf_call h g c)
  then show ?case using subflow_call_nested [OF built_wf_heap] by blast
qed

text \<open>Every node the API has made has a payload.\<close>

definition payloads :: "heap \<Rightarrow> bool" where
  "payloads h \<longleftrightarrow> (\<forall>n. allocated h n \<longrightarrow> ptr (hnode h n) \<noteq> PNil)"

lemma payloads_keep:
  assumes "payloads h" "\<And>n. (ptr (hnode h' n) = PNil) = (ptr (hnode h n) = PNil)" "nnext h' = nnext h"
  shows "payloads h'"
  using assms by (simp add: payloads_def allocated_def)

lemma fold_payloads: "(\<And>v h. payloads h \<Longrightarrow> payloads (f v h)) \<Longrightarrow> payloads h \<Longrightarrow> payloads (fold f vs h)"
  by (induction vs arbitrary: h) auto

lemma precede_payloads: "payloads h \<Longrightarrow> payloads (precede n v h)"
  by (erule payloads_keep) auto

lemma graph_push_nnext [simp]: "nnext (graph_push g [n] h) = nnext h"
  by (simp add: graph_push_def)

lemma subflow_call_payloads:
  assumes p: "payloads h"
  shows "payloads (subflow_call g c h)"
proof (cases c)
  case (BPrecede t ts)
  have "payloads (fold (\<lambda>v. upd_node t (\<lambda>x. x\<lparr>ptr := branch_put v (ptr x)\<rparr>)) ts h)"
    by (rule fold_payloads [OF _ p], erule payloads_keep) (auto simp: branch_put_def split: node_ptr.splits)
  then have "payloads (Task_Precede t ts h)"
    using fold_payloads [of "precede t", OF precede_payloads] p by (simp add: Task_Precede_def Let_def split: node_ptr.splits)
  with BPrecede show ?thesis by simp
next
  case (BSucceed t ts)
  have "payloads (fold (\<lambda>v. precede v t) ts h)" by (rule fold_payloads [OF precede_payloads p])
  with BSucceed show ?thesis by (simp add: Task_Succeed_def)
next
  case (BPriority t p)
  with assms show ?thesis by (auto simp: Task_Priority_def elim!: payloads_keep split: if_splits)
qed (use p in \<open>auto simp: payloads_def allocated_def case_prod_unfold Let_def NewStatic_def NewSubflow_def
    NewCondition_def newNode_def newGraph_def less_Suc_eq\<close>)

lemma built_payloads: "built h \<Longrightarrow> payloads h"
proof (induction rule: built.induct)
  case empty
  show ?case by (simp add: payloads_def allocated_def empty_heap_def)
next
  case (flow h name t h')
  then have "h' = snd (NewTaskFlow name h)" by simp
  then show ?case by (auto simp: NewTaskFlow_def newGraph_def Let_def intro!: payloads_keep [OF flow.IH])
next
  case (reset h t)
  then show ?case by (auto simp: TaskFlow_Reset_def intro!: payloads_keep [OF reset.IH])
next
  case (tf_call h t c h')
  then show ?case using subflow_call_payloads taskflow_call_Inr by blast
next
  case (sf_call h g c)
  then show ?case using subflow_call_payloads by blast
qed

section \<open>What \<open>walk\<close> visits\<close>

text \<open>The nodes of a graph and of the instantiated subflows inside it.\<close>

inductive inside :: "heap \<Rightarrow> gid \<Rightarrow> nid \<Rightarrow> bool" for h g where
  own: "m \<in> set (gnodes (hgraph h g)) \<Longrightarrow> inside h g m"
| sub: "inside h g n \<Longrightarrow> ptr (hnode h n) = PSubflow k \<Longrightarrow> k \<noteq> 0 \<Longrightarrow> instantiated (hgraph h k) \<Longrightarrow>
    m \<in> set (gnodes (hgraph h k)) \<Longrightarrow> inside h g m"

definition owned :: "heap \<Rightarrow> bool" where
  "owned h \<longleftrightarrow> nested h \<and> (\<forall>g. distinct (gnodes (hgraph h g))) \<and>
     (\<forall>g. \<forall>n \<in> set (gnodes (hgraph h g)). ngraph (hnode h n) = g)"

lemma ownedD:
  assumes "owned h"
  shows "n \<in> set (gnodes (hgraph h g)) \<Longrightarrow> ngraph (hnode h n) = g" "distinct (gnodes (hgraph h g))"
    "ptr (hnode h n) = PSubflow g \<Longrightarrow> ngraph (hnode h n) < g \<and> g < gnext h"
    "ptr (hnode h n) = PSubflow g \<Longrightarrow> ptr (hnode h m) = PSubflow g \<Longrightarrow> n = m"
  using assms by (simp_all add: owned_def nested_def)

definition enters :: "heap \<Rightarrow> nid \<Rightarrow> gid \<Rightarrow> bool" where
  "enters h n k \<longleftrightarrow> ptr (hnode h n) = PSubflow k \<and> k \<noteq> 0 \<and> instantiated (hgraph h k)"

lemma inside_enter: "inside h k m \<Longrightarrow> n \<in> set (gnodes (hgraph h g)) \<Longrightarrow> enters h n k \<Longrightarrow> inside h g m"
  by (induction rule: inside.induct) (auto simp: enters_def intro: inside.intros)

lemma inside_cases:
  "inside h g m \<Longrightarrow> m \<in> set (gnodes (hgraph h g)) \<or> (\<exists>n \<in> set (gnodes (hgraph h g)). \<exists>k. enters h n k \<and> inside h k m)"
  by (induction rule: inside.induct) (auto simp: enters_def intro: inside.intros)

lemma inside_ge:
  assumes "owned h"
  shows "inside h g m \<Longrightarrow> g \<le> ngraph (hnode h m)"
proof (induction rule: inside.induct)
  case (own m)
  then show ?case using ownedD(1) [OF assms] by simp
next
  case (sub n k m)
  then have "ngraph (hnode h n) < k" "ngraph (hnode h m) = k" using ownedD(1,3) [OF assms] by blast+
  with sub.IH show ?case by simp
qed

lemma inside_chain:
  assumes "owned h"
  shows "inside h a m \<Longrightarrow> inside h b m \<Longrightarrow>
    a = b \<or> (\<exists>n. ptr (hnode h n) = PSubflow b \<and> inside h a n) \<or> (\<exists>n. ptr (hnode h n) = PSubflow a \<and> inside h b n)"
proof (induction rule: inside.induct)
  case (own m)
  from own.prems show ?case
  proof cases
    case own
    then show ?thesis using \<open>m \<in> set (gnodes (hgraph h a))\<close> ownedD(1) [OF assms] by metis
  next
    case (sub n k)
    then have "k = a" using \<open>m \<in> set (gnodes (hgraph h a))\<close> ownedD(1) [OF assms] by metis
    with sub show ?thesis by blast
  qed
next
  case (sub n k m)
  from sub.prems show ?case
  proof cases
    case own
    then have "b = k" using sub.hyps ownedD(1) [OF assms] by metis
    with sub.hyps show ?thesis by blast
  next
    case (sub n' k')
    then have "k' = k" using \<open>m \<in> set (gnodes (hgraph h k))\<close> ownedD(1) [OF assms] by metis
    then have "n' = n" using sub \<open>ptr (hnode h n) = PSubflow k\<close> ownedD(4) [OF assms] by blast
    with sub \<open>inside h b n \<Longrightarrow> _\<close> show ?thesis by blast
  qed
qed

lemma subflows_disjoint:
  assumes o: "owned h" and n: "n1 \<in> set (gnodes (hgraph h g))" "n2 \<in> set (gnodes (hgraph h g))" "n1 \<noteq> n2"
    and k: "enters h n1 k1" "enters h n2 k2" and m: "inside h k1 m"
  shows "\<not> inside h k2 m"
proof
  assume m2: "inside h k2 m"
  have p: "ptr (hnode h n1) = PSubflow k1" "ptr (hnode h n2) = PSubflow k2" using k by (simp_all add: enters_def)
  have lt: "g < k1" "g < k2" using ownedD(3) [OF o p(1)] ownedD(3) [OF o p(2)] ownedD(1) [OF o] n by auto
  from inside_chain [OF o m m2] consider "k1 = k2" | i where "ptr (hnode h i) = PSubflow k2" "inside h k1 i"
    | i where "ptr (hnode h i) = PSubflow k1" "inside h k2 i" by blast
  then show False
  proof cases
    case 1
    with p n(3) ownedD(4) [OF o] show ?thesis by blast
  next
    case 2
    then have "inside h k1 n2" using p(2) ownedD(4) [OF o] by blast
    then show ?thesis using inside_ge [OF o] ownedD(1) [OF o n(2)] lt by force
  next
    case 3
    then have "inside h k2 n1" using p(1) ownedD(4) [OF o] by blast
    then show ?thesis using inside_ge [OF o] ownedD(1) [OF o n(1)] lt by force
  qed
qed

lemma walk_nodes_step:
  "walk_nodes h [] = Some []"
  "enters h n k \<Longrightarrow> walk_nodes h (n # ns) =
     do { xs \<leftarrow> graph_walk h k; ys \<leftarrow> walk_nodes h ns; Some (n # xs @ ys) }"
  "(\<And>k. \<not> enters h n k) \<Longrightarrow> walk_nodes h (n # ns) = do { ys \<leftarrow> walk_nodes h ns; Some (n # ys) }"
  by (subst walk_nodes.simps, auto simp: enters_def graph_walk_def split: node_ptr.splits)+

lemma walk_visits_inside:
  assumes o: "owned h"
  shows "\<exists>xs. graph_walk h g = Some xs \<and> distinct xs \<and> set xs = {m. inside h g m}"
proof (induction "gnext h - g" arbitrary: g rule: less_induct)
  case less
  have list: "\<exists>xs. walk_nodes h ns = Some xs \<and> distinct xs \<and>
      set xs = {m. \<exists>n \<in> set ns. m = n \<or> (\<exists>k. enters h n k \<and> inside h k m)}"
    if "set ns \<subseteq> set (gnodes (hgraph h g))" "distinct ns" for ns
    using that
  proof (induction ns)
    case Nil
    then show ?case by (simp add: walk_nodes_step)
  next
    case (Cons n ns)
    then obtain ys where ys: "walk_nodes h ns = Some ys" "distinct ys"
      "set ys = {m. \<exists>n \<in> set ns. m = n \<or> (\<exists>k. enters h n k \<and> inside h k m)}" by auto
    have ng: "ngraph (hnode h n') = g" if "n' \<in> set (n # ns)" for n'
      using Cons.prems(1) that ownedD(1) [OF o] by blast
    have above: "\<not> inside h k n'" if "n' \<in> set (n # ns)" "enters h n'' k" "n'' \<in> set (n # ns)" for n' n'' k
      using inside_ge [OF o, of k n'] ownedD(3) [OF o, of n'' k] ng that by (force simp: enters_def)
    have nys: "n \<notin> set ys" using Cons.prems(2) above [of n] by (auto simp: ys(3))
    show ?case
    proof (cases "\<exists>k. enters h n k")
      case True
      then obtain k where k: "enters h n k" ..
      have uk: "enters h n k' \<longleftrightarrow> k' = k" for k' using k by (auto simp: enters_def)
      have "g < k \<and> k < gnext h" using ownedD(3) [OF o, of n k] k ng [of n] by (simp add: enters_def)
      then obtain xs where xs: "graph_walk h k = Some xs" "distinct xs" "set xs = {m. inside h k m}"
        using less.hyps [of k] by (auto simp: diff_less_mono2)
      have "m \<notin> set ys" if "inside h k m" for m
      proof
        assume "m \<in> set ys"
        then obtain n' where n': "n' \<in> set ns" "m = n' \<or> (\<exists>k'. enters h n' k' \<and> inside h k' m)"
          by (auto simp: ys(3))
        then show False
          using that above [of n' n k] k subflows_disjoint [OF o, of n g n'] Cons.prems by auto
      qed
      moreover have "n \<notin> set xs" using above [of n n k] k by (simp add: xs(3))
      ultimately show ?thesis
        using xs ys nys uk by (auto simp: walk_nodes_step(2) [OF k])
    next
      case False
      then show ?thesis using ys nys by (auto simp: walk_nodes_step(3))
    qed
  qed
  have "{m. \<exists>n \<in> set (gnodes (hgraph h g)). m = n \<or> (\<exists>k. enters h n k \<and> inside h k m)} = {m. inside h g m}"
    using inside_cases [of h g] inside_enter [of h _ _ _ g] inside.own [of _ h g] by blast
  with list [OF order_refl ownedD(2) [OF o]] show ?case by (simp add: graph_walk_def)
qed

text \<open>The flags that say which subflows have been instantiated do not matter.\<close>

definition instantiate :: "(gid \<Rightarrow> bool) \<Rightarrow> heap \<Rightarrow> heap" where
  "instantiate I h = h\<lparr>hgraph := (\<lambda>g. (hgraph h g)\<lparr>instantiated := I g\<rparr>)\<rparr>"

lemma built_owned: "built h \<Longrightarrow> owned (instantiate I h)"
  using wf_heapD(10,11) [OF built_wf_heap] built_nested by (simp add: owned_def nested_def instantiate_def)

text \<open>(C33) \<open>walk\<close> returns, and visits every node of the graph and of the instantiated subflows inside
  it exactly once, for every flow built with the API and whichever of its subflows have been
  instantiated.\<close>

theorem walk_visits_once:
  assumes "built h"
  shows "\<exists>xs. graph_walk (instantiate I h) g = Some xs \<and> distinct xs \<and>
    set xs = {m. inside (instantiate I h) g m}"
  by (rule walk_visits_inside [OF built_owned [OF assms]])

text \<open>A flow with a task and a subflow of one task, for the witnesses.\<close>

definition one_subflow :: heap where
  "one_subflow = subflow_call 2 (BTask ''c'' 0) (subflow_call 1 (BSubflow ''s'' 0)
     (subflow_call 1 (BTask ''a'' 0) (snd (NewTaskFlow ''tf'' empty_heap))))"

lemma one_subflow_built: "built one_subflow"
  unfolding one_subflow_def
  by (intro built.sf_call flow_started)
     (simp_all add: NewTaskFlow_def newGraph_def NewStatic_def NewSubflow_def newNode_def graph_push_def
        empty_heap_def allocated_def Let_def)

lemma walk_visits_once_witness:
  "(\<exists>xs. graph_walk (instantiate (\<lambda>_. True) one_subflow) 1 = Some xs \<and> distinct xs \<and> 3 \<in> set xs) \<and>
   (\<exists>xs. graph_walk (instantiate (\<lambda>_. False) one_subflow) 1 = Some xs \<and> distinct xs)"
proof -
  let ?h = "instantiate (\<lambda>_. True) one_subflow"
  have g: "gnodes (hgraph ?h 1) = [1, 2] \<and> gnodes (hgraph ?h 2) = [3] \<and> ptr (hnode ?h 2) = PSubflow 2 \<and>
      instantiated (hgraph ?h 2)"
    by (simp add: instantiate_def one_subflow_def NewTaskFlow_def newGraph_def NewStatic_def NewSubflow_def newNode_def
        graph_push_def empty_heap_def nil_node_def nil_graph_def Let_def)
  then have "inside ?h 1 2" by (intro inside.own) simp
  then have "inside ?h 1 3" by (rule inside.sub [where k = 2]) (use g in simp_all)
  then show ?thesis
    using walk_visits_once [OF one_subflow_built, of "\<lambda>_. True" 1]
      walk_visits_once [OF one_subflow_built, of "\<lambda>_. False" 1] by auto
qed

end
