(* ===== verification/Validator.thy ===== *)
theory Validator
  imports Observer Graph_Walk
begin

text \<open>
  The validator of \<open>validator.go\<close>: a trace record is compared with the flow it was recorded from. The
  flow must have been walked to its end (\<open>Graph_Walk\<close>). A Go map is an association list, and the order
  of a \<open>range\<close> over a map, which the language leaves open, is an argument: \<open>r k keys\<close> is the order the
  \<open>k\<close>-th \<open>range\<close> statement takes. The properties hold for every such order.
\<close>

section \<open>The code\<close>

record dependency_error =
  etask :: string
  expectedDeps :: "string list"
  actualDeps :: "string list"

record validation_result =
  valid :: bool
  missingTasks :: "string list"
  unexpectedTasks :: "string list"
  dependencyErrors :: "dependency_error list"
  skippedBranches :: "string list"

definition passed :: validation_result where
  "passed = \<lparr>valid = True, missingTasks = [], unexpectedTasks = [], dependencyErrors = [], skippedBranches = []\<rparr>"

text \<open>\<open>strings.Split(raw, ",")\<close>.\<close>

fun split_comma :: "string \<Rightarrow> string list" where
  "split_comma [] = [[]]"
| "split_comma (c # cs) =
     (if c = CHR '','' then [] # split_comma cs
      else (case split_comma cs of [] \<Rightarrow> [[c]] | d # ds \<Rightarrow> (c # d) # ds))"

text \<open>\<open>stringSliceEqual\<close>: count the strings of one slice, take those of the other out of the counts.\<close>

fun take_out :: "(string \<Rightarrow> int) \<Rightarrow> string list \<Rightarrow> bool" where
  "take_out cnt [] = True"
| "take_out cnt (s # ss) =
     (let cnt' = cnt(s := cnt s - 1) in if cnt' s < 0 then False else take_out cnt' ss)"

definition stringSliceEqual :: "string list \<Rightarrow> string list \<Rightarrow> bool" where
  "stringSliceEqual a b =
     (if length a \<noteq> length b then False
      else take_out (fold (\<lambda>s cnt. cnt(s := cnt s + 1)) a (\<lambda>_. 0)) b)"

type_synonym ranging = "nat \<Rightarrow> string list \<Rightarrow> string list"
type_synonym expected = "(string \<times> nid) list"
type_synonym executed = "(string \<times> trace_event) list"

definition range_map :: "ranging \<Rightarrow> nat \<Rightarrow> (string \<times> 'b) list \<Rightarrow> (string \<times> 'b) list" where
  "range_map r k m = map (\<lambda>name. (name, the (map_of m name))) (r k (map fst m))"

definition ran :: "executed \<Rightarrow> string \<Rightarrow> bool" where
  "ran exd name \<longleftrightarrow> map_of exd name \<noteq> None"

text \<open>Step 1 and step 2: later nodes and later events of a name replace earlier ones.\<close>

definition expected_map :: "heap \<Rightarrow> nid list \<Rightarrow> expected" where
  "expected_map h ns = fold (\<lambda>n. AList.update (nname (hnode h n)) n) ns []"

definition executed_map :: "trace_event list \<Rightarrow> executed" where
  "executed_map rec = fold (\<lambda>ev. AList.update (eName ev) ev) rec []"

text \<open>Step 3: the direct branches of conditions, the repeated pass over the successors of skipped
  tasks, and the verdict on each task that did not run.\<close>

definition mark_branches :: "heap \<Rightarrow> executed \<Rightarrow> (string \<times> nid) list \<Rightarrow> string list" where
  "mark_branches h exd es =
     fold (\<lambda>(name, node) sk. if \<not> ran exd name \<and> hasCondPredecessor h node then List.insert name sk else sk) es []"

definition spread_one :: "heap \<Rightarrow> executed \<Rightarrow> string \<times> nid \<Rightarrow> string list \<times> bool \<Rightarrow> string list \<times> bool" where
  "spread_one h exd e st =
     (case (e, st) of ((name, node), (sk, changed)) \<Rightarrow>
        if ran exd name \<or> name \<in> set sk then (sk, changed)
        else if list_ex (\<lambda>dep. Typ (hnode h dep) \<noteq> nodeCondition \<and> nname (hnode h dep) \<in> set sk)
                  (dependents (hnode h node))
        then (List.insert name sk, True) else (sk, changed))"

partial_function (option) spread ::
    "heap \<Rightarrow> executed \<Rightarrow> expected \<Rightarrow> ranging \<Rightarrow> nat \<Rightarrow> string list \<Rightarrow> string list option" where
  "spread h exd expd r k sk =
     (let (sk', changed) = fold (spread_one h exd) (range_map r k expd) (sk, False)
      in if changed then spread h exd expd r (k + 1) sk' else Some sk')"

declare spread.simps [code]

definition check_missing :: "executed \<Rightarrow> string list \<Rightarrow> (string \<times> nid) list \<Rightarrow> validation_result \<Rightarrow> validation_result" where
  "check_missing exd sk es res =
     fold (\<lambda>(name, node) res.
         if ran exd name then res
         else if name \<in> set sk then res\<lparr>skippedBranches := skippedBranches res @ [name]\<rparr>
         else res\<lparr>missingTasks := missingTasks res @ [name], valid := False\<rparr>) es res"

text \<open>Step 4: the unexpected tasks. Step 5: the dependencies of each task that ran.\<close>

definition check_unexpected :: "expected \<Rightarrow> (string \<times> trace_event) list \<Rightarrow> validation_result \<Rightarrow> validation_result" where
  "check_unexpected expd xs res =
     fold (\<lambda>(name, ev) res.
         if map_of expd name = None
         then res\<lparr>unexpectedTasks := unexpectedTasks res @ [name], valid := False\<rparr> else res) xs res"

definition exp_deps :: "heap \<Rightarrow> executed \<Rightarrow> nid \<Rightarrow> string list" where
  "exp_deps h exd node = filter (ran exd) (map (\<lambda>dep. nname (hnode h dep)) (dependents (hnode h node)))"

definition raw_deps :: "trace_event \<Rightarrow> string" where
  "raw_deps ev = (case map_of (eArgs ev) ''dependents'' of None \<Rightarrow> '''' | Some raw \<Rightarrow> raw)"

definition act_deps :: "executed \<Rightarrow> trace_event \<Rightarrow> string list" where
  "act_deps exd ev = (if raw_deps ev \<noteq> '''' then filter (ran exd) (split_comma (raw_deps ev)) else [])"

definition check_deps ::
    "heap \<Rightarrow> expected \<Rightarrow> executed \<Rightarrow> (string \<times> trace_event) list \<Rightarrow> validation_result \<Rightarrow> validation_result" where
  "check_deps h expd exd xs res =
     fold (\<lambda>(name, ev) res.
         case map_of expd name of None \<Rightarrow> res
         | Some node \<Rightarrow>
             if stringSliceEqual (exp_deps h exd node) (act_deps exd ev) then res
             else res\<lparr>dependencyErrors := dependencyErrors res @
                    [\<lparr>etask = name, expectedDeps = exp_deps h exd node, actualDeps = act_deps exd ev\<rparr>],
                  valid := False\<rparr>) xs res"

definition validator_run :: "ranging \<Rightarrow> heap \<Rightarrow> trace_event list \<Rightarrow> gid \<Rightarrow> validation_result option" where
  "validator_run r h rec g =
     do { ns \<leftarrow> graph_walk h g;
          let expd = expected_map h ns;
          let exd = executed_map rec;
          sk \<leftarrow> spread h exd expd r 4 (mark_branches h exd (range_map r 0 expd));
          let res = check_missing exd sk (range_map r 1 expd) passed;
          let res = check_unexpected expd (range_map r 2 exd) res;
          Some (check_deps h expd exd (range_map r 3 exd) res) }"

definition validate :: "ranging \<Rightarrow> heap \<Rightarrow> trace_event list option \<Rightarrow> tfid \<Rightarrow> validation_result option" where
  "validate r h rec tf =
     (case rec of None \<Rightarrow> Some passed | Some evs \<Rightarrow> validator_run r h evs (graph (hflow h tf)))"

section \<open>Comparing slices and splitting names\<close>

lemma take_out_iff:
  "(\<And>s. 0 \<le> cnt s) \<Longrightarrow> take_out cnt b \<longleftrightarrow> (\<forall>s. int (count_list b s) \<le> cnt s)"
proof (induction b arbitrary: cnt)
  case (Cons x b)
  show ?case
  proof (cases "cnt x - 1 < 0")
    case True
    then have "\<not> int (count_list (x # b) x) \<le> cnt x" by simp
    with True show ?thesis by (auto simp del: count_list.simps)
  next
    case False
    then have "take_out (cnt(x := cnt x - 1)) b \<longleftrightarrow> (\<forall>s. int (count_list b s) \<le> (cnt(x := cnt x - 1)) s)"
      using Cons.prems by (intro Cons.IH) simp
    also have "\<dots> \<longleftrightarrow> (\<forall>s. int (count_list (x # b) s) \<le> cnt s)" by (force split: if_splits)
    finally show ?thesis using False by simp
  qed
qed simp

lemma fold_count: "fold (\<lambda>s cnt. cnt(s := cnt s + 1)) a c = (\<lambda>s. c s + int (count_list a s))"
  by (induction a arbitrary: c) (auto simp: fun_eq_iff)

lemma slice_equal_iff: "stringSliceEqual a b \<longleftrightarrow> mset a = mset b"
proof -
  have "stringSliceEqual a b \<longleftrightarrow> length a = length b \<and> (\<forall>s. count_list b s \<le> count_list a s)"
    by (simp add: stringSliceEqual_def fold_count take_out_iff)
  also have "(\<forall>s. count_list b s \<le> count_list a s) \<longleftrightarrow> mset b \<subseteq># mset a"
    by (simp add: subseteq_mset_def count_mset)
  also have "length a = length b \<and> mset b \<subseteq># mset a \<longleftrightarrow> mset a = mset b"
    by (metis mset_subset_size size_mset subset_mset.le_less subset_mset.order_refl less_irrefl mset_eq_length)
  finally show ?thesis .
qed

text \<open>\<open>stringSliceEqual\<close> compares its arguments as bags: its two loops over counts are the
  equality of the multisets.\<close>

lemma stringSliceEqual_mset: "stringSliceEqual a b \<longleftrightarrow> mset a = mset b"
  by (rule slice_equal_iff)

lemma split_comma_plain: "CHR '','' \<notin> set d \<Longrightarrow> split_comma d = [d]"
  by (induction d) auto

lemma split_comma_append:
  "CHR '','' \<notin> set d \<Longrightarrow> split_comma (d @ CHR '','' # s) = d # split_comma s"
  by (induction d) auto

lemma split_join_names:
  assumes "ds \<noteq> []" "\<And>d. d \<in> set ds \<Longrightarrow> CHR '','' \<notin> set d"
  shows "split_comma (join_comma ds) = ds"
  using assms by (induction ds rule: join_comma.induct) (auto simp: split_comma_plain split_comma_append)

text \<open>The dependencies of a task survive the trace: splitting the joined string at its commas
  gives the names back, provided no name contains a comma.\<close>

lemma split_join:
  assumes "ds \<noteq> []" "\<And>d. d \<in> set ds \<Longrightarrow> CHR '','' \<notin> set d"
  shows "split_comma (join_comma ds) = ds"
  using assms by (rule split_join_names)

lemma split_join_example: "split_comma (join_comma [''a'', ''bc'', '''']) = [''a'', ''bc'', '''']"
  by (rule split_join) auto

section \<open>The maps and their iteration\<close>

definition is_ranging :: "ranging \<Rightarrow> bool" where
  "is_ranging r \<longleftrightarrow> (\<forall>k keys. mset (r k keys) = mset keys)"

lemma is_rangingD:
  assumes "is_ranging r"
  shows "set (r k keys) = set keys" "distinct (r k keys) = distinct keys"
  using assms mset_eq_setD mset_eq_imp_distinct_iff unfolding is_ranging_def by blast+

text \<open>The node a name stands for: the last of that name. The event of a name: the last.\<close>

definition named :: "heap \<Rightarrow> nid list \<Rightarrow> string \<Rightarrow> nid option" where
  "named h ns name = List.find (\<lambda>n. nname (hnode h n) = name) (rev ns)"

definition recorded_as :: "trace_event list \<Rightarrow> string \<Rightarrow> trace_event option" where
  "recorded_as rec name = List.find (\<lambda>ev. eName ev = name) (rev rec)"

lemma find_append: "List.find P (xs @ ys) = (case List.find P xs of None \<Rightarrow> List.find P ys | Some x \<Rightarrow> Some x)"
  by (induction xs) auto

lemma fold_update_map:
  "map_of (fold (\<lambda>x. AList.update (f x) x) xs al) k =
     (case List.find (\<lambda>x. f x = k) (rev xs) of None \<Rightarrow> map_of al k | Some x \<Rightarrow> Some x)"
  "distinct (map fst al) \<Longrightarrow> distinct (map fst (fold (\<lambda>x. AList.update (f x) x) xs al))"
  by (induction xs arbitrary: al) (auto simp: find_append update_conv distinct_update split: option.splits)

lemma expected_map_simps: "map_of (expected_map h ns) = named h ns" "distinct (map fst (expected_map h ns))"
  by (simp_all add: expected_map_def named_def fold_update_map fun_eq_iff split: option.splits)

lemma executed_map_simps: "map_of (executed_map rec) = recorded_as rec" "distinct (map fst (executed_map rec))"
  by (simp_all add: executed_map_def recorded_as_def fold_update_map fun_eq_iff split: option.splits)

lemma ran_iff: "ran (executed_map rec) name \<longleftrightarrow> name \<in> eName ` set rec"
  by (auto simp: ran_def executed_map_simps recorded_as_def find_None_iff2 [symmetric] find_None_iff split: option.splits)

lemma range_map_simps:
  assumes r: "is_ranging r" and d: "distinct (map fst m)"
  shows "set (range_map r k m) = {(name, x). map_of m name = Some x}" "distinct (map fst (range_map r k m))"
    "set (map fst (range_map r k m)) = dom (map_of m)"
proof -
  have "set (r k (map fst m)) = dom (map_of m)" using is_rangingD(1) [OF r] by (simp add: dom_map_of_conv_image_fst)
  then show "set (range_map r k m) = {(name, x). map_of m name = Some x}"
    "set (map fst (range_map r k m)) = dom (map_of m)"
    by (auto simp: range_map_def)
  show "distinct (map fst (range_map r k m))"
    using is_rangingD(2) [OF r] d by (simp add: range_map_def comp_def)
qed

section \<open>The skipped tasks\<close>

text \<open>What the comments of the source say: a task that did not run is skipped when it is a branch of a
  condition, or when some other predecessor is skipped.\<close>

inductive skippable :: "heap \<Rightarrow> (string \<rightharpoonup> nid) \<Rightarrow> (string \<Rightarrow> bool) \<Rightarrow> string \<Rightarrow> bool" for h node executed where
  branch: "node name = Some n \<Longrightarrow> \<not> executed name \<Longrightarrow> hasCondPredecessor h n \<Longrightarrow> skippable h node executed name"
| follows: "node name = Some n \<Longrightarrow> \<not> executed name \<Longrightarrow> dep \<in> set (dependents (hnode h n)) \<Longrightarrow>
    Typ (hnode h dep) \<noteq> nodeCondition \<Longrightarrow> skippable h node executed (nname (hnode h dep)) \<Longrightarrow>
    skippable h node executed name"

lemma mark_branches_set:
  "set (mark_branches h exd es) = {name. \<exists>n. (name, n) \<in> set es \<and> \<not> ran exd name \<and> hasCondPredecessor h n}"
proof -
  have "set (fold (\<lambda>(name, node) sk. if \<not> ran exd name \<and> hasCondPredecessor h node then List.insert name sk else sk) es sk) =
      set sk \<union> {name. \<exists>n. (name, n) \<in> set es \<and> \<not> ran exd name \<and> hasCondPredecessor h n}" for sk
    by (induction es arbitrary: sk) (auto split: if_splits)
  then show ?thesis by (simp add: mark_branches_def)
qed

text \<open>A node whose dependents put it among the skipped tasks.\<close>

definition drawn :: "heap \<Rightarrow> string set \<Rightarrow> nid \<Rightarrow> bool" where
  "drawn h S n \<longleftrightarrow> (\<exists>dep \<in> set (dependents (hnode h n)). Typ (hnode h dep) \<noteq> nodeCondition \<and> nname (hnode h dep) \<in> S)"

lemma spread_one_eq:
  "spread_one h exd (name, n) (sk, ch) =
     (if \<not> ran exd name \<and> name \<notin> set sk \<and> drawn h (set sk) n then (List.insert name sk, True) else (sk, ch))"
  by (auto simp: spread_one_def drawn_def list_ex_iff)

lemma spread_pass:
  "fold (spread_one h exd) es (sk, ch) = (sk', ch') \<Longrightarrow>
     set sk \<subseteq> set sk' \<and> set sk' \<subseteq> set sk \<union> fst ` set es \<and> (ch \<longrightarrow> ch') \<and> (ch' \<and> \<not> ch \<longrightarrow> set sk \<noteq> set sk') \<and>
     (\<not> ch' \<longrightarrow> sk' = sk \<and> (\<forall>(name, n) \<in> set es. \<not> ran exd name \<and> drawn h (set sk) n \<longrightarrow> name \<in> set sk)) \<and>
     (\<forall>P. (\<forall>(name, n) \<in> set es. \<not> ran exd name \<and> drawn h P n \<longrightarrow> name \<in> P) \<and> set sk \<subseteq> P \<longrightarrow> set sk' \<subseteq> P)"
proof (induction es arbitrary: sk ch)
  case (Cons e es)
  obtain name n where e: "e = (name, n)" by (cases e)
  have mono: "set sk \<subseteq> P \<Longrightarrow> drawn h (set sk) n \<Longrightarrow> drawn h P n" for P by (auto simp: drawn_def)
  show ?case
  proof (cases "\<not> ran exd name \<and> name \<notin> set sk \<and> drawn h (set sk) n")
    case True
    then have "spread_one h exd e (sk, ch) = (List.insert name sk, True)" by (simp add: e spread_one_eq)
    then have "fold (spread_one h exd) es (List.insert name sk, True) = (sk', ch')" using Cons.prems by simp
    note ih = Cons.IH [OF this]
    have c: "set sk \<subseteq> set sk'" "name \<in> set sk'" "set sk' \<subseteq> set sk \<union> fst ` set (e # es)" "ch'" "set sk \<noteq> set sk'"
      using ih True by (auto simp: e)
    have "set sk' \<subseteq> P" if P: "\<forall>(name, n) \<in> set (e # es). \<not> ran exd name \<and> drawn h P n \<longrightarrow> name \<in> P" "set sk \<subseteq> P" for P
    proof -
      have "set (List.insert name sk) \<subseteq> P" using P True mono by (simp add: e)
      then show ?thesis using ih P(1) by simp
    qed
    with c show ?thesis by blast
  next
    case False
    then have "spread_one h exd e (sk, ch) = (sk, ch)" by (simp only: e spread_one_eq if_False)
    then have "fold (spread_one h exd) es (sk, ch) = (sk', ch')" using Cons.prems by simp
    from Cons.IH [OF this] False show ?thesis by (auto simp: e)
  qed
qed simp

text \<open>The loop ends, and its result is the least set that the pass leaves as it is.\<close>

lemma spread_closure:
  assumes r: "is_ranging r" and d: "distinct (map fst expd)" and m: "map_of expd = node"
  shows "set sk \<subseteq> dom node \<Longrightarrow> \<exists>sk'. spread h exd expd r k sk = Some sk' \<and> set sk \<subseteq> set sk' \<and>
    (\<forall>name n. node name = Some n \<and> \<not> ran exd name \<and> drawn h (set sk') n \<longrightarrow> name \<in> set sk') \<and>
    (\<forall>P. (\<forall>name n. node name = Some n \<and> \<not> ran exd name \<and> drawn h P n \<longrightarrow> name \<in> P) \<and> set sk \<subseteq> P \<longrightarrow> set sk' \<subseteq> P)"
proof (induction "card (dom node - set sk)" arbitrary: k sk rule: less_induct)
  case less
  have fin: "finite (dom node)" using finite_dom_map_of m by blast
  obtain sk1 ch where p: "fold (spread_one h exd) (range_map r k expd) (sk, False) = (sk1, ch)" by fastforce
  note es = range_map_simps [OF r d, of k, unfolded m]
  have fst_es: "fst ` {(name, x). node name = Some x} = dom node" by force
  have sp: "set sk \<subseteq> set sk1" "set sk1 \<subseteq> set sk \<union> dom node" "ch \<Longrightarrow> set sk \<noteq> set sk1"
    "\<not> ch \<Longrightarrow> sk1 = sk \<and> (\<forall>name n. node name = Some n \<and> \<not> ran exd name \<and> drawn h (set sk) n \<longrightarrow> name \<in> set sk)"
    and P1: "\<And>P. \<forall>name n. node name = Some n \<and> \<not> ran exd name \<and> drawn h P n \<longrightarrow> name \<in> P \<Longrightarrow> set sk \<subseteq> P \<Longrightarrow> set sk1 \<subseteq> P"
    using spread_pass [OF p, unfolded es fst_es] by auto
  show ?case
  proof (cases ch)
    case True
    have sub: "set sk \<subset> set sk1" "set sk1 \<subseteq> dom node" using sp(1,2) sp(3) [OF True] less.prems by auto
    then have "card (dom node - set sk1) < card (dom node - set sk)"
      using fin less.prems by (intro psubset_card_mono) auto
    from less.hyps [OF this sub(2), of "k + 1"] obtain sk' where
      "spread h exd expd r (k + 1) sk1 = Some sk'" "set sk1 \<subseteq> set sk'"
      "\<forall>name n. node name = Some n \<and> \<not> ran exd name \<and> drawn h (set sk') n \<longrightarrow> name \<in> set sk'"
      "\<forall>P. (\<forall>name n. node name = Some n \<and> \<not> ran exd name \<and> drawn h P n \<longrightarrow> name \<in> P) \<and> set sk1 \<subseteq> P \<longrightarrow> set sk' \<subseteq> P"
      by blast
    then show ?thesis
      by (intro exI [of _ sk'] conjI) (use p True sub P1 in \<open>auto simp: spread.simps [of h exd expd r k]\<close>)
  next
    case False
    with p have "spread h exd expd r k sk = Some sk1" by (simp add: spread.simps [of h exd expd r k])
    with sp(4) [OF False] show ?thesis by simp
  qed
qed

lemma skippable_named: "skippable h node executed name \<Longrightarrow> name \<in> dom node"
  by (induction rule: skippable.induct) auto

lemma skipped_names:
  assumes r: "is_ranging r"
  shows "\<exists>sk. spread h (executed_map rec) (expected_map h ns) r k
      (mark_branches h (executed_map rec) (range_map r 0 (expected_map h ns))) = Some sk \<and>
    set sk = {name. skippable h (named h ns) (\<lambda>name. name \<in> eName ` set rec) name}"
proof -
  let ?node = "named h ns" and ?exd = "executed_map rec" and ?expd = "expected_map h ns"
  let ?S = "{name. skippable h ?node (\<lambda>name. name \<in> eName ` set rec) name}"
  let ?B = "mark_branches h ?exd (range_map r 0 ?expd)"
  note E = expected_map_simps [of h ns]
  have B: "set ?B = {name. \<exists>n. ?node name = Some n \<and> name \<notin> eName ` set rec \<and> hasCondPredecessor h n}"
    by (simp add: mark_branches_set range_map_simps [OF r E(2)] E(1) ran_iff)
  then have "set ?B \<subseteq> dom ?node" by auto
  from spread_closure [OF r E(2,1) this, of h ?exd k] obtain sk where
    sk: "spread h ?exd ?expd r k ?B = Some sk" "set ?B \<subseteq> set sk"
    and closed: "\<forall>name n. ?node name = Some n \<and> name \<notin> eName ` set rec \<and> drawn h (set sk) n \<longrightarrow> name \<in> set sk"
    and least: "\<And>P. \<forall>name n. ?node name = Some n \<and> name \<notin> eName ` set rec \<and> drawn h P n \<longrightarrow> name \<in> P \<Longrightarrow>
      set ?B \<subseteq> P \<Longrightarrow> set sk \<subseteq> P"
    by (auto simp only: ran_iff)
  have "set sk \<subseteq> ?S"
  proof (rule least)
    show "set ?B \<subseteq> ?S" by (auto simp: B intro: skippable.branch)
    show "\<forall>name n. ?node name = Some n \<and> name \<notin> eName ` set rec \<and> drawn h ?S n \<longrightarrow> name \<in> ?S"
      by (auto simp: drawn_def intro: skippable.follows)
  qed
  moreover have "name \<in> set sk" if "skippable h ?node (\<lambda>name. name \<in> eName ` set rec) name" for name
    using that
  proof (induction rule: skippable.induct)
    case (branch name n)
    then show ?case using sk(2) by (auto simp: B)
  next
    case (follows name n dep)
    then have "drawn h (set sk) n" by (auto simp: drawn_def)
    with follows closed show ?case by blast
  qed
  ultimately show ?thesis using sk(1) by blast
qed

section \<open>The verdict\<close>

lemma check_missing_eq:
  "check_missing exd sk es res = res\<lparr>
     missingTasks := missingTasks res @ filter (\<lambda>name. \<not> ran exd name \<and> name \<notin> set sk) (map fst es),
     skippedBranches := skippedBranches res @ filter (\<lambda>name. \<not> ran exd name \<and> name \<in> set sk) (map fst es),
     valid := valid res \<and> filter (\<lambda>name. \<not> ran exd name \<and> name \<notin> set sk) (map fst es) = []\<rparr>"
  unfolding check_missing_def
  by (induction es arbitrary: res) (auto simp: case_prod_unfold)

lemma check_unexpected_eq:
  "check_unexpected expd xs res = res\<lparr>
     unexpectedTasks := unexpectedTasks res @ filter (\<lambda>name. map_of expd name = None) (map fst xs),
     valid := valid res \<and> filter (\<lambda>name. map_of expd name = None) (map fst xs) = []\<rparr>"
  unfolding check_unexpected_def
  by (induction xs arbitrary: res) (auto simp: case_prod_unfold)

definition deps_differ :: "heap \<Rightarrow> expected \<Rightarrow> executed \<Rightarrow> string \<times> trace_event \<Rightarrow> bool" where
  "deps_differ h expd exd x \<longleftrightarrow>
     (case map_of expd (fst x) of None \<Rightarrow> False
      | Some node \<Rightarrow> mset (exp_deps h exd node) \<noteq> mset (act_deps exd (snd x)))"

definition deps_error :: "heap \<Rightarrow> expected \<Rightarrow> executed \<Rightarrow> string \<times> trace_event \<Rightarrow> dependency_error" where
  "deps_error h expd exd x = \<lparr>etask = fst x, expectedDeps = exp_deps h exd (the (map_of expd (fst x))),
     actualDeps = act_deps exd (snd x)\<rparr>"

lemma check_deps_eq:
  "check_deps h expd exd xs res = res\<lparr>
     dependencyErrors := dependencyErrors res @ map (deps_error h expd exd) (filter (deps_differ h expd exd) xs),
     valid := valid res \<and> filter (deps_differ h expd exd) xs = []\<rparr>"
  unfolding check_deps_def
  by (induction xs arbitrary: res)
     (auto simp: case_prod_unfold deps_differ_def deps_error_def slice_equal_iff split: option.splits)

text \<open>What a record must satisfy, without loops and maps: every task of the flow has an event or may
  have been skipped, every event belongs to a task, and among the names that have events the
  dependents of a task are those its event lists.\<close>

definition listed_deps :: "trace_event \<Rightarrow> string list" where
  "listed_deps ev = (if raw_deps ev = '''' then [] else split_comma (raw_deps ev))"

definition deps_match :: "heap \<Rightarrow> string set \<Rightarrow> nid \<Rightarrow> trace_event \<Rightarrow> bool" where
  "deps_match h E n ev \<longleftrightarrow>
     filter_mset (\<lambda>d. d \<in> E) (mset (getDependentNames h n)) = filter_mset (\<lambda>d. d \<in> E) (mset (listed_deps ev))"

definition may_skip :: "heap \<Rightarrow> nid list \<Rightarrow> trace_event list \<Rightarrow> string \<Rightarrow> bool" where
  "may_skip h ns rec = skippable h (named h ns) (\<lambda>name. name \<in> eName ` set rec)"

definition conforms :: "heap \<Rightarrow> nid list \<Rightarrow> trace_event list \<Rightarrow> bool" where
  "conforms h ns rec \<longleftrightarrow>
     (\<forall>name \<in> dom (named h ns). name \<in> eName ` set rec \<or> may_skip h ns rec name) \<and>
     (\<forall>ev \<in> set rec. eName ev \<in> dom (named h ns)) \<and>
     (\<forall>name n ev. named h ns name = Some n \<and> recorded_as rec name = Some ev \<longrightarrow> deps_match h (eName ` set rec) n ev)"

lemma deps_differ_iff:
  "deps_differ h (expected_map h ns) (executed_map rec) (name, ev) \<longleftrightarrow>
     (\<exists>n. named h ns name = Some n \<and> \<not> deps_match h (eName ` set rec) n ev)"
  by (auto simp: deps_differ_def expected_map_simps deps_match_def exp_deps_def act_deps_def listed_deps_def
      getDependentNames_def ran_iff mset_filter split: option.splits)

lemma validator_result:
  assumes r: "is_ranging r" and w: "graph_walk h g = Some ns"
  obtains res where "validator_run r h rec g = Some res"
    "set (missingTasks res) = {name \<in> dom (named h ns). name \<notin> eName ` set rec \<and> \<not> may_skip h ns rec name}"
    "set (skippedBranches res) = {name. may_skip h ns rec name}"
    "set (unexpectedTasks res) = eName ` set rec - dom (named h ns)"
    "etask ` set (dependencyErrors res) = {name. \<exists>n ev. named h ns name = Some n \<and> recorded_as rec name = Some ev \<and>
       \<not> deps_match h (eName ` set rec) n ev}"
    "distinct (missingTasks res @ skippedBranches res)" "distinct (unexpectedTasks res)"
    "distinct (map etask (dependencyErrors res))"
    "valid res \<longleftrightarrow> missingTasks res = [] \<and> unexpectedTasks res = [] \<and> dependencyErrors res = []"
proof -
  let ?expd = "expected_map h ns" and ?exd = "executed_map rec"
  note E = expected_map_simps [of h ns] and X = executed_map_simps [of rec]
  note re = range_map_simps [OF r E(2), unfolded E(1)] and rx = range_map_simps [OF r X(2), unfolded X(1)]
  obtain sk where sk: "spread h ?exd ?expd r 4 (mark_branches h ?exd (range_map r 0 ?expd)) = Some sk"
    "set sk = {name. may_skip h ns rec name}"
    using skipped_names [OF r, of h rec ns 4] unfolding may_skip_def by blast
  have ran: "\<not> ran ?exd name" if "may_skip h ns rec name" for name
    using that by (auto simp: may_skip_def ran_iff elim: skippable.cases)
  have dX: "dom (recorded_as rec) = eName ` set rec"
    using ran_iff [of rec] by (auto simp: ran_def X(1) dom_def)
  have dm: "may_skip h ns rec name \<Longrightarrow> name \<in> dom (named h ns)" for name
    by (auto simp: may_skip_def dest: skippable_named)
  have task: "map etask (map (deps_error h ?expd ?exd) xs) = map fst xs" for xs by (simp add: deps_error_def)
  have out: "validator_run r h rec g = Some (check_deps h ?expd ?exd (range_map r 3 ?exd)
      (check_unexpected ?expd (range_map r 2 ?exd) (check_missing ?exd sk (range_map r 1 ?expd) passed)))"
    by (simp add: validator_run_def w sk(1) Let_def)
  let ?res = "check_deps h ?expd ?exd (range_map r 3 ?exd)
      (check_unexpected ?expd (range_map r 2 ?exd) (check_missing ?exd sk (range_map r 1 ?expd) passed))"
  have f: "missingTasks ?res = filter (\<lambda>name. \<not> ran ?exd name \<and> name \<notin> set sk) (map fst (range_map r 1 ?expd))"
    "skippedBranches ?res = filter (\<lambda>name. \<not> ran ?exd name \<and> name \<in> set sk) (map fst (range_map r 1 ?expd))"
    "unexpectedTasks ?res = filter (\<lambda>name. map_of ?expd name = None) (map fst (range_map r 2 ?exd))"
    "dependencyErrors ?res = map (deps_error h ?expd ?exd) (filter (deps_differ h ?expd ?exd) (range_map r 3 ?exd))"
    "valid ?res \<longleftrightarrow> missingTasks ?res = [] \<and> unexpectedTasks ?res = [] \<and> dependencyErrors ?res = []"
    by (simp_all add: check_deps_eq check_unexpected_eq check_missing_eq passed_def)
  show thesis
  proof (rule that [OF out _ _ _ _ _ _ _ f(5)])
    show "set (missingTasks ?res) = {name \<in> dom (named h ns). name \<notin> eName ` set rec \<and> \<not> may_skip h ns rec name}"
      by (auto simp only: f(1) set_filter re(3) sk(2) ran_iff)
    show "set (skippedBranches ?res) = {name. may_skip h ns rec name}"
      using ran dm by (auto simp only: f(2) set_filter re(3) sk(2))
    show "set (unexpectedTasks ?res) = eName ` set rec - dom (named h ns)"
      unfolding f(3) set_filter rx(3) dX E(1) by (auto simp: domIff)
    show "distinct (missingTasks ?res @ skippedBranches ?res)" unfolding f(1,2) using re(2) by auto
    show "distinct (unexpectedTasks ?res)" unfolding f(3) using rx(2) by simp
    show "distinct (map etask (dependencyErrors ?res))"
      unfolding f(4) task by (rule distinct_map_filter [OF rx(2)])
    have "etask ` set (dependencyErrors ?res) = fst ` set (filter (deps_differ h ?expd ?exd) (range_map r 3 ?exd))"
      unfolding f(4) set_map [symmetric] task ..
    also have "\<dots> = {name. \<exists>n ev. named h ns name = Some n \<and> recorded_as rec name = Some ev \<and>
       \<not> deps_match h (eName ` set rec) n ev}"
      by (force simp: rx(1) deps_differ_iff)
    finally show "etask ` set (dependencyErrors ?res) = {name. \<exists>n ev. named h ns name = Some n \<and>
       recorded_as rec name = Some ev \<and> \<not> deps_match h (eName ` set rec) n ev}" .
  qed
qed

lemma validator_verdict_of:
  assumes "is_ranging r" "graph_walk h g = Some ns"
  shows "\<exists>res. validator_run r h rec g = Some res \<and> (valid res \<longleftrightarrow> conforms h ns rec)"
proof -
  obtain res where out: "validator_run r h rec g = Some res"
    and m: "set (missingTasks res) = {name \<in> dom (named h ns). name \<notin> eName ` set rec \<and> \<not> may_skip h ns rec name}"
    and u: "set (unexpectedTasks res) = eName ` set rec - dom (named h ns)"
    and d: "etask ` set (dependencyErrors res) = {name. \<exists>n ev. named h ns name = Some n \<and>
       recorded_as rec name = Some ev \<and> \<not> deps_match h (eName ` set rec) n ev}"
    and v: "valid res \<longleftrightarrow> missingTasks res = [] \<and> unexpectedTasks res = [] \<and> dependencyErrors res = []"
    by (rule validator_result [OF assms, of rec]) (rule that)
  have "missingTasks res = [] \<longleftrightarrow> (\<forall>name \<in> dom (named h ns). name \<in> eName ` set rec \<or> may_skip h ns rec name)"
    using m by (auto simp: set_empty [symmetric] simp del: set_empty)
  moreover have "unexpectedTasks res = [] \<longleftrightarrow> (\<forall>ev \<in> set rec. eName ev \<in> dom (named h ns))"
    using u by (auto simp: set_empty [symmetric] simp del: set_empty)
  moreover have "dependencyErrors res = [] \<longleftrightarrow> etask ` set (dependencyErrors res) = {}" by simp
  ultimately have "valid res \<longleftrightarrow> conforms h ns rec" unfolding v conforms_def d by blast
  with out show ?thesis by blast
qed

lemma order_as_is: "is_ranging (\<lambda>k keys. keys)"
  by (simp add: is_ranging_def)

text \<open>Two tasks, the first of which precedes the second, and the record of a run in that order.\<close>

definition chain_of :: "string \<Rightarrow> string \<Rightarrow> heap" where
  "chain_of a b = subflow_call 1 (BPrecede 1 [2]) (subflow_call 1 (BTask b 0)
     (subflow_call 1 (BTask a 0) (snd (NewTaskFlow ''tf'' empty_heap))))"

definition observe_task :: "heap \<Rightarrow> nid \<Rightarrow> int \<Rightarrow> observer \<Rightarrow> observer" where
  "observe_task h n t ob = (let (s, ob1) = openSpan h n None t ob in closeSpan s True (t + 1000) ob1)"

definition chain_record :: "heap \<Rightarrow> trace_event list option" where
  "chain_record h = map_option snapshot (otracer (observe_task h 2 2000 (observe_task h 1 0 (withTracer 0 newObserver))))"

lemma chain_built: "built (chain_of a b)"
  unfolding chain_of_def
  by (intro built.sf_call flow_started)
     (simp_all add: NewTaskFlow_def newGraph_def NewStatic_def newNode_def graph_push_def empty_heap_def
        allocated_def Let_def)

lemma chain_simps:
  assumes "a \<noteq> []" "b \<noteq> []"
  shows "gnodes (hgraph (chain_of a b) 1) = [1, 2]" "dependents (hnode (chain_of a b) 1) = []"
    "dependents (hnode (chain_of a b) 2) = [1]" "nname (hnode (chain_of a b) 1) = a"
    "nname (hnode (chain_of a b) 2) = b" "ptr (hnode (chain_of a b) 1) = PStatic"
    "ptr (hnode (chain_of a b) 2) = PStatic" "graph (hflow (chain_of a b) 1) = 1"
    "Typ (hnode (chain_of a b) 1) = nodeStatic" "Typ (hnode (chain_of a b) 2) = nodeStatic"
  using assms
  by (simp_all add: chain_of_def NewTaskFlow_def newGraph_def NewStatic_def newNode_def graph_push_def
      empty_heap_def nil_node_def nil_graph_def Task_Precede_def precede_def Let_def)

lemma chain_verdicts:
  "map_option valid (validate (\<lambda>k keys. keys) (chain_of ''a'' ''c'') (chain_record (chain_of ''a'' ''c'')) 1) = Some True"
  "validate (\<lambda>k keys. keys) (chain_of ''a,b'' ''c'') (chain_record (chain_of ''a,b'' ''c'')) 1 =
     Some (passed\<lparr>valid := False, dependencyErrors := [\<lparr>etask = ''c'', expectedDeps = [''a,b''], actualDeps = []\<rparr>]\<rparr>)"
  by code_simp+

text \<open>The same flow with its (absent) subflows marked, for the witnesses.\<close>

definition plain_chain :: heap where
  "plain_chain = instantiate (\<lambda>_. False) (chain_of ''a'' ''c'')"

lemma plain_chain_run:
  "graph_walk plain_chain 1 = Some [1, 2]"
  "map_option valid (validator_run (\<lambda>k keys. keys) plain_chain (the (chain_record plain_chain)) 1) = Some True"
  "map_option missingTasks (validator_run (\<lambda>k keys. keys) plain_chain [] 1) = Some [''a'', ''c'']"
  by code_simp+

text \<open>(C22) The validator decides conformance: for every flow built with the API, whichever of its
  subflows were instantiated, every trace record and every order in which the maps are iterated,
  \<open>run\<close> returns, and its result is valid exactly when the record conforms to the flow.\<close>

theorem validator_verdict:
  assumes "built h" "is_ranging r"
  shows "\<exists>ns res. graph_walk (instantiate I h) g = Some ns \<and> validator_run r (instantiate I h) rec g = Some res \<and>
    (valid res \<longleftrightarrow> conforms (instantiate I h) ns rec)"
  using walk_visits_inside [OF built_owned [OF assms(1)]] validator_verdict_of [OF assms(2)] by blast

lemma validator_verdict_witness: "conforms plain_chain [1, 2] (the (chain_record plain_chain))"
  using validator_verdict [OF chain_built order_as_is, of "\<lambda>_. False" "''a''" "''c''" 1 "the (chain_record plain_chain)"]
    plain_chain_run(1,2) unfolding plain_chain_def [symmetric] by auto

text \<open>(C23) What the validator reports: the missing and the skipped tasks, the unexpected ones and the
  tasks with a wrong list of dependents are exactly those the comments of the source describe, each
  is reported once, and no task is both missing and skipped.\<close>

theorem validator_reports:
  assumes "built h" "is_ranging r" "graph_walk (instantiate I h) g = Some ns"
  shows "\<exists>res. validator_run r (instantiate I h) rec g = Some res \<and>
    set (missingTasks res) = {name \<in> dom (named h ns). name \<notin> eName ` set rec \<and> \<not> may_skip (instantiate I h) ns rec name} \<and>
    set (skippedBranches res) = {name. may_skip (instantiate I h) ns rec name} \<and>
    set (unexpectedTasks res) = eName ` set rec - dom (named h ns) \<and>
    etask ` set (dependencyErrors res) = {name. \<exists>n ev. named h ns name = Some n \<and>
      recorded_as rec name = Some ev \<and> \<not> deps_match h (eName ` set rec) n ev} \<and>
    distinct (missingTasks res @ skippedBranches res) \<and> distinct (unexpectedTasks res) \<and>
    distinct (map etask (dependencyErrors res))"
proof -
  have same: "named (instantiate I h) ns = named h ns" "deps_match (instantiate I h) = deps_match h"
    by (simp_all add: named_def deps_match_def getDependentNames_def instantiate_def fun_eq_iff)
  show ?thesis by (rule validator_result [OF assms(2,3), of rec, unfolded same]) blast
qed

lemma validator_reports_witness:
  "{''a'', ''c''} = {name \<in> dom (named (chain_of ''a'' ''c'') [1, 2]). \<not> may_skip plain_chain [1, 2] [] name}"
  using validator_reports [OF chain_built order_as_is, of "\<lambda>_. False" "''a''" "''c''" 1 "[1, 2]" "[]"]
    plain_chain_run(1,3) unfolding plain_chain_def [symmetric] by auto

text \<open>A comma in the name of a task that another depends on makes the validator reject a correct
  run: the tracer joins the names with commas, the validator splits at each of them. The same flow
  with a name without a comma passes.\<close>

lemma comma_in_name_rejected:
  "validate (\<lambda>k keys. keys) (chain_of ''a,b'' ''c'') (chain_record (chain_of ''a,b'' ''c'')) 1 =
     Some (passed\<lparr>valid := False, dependencyErrors := [\<lparr>etask = ''c'', expectedDeps = [''a,b''], actualDeps = []\<rparr>]\<rparr>) \<and>
   map_option valid (validate (\<lambda>k keys. keys) (chain_of ''a'' ''c'') (chain_record (chain_of ''a'' ''c'')) 1) = Some True"
  using chain_verdicts by simp

end
