(* ===== verification/Static_Trace.thy ===== *)
theory Static_Trace
  imports Static_Liveness Validator
begin

text \<open>
  The trace of a run of static tasks, and what the validator says of it. With the tracer on, the
  events recorded so far are those of the nodes whose span has been closed, one each, and every node
  comes after the nodes it depends on; so the trace of a completed run is a topological order of the
  flow, and the validator accepts it when the names can be told apart.
\<close>

section \<open>Spans and events\<close>

definition describes :: "heap \<Rightarrow> nid \<Rightarrow> trace_event \<Rightarrow> bool" where
  "describes h n ev \<longleftrightarrow> eName ev = nname (hnode h n) \<and>
     map_of (eArgs ev) ''dependents'' =
       (if dependents (hnode h n) = [] then None else Some (join_comma (getDependentNames h n)))"

definition span_holds :: "heap \<Rightarrow> observer \<Rightarrow> nid \<Rightarrow> sid option \<Rightarrow> bool" where
  "span_holds h ob n sp \<longleftrightarrow> (\<exists>i. sp = Some i \<and> i < onext ob \<and>
     snd (extra (ospan ob i)) = nname (hnode h n) \<and> sdeps (ospan ob i) = getDependentNames h n)"

definition keeps_spans :: "observer \<Rightarrow> observer \<Rightarrow> bool" where
  "keeps_spans ob ob' \<longleftrightarrow> onext ob \<le> onext ob' \<and>
     (\<forall>i < onext ob. extra (ospan ob' i) = extra (ospan ob i) \<and> sdeps (ospan ob' i) = sdeps (ospan ob i))"

lemma keeps_refl [simp]: "keeps_spans ob ob"
  by (simp add: keeps_spans_def)

lemma span_holds_keep: "keeps_spans ob ob' \<Longrightarrow> span_holds h ob n sp \<Longrightarrow> span_holds h ob' n sp"
  by (auto simp: keeps_spans_def span_holds_def)

lemma getDependentNames_frame: "frame h0 h \<Longrightarrow> getDependentNames h n = getDependentNames h0 n"
  by (simp add: getDependentNames_def frame_def)

lemma openSpan_traced:
  assumes "otracer ob = Some tr" "openSpan h n par now ob = (sp, ob')" "frame h0 h"
  shows "otracer ob' = Some tr" "keeps_spans ob ob'" "span_holds h0 ob' n sp"
  using assms getDependentNames_frame [OF assms(3)]
  by (auto simp: openSpan_def Let_def keeps_spans_def span_holds_def frame_def)

lemma AddSpan_spans:
  "keeps_spans ob (AddSpan s p ob)" "otracer (AddSpan s p ob) = otracer ob"
  by (auto simp: AddSpan_def Let_def keeps_spans_def split: option.splits)

lemma getDependentNames_Nil: "getDependentNames h n = [] \<longleftrightarrow> dependents (hnode h n) = []"
  by (simp add: getDependentNames_def)

lemma closeSpan_traced:
  assumes tr: "otracer ob = Some tr" and sp: "span_holds h0 ob n sp"
  shows "\<exists>tr' ev. otracer (closeSpan sp ok now ob) = Some tr' \<and> tevents tr' = tevents tr @ [ev] \<and> describes h0 n ev"
    and "keeps_spans ob (closeSpan sp ok now ob)"
proof -
  obtain i where i: "sp = Some i" "i < onext ob" "snd (extra (ospan ob i)) = nname (hnode h0 n)"
    "sdeps (ospan ob i) = getDependentNames h0 n"
    using sp by (auto simp: span_holds_def)
  define ob1 where "ob1 = set_cost i (now - begin_t (ospan ob i)) ob"
  define ob2 where "ob2 = (case oprofiler ob1 of Some p \<Rightarrow> (if ok then AddSpan i p ob1 else ob1) | None \<Rightarrow> ob1)"
  have k1: "keeps_spans ob ob1" by (auto simp: ob1_def keeps_spans_def)
  have k2: "keeps_spans ob1 ob2" and t2: "otracer ob2 = Some tr"
    using tr AddSpan_spans by (auto simp: ob2_def ob1_def split: option.splits)
  from k1 k2 have k: "keeps_spans ob ob2" by (auto simp: keeps_spans_def)
  have c: "closeSpan sp ok now ob = AddEvent i tr ob2" 
    unfolding i(1) closeSpan_def option.case Let_def ob1_def [symmetric] ob2_def [symmetric] t2 ..
  then show "keeps_spans ob (closeSpan sp ok now ob)" using k by (simp add: keeps_spans_def)
  have f: "snd (extra (ospan ob2 i)) = nname (hnode h0 n)" "sdeps (ospan ob2 i) = getDependentNames h0 n"
    using k i by (auto simp: keeps_spans_def)
  show "\<exists>tr' ev. otracer (closeSpan sp ok now ob) = Some tr' \<and> tevents tr' = tevents tr @ [ev] \<and> describes h0 n ev"
    unfolding c AddEvent_def Let_def
    by (auto simp: describes_def event_args_def f getDependentNames_Nil split: option.splits)
qed

section \<open>What a step does to the observer\<close>

fun span_pc :: "pc \<Rightarrow> (closure \<times> sid option) option" where
  "span_pc (Handle c sp) = Some (c, sp)"
| "span_pc (Defer c sp ok) = Some (c, sp)"
| "span_pc _ = None"

lemma helper_obs [simp]:
  "obs (goto i p s) = obs s" "obs (on_heap f s) = obs s" "obs (log es s) = obs s" "obs (do_signal g s) = obs s"
  "obs (spawn b s) = obs s"
  by (simp_all add: goto_def on_heap_def log_def do_signal_def spawn_def)

lemma quiet_obs:
  assumes "pc_step s i p ch now = Some t" "\<And>c. p \<noteq> Body c" "\<And>c sp ok. p \<noteq> Defer c sp ok"
    "\<And>c sp. p = Handle c sp \<Longrightarrow> is_static c"
  shows "obs t = obs s"
proof (cases p)
  case (Client cs)
  with assms(1) show ?thesis by (cases "(s, i, cs)" rule: client_step.cases) (auto split: if_splits)
next
  case (Schedule ns k)
  with assms(1) show ?thesis by (cases ns) (auto split: if_splits)
next
  case (Drop c vs)
  with assms(1) show ?thesis by (cases vs) auto
next
  case (Succs c vs cs)
  with assms(1) show ?thesis by (cases vs) (auto split: if_splits)
next
  case (LLeave g k)
  with assms(1) show ?thesis by (cases k) (auto simp: Let_def split: if_splits)
next
  case (Handle c sp)
  with assms(1,4) show ?thesis by (cases c) (auto split: choice.splits)
qed (use assms in \<open>auto simp: gsetup_step_def pref_step_def pput_step_def lcheck_step_def lpop_step_def linvoke_step_def
      wpoll_step_def nsetup_step_def deref_step_def csetup_step_def done_step_def Let_def
      split: if_splits choice.splits option.splits sum.splits prod.splits\<close>)

text \<open>A worker leaves \<open>Body\<close> with an open span, and \<open>Defer\<close> with the span closed.\<close>

lemma body_obs:
  assumes "pc_step s i (Body c) ch now = Some t" "i < length (threads s)"
  obtains sp where "openSpan (heap s) (cnode c) (cparent c) now (obs s) = (sp, obs t)"
    "span_pc (threads t ! i) = Some (c, sp)"
proof -
  obtain sp ob where o: "openSpan (heap s) (cnode c) (cparent c) now (obs s) = (sp, ob)" by fastforce
  then show thesis
    using assms that [of sp] by (auto simp: body_step_def Let_def split: if_splits)
qed

lemma defer_obs:
  assumes "pc_step s i (Defer c sp ok) ch now = Some t"
  shows "obs t = closeSpan sp ok now (obs s)"
  using assms by (cases c) (auto simp: Let_def)

section \<open>The trace of a run\<close>

definition topological :: "heap \<Rightarrow> nid list \<Rightarrow> bool" where
  "topological h ns \<longleftrightarrow> (\<forall>j < length ns. set (dependents (hnode h (ns ! j))) \<subseteq> set (take j ns))"

lemma topological_snoc:
  assumes "topological h ns" "set (dependents (hnode h n)) \<subseteq> set ns"
  shows "topological h (ns @ [n])"
  using assms by (auto simp: topological_def nth_append less_Suc_eq)

definition trace_inv :: "heap \<Rightarrow> sys \<Rightarrow> bool" where
  "trace_inv h0 s \<longleftrightarrow> (\<exists>tr ns. otracer (obs s) = Some tr \<and> list_all2 (describes h0) ns (tevents tr) \<and> distinct ns \<and>
     (\<forall>n. n \<in> set ns \<longleftrightarrow> 0 < over n s) \<and> topological h0 ns \<and>
     (\<forall>p \<in> set (threads s). \<forall>c sp. span_pc p = Some (c, sp) \<longrightarrow> span_holds h0 (obs s) (cnode c) sp))"

lemma countable_past [simp]: "countable_pc (\<lambda>p. count_list (past_nodes p) n)"
  by (simp add: countable_pc_def wait_blind_def)

lemma over_total: "over n s = total (\<lambda>p. count_list (past_nodes p) n) s + count_list (hist s) (HEnd n)"
  by (simp add: over_def total_def)

lemma move_past:
  assumes "move g s p p' h q l es w" "main_pc g p \<or> work_pc h0 p"
  shows "count_list (past_nodes p') n + count_list es (HEnd n) = count_list (past_nodes p) n +
    (case p of Defer c sp ok \<Rightarrow> of_bool (cnode c = n) | _ \<Rightarrow> 0)"
  using assms(1)
proof cases
  case (m_sched_done k)
  with assms(2) show ?thesis by (cases k) auto
next
  case (m_sched_skip n ns k)
  with assms(2) show ?thesis by (cases k) auto
qed auto

lemma moves_over:
  assumes cn: "consistent h0 g s" and i: "i < length (threads s)" and m: "moves g s i t"
  shows "over n t = over n s + (case threads s ! i of Defer c sp ok \<Rightarrow> of_bool (cnode c = n) | _ \<Rightarrow> 0)"
proof -
  obtain p' es w where go: "goes g s i p' w t" and hs: "hist t = hist s @ es"
    and mv: "move g s (threads s ! i) p' (heap t) (items (wq t)) (pool_items (epool t)) es w"
    and role: "main_pc g (threads s ! i) \<or> work_pc h0 (threads s ! i)"
    by (rule movesE [OF cn i m]) (rule that)
  have "total (\<lambda>p. count_list (past_nodes p) n) t + count_list (past_nodes (threads s ! i)) n =
      total (\<lambda>p. count_list (past_nodes p) n) s + count_list (past_nodes p') n"
    by (rule goes_total [OF go i countable_past])
  with move_past [OF mv role, of n] show ?thesis by (simp add: over_total hs)
qed

text \<open>When a node is about to close its span, it is not in the trace, and all its dependents are.\<close>

lemma defer_fresh:
  assumes cn: "consistent h0 g s" and i: "i < length (threads s)" and p: "threads s ! i = Defer c sp ok"
  shows "over (cnode c) s = 0" "d \<in> set (dependents (hnode h0 (cnode c))) \<Longrightarrow> 0 < over d s"
proof -
  let ?n = "cnode c"
  note d = consistentD [OF cn]
  have n: "?n \<in> set (gnodes (hgraph h0 g))" using d(9) [OF i] p by simp
  have one: "1 \<le> sum_list (map (\<lambda>q. count_list (pc_nodes q) ?n - count_list (past_nodes q) ?n) (threads s))"
    using sum_list_nth_le [OF i, of "\<lambda>q. count_list (pc_nodes q) ?n - count_list (past_nodes q) ?n"] p by simp
  have split: "sum_list (map (\<lambda>q. count_list (pc_nodes q) ?n) (threads s)) =
      sum_list (map (\<lambda>q. count_list (pc_nodes q) ?n - count_list (past_nodes q) ?n) (threads s)) +
      sum_list (map (\<lambda>q. count_list (past_nodes q) ?n) (threads s))"
    using past_nodes_le by (simp add: sum_list_addf [symmetric])
  have le: "waiting ?n s + finished ?n s \<le> 1" by (rule positions_le [OF cn])
  then show "over ?n s = 0" using one split unfolding positions_eq over_def by linarith
  have "waiting ?n s + finished ?n s = 1" using le one split unfolding positions_eq by linarith
  then have "cuts h0 ?n s = length (dependents (hnode h0 ?n))" using counters_node(2) [OF d(5) n refl] by blast
  then show "d \<in> set (dependents (hnode h0 ?n)) \<Longrightarrow> 0 < over d s" using all_cut_over [OF d(1-4) n] by blast
qed

lemma move_span:
  assumes "move g s p p' h q l es w" "main_pc g p \<or> work_pc h0 p" "\<And>c. p \<noteq> Body c"
  shows "span_pc p' = None \<or> span_pc p' = span_pc p"
  using assms(1)
proof cases
  case (m_sched_done k)
  with assms(2) show ?thesis by (cases k) auto
next
  case (m_sched_skip n ns k)
  with assms(2) show ?thesis by (cases k) auto
qed (use assms(3) in auto)

lemma trace_inv_step:
  assumes cn: "consistent h0 g s" and a: "accounts s" and st: "step s (i, ch, now) = Some t" and tv: "trace_inv h0 s"
  shows "trace_inv h0 t"
proof -
  have i: "i < length (threads s)" and pst: "pc_step s i (threads s ! i) ch now = Some t"
    using st by (auto split: if_splits)
  note d = consistentD [OF cn]
  have m: "moves g s i t" by (rule step_move [OF d(1,2) a st])
  obtain p' es w where go: "goes g s i p' w t"
    and mv: "move g s (threads s ! i) p' (heap t) (items (wq t)) (pool_items (epool t)) es w"
    and role: "main_pc g (threads s ! i) \<or> work_pc h0 (threads s ! i)"
    by (rule movesE [OF cn i m]) (rule that)
  have at: "threads t ! i = p'" by (rule goes_at [OF go i])
  obtain tr ns where tr: "otracer (obs s) = Some tr" "list_all2 (describes h0) ns (tevents tr)" "distinct ns"
    "\<And>n. n \<in> set ns \<longleftrightarrow> 0 < over n s" "topological h0 ns"
    and sp: "\<And>p c sp. p \<in> set (threads s) \<Longrightarrow> span_pc p = Some (c, sp) \<Longrightarrow> span_holds h0 (obs s) (cnode c) sp"
    using tv unfolding trace_inv_def by blast
  have other: "span_holds h0 (obs t) (cnode c) sp'"
    if "keeps_spans (obs s) (obs t)" "p \<in> set (threads t)" "span_pc p = Some (c, sp')"
      "p = p' \<Longrightarrow> span_holds h0 (obs t) (cnode c) sp'" for p c sp'
    using goes_cases [OF go i that(2)] that(3,4) sp span_holds_keep [OF that(1)] by auto
  have mine: "span_holds h0 (obs t) (cnode c) sp'"
    if "keeps_spans (obs s) (obs t)" "\<And>c. threads s ! i \<noteq> Body c" "span_pc p' = Some (c, sp')" for c sp'
    using move_span [OF mv role that(2)] that(3) sp [OF nth_mem [OF i]] span_holds_keep [OF that(1)] by auto
  note ov = moves_over [OF cn i m]
  consider (body) c where "threads s ! i = Body c" | (closing) c sp ok where "threads s ! i = Defer c sp ok"
    | (quiet) "\<And>c. threads s ! i \<noteq> Body c" "\<And>c sp ok. threads s ! i \<noteq> Defer c sp ok"
    by blast
  then show ?thesis
  proof cases
    case (body c)
    obtain sp' where o: "openSpan (heap s) (cnode c) (cparent c) now (obs s) = (sp', obs t)"
      "span_pc (threads t ! i) = Some (c, sp')"
      by (rule body_obs [OF pst [unfolded body] i]) (rule that)
    note ot = openSpan_traced [OF tr(1) o(1) d(6)]
    have "span_holds h0 (obs t) (cnode c') sp''" if "p \<in> set (threads t)" "span_pc p = Some (c', sp'')" for p c' sp''
      by (rule other [OF ot(2) that]) (use that(2) o(2) at ot(3) in simp)
    then show ?thesis using ot(1) tr(2-5) ov body unfolding trace_inv_def by auto
  next
    case (closing c sp' ok)
    have held: "span_holds h0 (obs s) (cnode c) sp'" using sp [OF nth_mem [OF i]] closing by simp
    have obt: "obs t = closeSpan sp' ok now (obs s)" by (rule defer_obs [OF pst [unfolded closing]])
    obtain tr' ev where c: "otracer (obs t) = Some tr'" "tevents tr' = tevents tr @ [ev]" "describes h0 (cnode c) ev"
      using closeSpan_traced(1) [OF tr(1) held] obt by metis
    have ks: "keeps_spans (obs s) (obs t)" unfolding obt by (rule closeSpan_traced(2) [OF tr(1) held])
    note fr = defer_fresh [OF cn i closing]
    have "list_all2 (describes h0) (ns @ [cnode c]) (tevents tr')" using tr(2) c by (simp add: list_all2_appendI)
    moreover have "distinct (ns @ [cnode c])" using tr(3,4) fr(1) by simp
    moreover have "n \<in> set (ns @ [cnode c]) \<longleftrightarrow> 0 < over n t" for n using tr(4) [of n] ov [of n] closing by auto
    moreover have "topological h0 (ns @ [cnode c])" by (rule topological_snoc [OF tr(5)]) (use tr(4) fr(2) in auto)
    moreover have "\<forall>p \<in> set (threads t). \<forall>c sp. span_pc p = Some (c, sp) \<longrightarrow> span_holds h0 (obs t) (cnode c) sp"
      using other [OF ks] mine [OF ks] closing by fastforce
    ultimately show ?thesis using c(1) unfolding trace_inv_def by blast
  next
    case quiet
    have "threads s ! i = Handle c sp' \<Longrightarrow> is_static c" for c sp' using role by auto
    then have ob: "obs t = obs s" by (rule quiet_obs [OF pst quiet]) 
    then have "\<forall>p \<in> set (threads t). \<forall>c sp. span_pc p = Some (c, sp) \<longrightarrow> span_holds h0 (obs t) (cnode c) sp"
      using other mine quiet(1) by fastforce
    moreover have "over n t = over n s" for n using ov [of n] quiet(2) by (cases "threads s ! i") auto
    ultimately show ?thesis using tr ob unfolding trace_inv_def by auto
  qed
qed

section \<open>Reachable states\<close>

lemma starting_trace:
  assumes "starting h0 g s" "otracer (obs s) = Some tr" "tevents tr = []"
  shows "trace_inv h0 s"
proof -
  have "threads s = [Client cs] \<or> threads s = [GSetup g k] \<Longrightarrow> hist s = [] \<Longrightarrow> over n s = 0" for cs k n
    by (auto simp: over_def)
  then have "over n s = 0" for n using assms(1) by (auto simp: starting_def)
  with assms show ?thesis
    unfolding trace_inv_def starting_def by (intro exI [of _ tr] exI [of _ "[]"]) (auto simp: topological_def)
qed

lemma options_no_events:
  "(\<And>tr. otracer ob = Some tr \<Longrightarrow> tevents tr = []) \<Longrightarrow> otracer (fold (apply_option now) opts ob) = Some tr \<Longrightarrow> tevents tr = []"
proof (induction opts arbitrary: ob)
  case (Cons x opts)
  show ?case
    by (rule Cons.IH [of "apply_option now x ob"])
      (use Cons.prems in \<open>cases x; auto simp: withProfiler_def withTracer_def newTracer_def\<close>)+
qed simp

lemma starting_obs:
  assumes "starting h0 g s" "step s (i, ch, now) = Some t"
  shows "obs t = obs s"
proof -
  have p: "pc_step s i (threads s ! i) ch now = Some t" and i: "i < length (threads s)" using assms(2) by (auto split: if_splits)
  show ?thesis by (rule quiet_obs [OF p]) (use assms(1) i in \<open>auto simp: starting_def\<close>)
qed

lemma set_up_over: "set_up h0 g t \<Longrightarrow> over n t = 0"
  by (auto simp: set_up_def over_def)

lemma reach_trace:
  "reach s0 s \<Longrightarrow> starts_flow h0 g s0 \<Longrightarrow> otracer (obs s0) \<noteq> None \<Longrightarrow>
    (starting h0 g s \<and> obs s = obs s0 \<or> static_inv h0 g s) \<and> trace_inv h0 s"
proof (induction rule: reach.induct)
  case start
  obtain c opts now tf where "NewExecutor c opts now h0 [[Run tf, Wait]] = Inr s0"
    using start.prems(1) by (auto simp: starts_flow_def)
  then have "obs s0 = fold (apply_option now) opts newObserver" by (auto simp: NewExecutor_def split: if_splits)
  then have "otracer (obs s0) = Some tr \<Longrightarrow> tevents tr = []" for tr
    using options_no_events [of newObserver now opts tr] by (auto simp: newObserver_def)
  with start.prems starts_starting [OF start.prems(1)] starting_trace show ?case by blast
next
  case (step s e t)
  obtain i ch now where e: "e = (i, ch, now)" by (cases e)
  have f: "static_flow h0 g" using step.prems by (simp add: starts_flow_def)
  from step.IH step.prems have s: "starting h0 g s \<and> obs s = obs s0 \<or> static_inv h0 g s" and tv: "trace_inv h0 s" by blast+
  then have "\<not> crashed s" using starting_no_crash static_inv_no_crash by blast
  then have a: "accounts s" using reach_accounts [OF step.hyps(1) starts_fresh [OF step.prems(1)]] by blast
  note st = step.hyps(2) [unfolded e]
  from s show ?case
  proof
    assume s: "starting h0 g s \<and> obs s = obs s0"
    then have ob: "obs t = obs s0" using starting_obs st by metis
    have "over n s = 0" for n using s by (auto simp: starting_def over_def)
    then obtain tr where tr: "otracer (obs s0) = Some tr" "tevents tr = []"
      using tv s unfolding trace_inv_def by auto
    have "starting h0 g t \<Longrightarrow> trace_inv h0 t" using starting_trace ob tr by metis
    moreover have "set_up h0 g t \<Longrightarrow> trace_inv h0 t"
      unfolding trace_inv_def using ob tr set_up_over
      by (intro exI [of _ tr] exI [of _ "[]"]) (auto simp: topological_def set_up_def)
    ultimately show ?thesis using starting_step [OF f _ st] after_setup [OF f] s ob by blast
  next
    assume s: "static_inv h0 g s"
    then have "consistent h0 g s" by (simp add: static_inv_def)
    from trace_inv_step [OF this a st tv] static_inv_step [OF s a st] show ?thesis by blast
  qed
qed

section \<open>What the trace says\<close>

lemma over_mem:
  assumes "roles h0 g s" "ends_in h0 g s" "0 < over n s"
  shows "n \<in> set (gnodes (hgraph h0 g))"
proof (cases "HEnd n \<in> set (hist s)")
  case True
  with assms(2) show ?thesis by (simp add: ends_in_def)
next
  case False
  then have z: "0 < total (\<lambda>p. count_list (past_nodes p) n) s"
    using assms(3) count_notin [of "HEnd n" "hist s"] by (simp add: over_total)
  then obtain p where "p \<in> set (threads s)" "count_list (past_nodes p) n \<noteq> 0" by (rule total_nonzero)
  then have "n \<in> set (pc_nodes p)" "p \<in> set (threads s)" using past_nodes_subset by (auto simp: count_list_0_iff)
  with assms(1) show ?thesis by (auto simp: roles_def)
qed

text \<open>(C21) With the tracer on, the trace of a run of static tasks is at every moment a topological
  order: its events are those of distinct tasks of the flow, each with the name and the list of
  dependents of its task, each after the events of all tasks it depends on; and every task that has
  ended has its event. Panics and cancellation are allowed.\<close>

theorem trace_topological:
  assumes "starts_flow h g s0" "otracer (obs s0) \<noteq> None" "reach s0 s"
  shows "\<exists>tr ns. otracer (obs s) = Some tr \<and> list_all2 (describes h) ns (snapshot tr) \<and> distinct ns \<and>
    set ns \<subseteq> set (gnodes (hgraph h g)) \<and> topological h ns \<and> (\<forall>n. HEnd n \<in> set (hist s) \<longrightarrow> n \<in> set ns)"
proof -
  have r: "starting h g s \<or> static_inv h g s" "trace_inv h s" using reach_trace [OF assms(3,1,2)] by blast+
  have N: "n \<in> set (gnodes (hgraph h g))" if "0 < over n s" for n
  proof -
    have "over n s = 0" if "starting h g s" using that by (auto simp: starting_def over_def)
    with r(1) that have "static_inv h g s" by auto
    then show ?thesis using over_mem that by (auto simp: static_inv_def consistent_def)
  qed
  have "0 < over n s" if "HEnd n \<in> set (hist s)" for n
    using that by (simp add: over_def count_list_0_iff flip: neq0_conv)
  with r(2) N show ?thesis unfolding trace_inv_def snapshot_def by blast
qed

lemma walk_static:
  "(\<And>n. n \<in> set ns \<Longrightarrow> ptr (hnode h n) = PStatic) \<Longrightarrow> walk_nodes h ns = Some ns"
  by (induction ns) (simp_all add: walk_nodes_step enters_def)

lemma named_distinct:
  assumes "inj_on (\<lambda>n. nname (hnode h n)) (set ns)"
  shows "named h ns name = Some n \<longleftrightarrow> n \<in> set ns \<and> nname (hnode h n) = name"
proof (cases "named h ns name")
  case None
  then have "\<forall>n \<in> set ns. nname (hnode h n) \<noteq> name" by (auto simp: named_def find_None_iff)
  with None show ?thesis by auto
next
  case (Some m)
  then have "m \<in> set ns \<and> nname (hnode h m) = name" by (auto simp: named_def find_Some_iff) (metis length_rev nth_mem set_rev)
  with assms Some show ?thesis by (auto dest: inj_onD)
qed

lemma recorded_member: "recorded_as rec name = Some ev \<Longrightarrow> ev \<in> set rec \<and> eName ev = name"
  by (auto simp: recorded_as_def find_Some_iff) (metis length_rev nth_mem set_rev)

lemma listed_described:
  assumes "describes h n ev" "\<And>d. d \<in> set (getDependentNames h n) \<Longrightarrow> d \<noteq> [] \<and> CHR '','' \<notin> set d"
  shows "listed_deps ev = getDependentNames h n"
proof (cases "dependents (hnode h n) = []")
  case True
  with assms(1) show ?thesis by (simp add: describes_def listed_deps_def raw_deps_def getDependentNames_def)
next
  case False
  then have ne: "getDependentNames h n \<noteq> []" by (simp add: getDependentNames_Nil)
  then have "split_comma (join_comma (getDependentNames h n)) = getDependentNames h n"
    using assms(2) by (intro split_join_names) auto
  moreover have "join_comma ds \<noteq> []" if "ds \<noteq> []" "\<And>d. d \<in> set ds \<Longrightarrow> d \<noteq> []" for ds
    using that by (cases ds rule: join_comma.cases) auto
  ultimately show ?thesis
    using assms False ne by (simp add: describes_def listed_deps_def raw_deps_def)
qed

lemma described_names:
  "list_all2 (describes h) ms evs \<Longrightarrow> eName ` set evs = (\<lambda>n. nname (hnode h n)) ` set ms"
  by (induction rule: list_all2_induct) (auto simp: describes_def)

lemma trace_conforms:
  assumes fl: "inj_on (\<lambda>n. nname (hnode h n)) (set ns)" "\<And>n. n \<in> set ns \<Longrightarrow> nname (hnode h n) \<noteq> [] \<and> CHR '','' \<notin> set (nname (hnode h n))"
    "\<And>n. n \<in> set ns \<Longrightarrow> set (dependents (hnode h n)) \<subseteq> set ns"
    and ev: "list_all2 (describes h) ms evs" "set ms = set ns"
  shows "conforms h ns evs"
proof -
  have names: "eName ` set evs = (\<lambda>n. nname (hnode h n)) ` set ns"
    using described_names [OF ev(1)] ev(2) by simp
  have "deps_match h (eName ` set evs) n e" if "named h ns name = Some n" "recorded_as evs name = Some e" for name n e
  proof -
    have n: "n \<in> set ns" "nname (hnode h n) = name" using named_distinct [OF fl(1)] that(1) by blast+
    have e: "e \<in> set evs" "eName e = name" using recorded_member [OF that(2)] by blast+
    obtain j where j: "j < length evs" "e = evs ! j" using e(1) by (auto simp: in_set_conv_nth)
    define m where "m = ms ! j"
    have m: "m \<in> set ms" "describes h m e"
      using list_all2_lengthD [OF ev(1)] list_all2_nthD2 [OF ev(1) j(1)] j by (simp_all add: m_def)
    then have "nname (hnode h m) = nname (hnode h n)" using e(2) n(2) by (simp add: describes_def)
    then have "m = n" using fl(1) m(1) n(1) ev(2) by (auto dest: inj_onD)
    have "d \<noteq> [] \<and> CHR '','' \<notin> set d" if "d \<in> set (getDependentNames h n)" for d
      using that fl(2,3) n(1) by (auto simp: getDependentNames_def)
    from listed_described [OF m(2) [unfolded \<open>m = n\<close>] this] show ?thesis by (simp add: deps_match_def)
  qed
  moreover have "dom (named h ns) = (\<lambda>n. nname (hnode h n)) ` set ns"
    using named_distinct [OF fl(1)] by (auto simp: dom_def)
  ultimately show ?thesis using names unfolding conforms_def by auto
qed

lemma skippable_not_run: "skippable h node executed name \<Longrightarrow> \<not> executed name"
  by (erule skippable.cases) auto

lemma validator_accepts:
  assumes "is_ranging r" "graph_walk h g = Some ns" "conforms h ns rec" "\<And>name. name \<in> dom (named h ns) \<Longrightarrow> name \<in> eName ` set rec"
  shows "\<exists>res. validator_run r h rec g = Some res \<and> valid res \<and> skippedBranches res = []"
proof -
  obtain res where res: "validator_run r h rec g = Some res" "set (skippedBranches res) = {name. may_skip h ns rec name}"
    by (rule validator_result [OF assms(1,2), of rec]) (rule that)
  have "\<not> may_skip h ns rec name" for name
    using assms(4) skippable_not_run skippable_named unfolding may_skip_def by fast
  with res validator_verdict_of [OF assms(1,2), of rec] assms(3) show ?thesis by auto
qed

lemma conforms_frame:
  assumes "frame h0 h"
  shows "named h ns = named h0 ns" "describes h = describes h0"
  using assms getDependentNames_frame [OF assms] by (auto simp: named_def describes_def frame_def fun_eq_iff)

text \<open>(C12) The executor, the tracer and the validator fit together: when a run of static tasks without
  cycles has come to its end, no task has panicked, and the names of the tasks are distinct, not
  empty and free of commas, the trace has one event per task and \<open>validate\<close> finds it valid, with no
  skipped branch, for every interleaving of the run and every iteration order of its maps.\<close>

theorem completed_run_validates:
  assumes "starts_flow h g s0" "otracer (obs s0) \<noteq> None" "\<not> canceled (hgraph h g)" "acyclic (edges h g)"
    and "reach s0 s" "stuck s" "\<And>n. HPanic n \<notin> set (hist s)"
    and "inj_on (\<lambda>n. nname (hnode h n)) (set (gnodes (hgraph h g)))"
    and "\<And>n. n \<in> set (gnodes (hgraph h g)) \<Longrightarrow> nname (hnode h n) \<noteq> [] \<and> CHR '','' \<notin> set (nname (hnode h n))"
    and "is_ranging r"
  shows "\<exists>tr res. otracer (obs s) = Some tr \<and> length (snapshot tr) = length (gnodes (hgraph h g)) \<and>
    validator_run r (heap s) (snapshot tr) g = Some res \<and> valid res \<and> skippedBranches res = []"
proof -
  let ?N = "gnodes (hgraph h g)"
  have l: "live_inv h g s" and a: "accounts s" using stuck_reach [OF assms(1,5,6,3)] by auto
  then have cn: "consistent h g s" by (simp add: live_inv_def static_inv_def)
  note d = consistentD [OF cn]
  have "\<not> is_canceled s g" using l assms(7) by (auto simp: live_inv_def panics_told_def)
  then have ended: "HEnd n \<in> set (hist s)" if "n \<in> set ?N" for n
    using stuck_all_ended [OF l assms(6) a _ assms(4) that] by blast
  have "trace_inv h s" using reach_trace [OF assms(5,1,2)] by blast
  then obtain tr ns where tr: "otracer (obs s) = Some tr" "list_all2 (describes h) ns (snapshot tr)" "distinct ns"
    "\<And>n. n \<in> set ns \<longleftrightarrow> 0 < over n s"
    by (auto simp: trace_inv_def snapshot_def)
  have "0 < over n s" if "n \<in> set ?N" for n
    using ended [OF that] by (simp add: over_def count_list_0_iff flip: neq0_conv)
  with tr(4) over_mem [OF d(2,3)] have ns: "set ns = set ?N" by blast
  have di: "distinct ?N" using d(1) wf_heapD(11) by (simp add: static_flow_def)
  have len: "length (snapshot tr) = length ?N"
    using list_all2_lengthD [OF tr(2)] distinct_card [OF tr(3)] distinct_card [OF di] ns by simp
  have fr: "nname (hnode (heap s) n) = nname (hnode h n)" "dependents (hnode (heap s) n) = dependents (hnode h n)"
    "ptr (hnode (heap s) n) = ptr (hnode h n)" "gnodes (hgraph (heap s) g) = ?N" for n
    using d(6) by (simp_all add: frame_def)
  have w: "graph_walk (heap s) g = Some ?N"
    unfolding graph_walk_def fr(4) by (rule walk_static) (use static_nodes(2) [OF d(1,6)] in simp)
  have deps: "set (dependents (hnode h n)) \<subseteq> set ?N" if "n \<in> set ?N" for n
    using static_nodes(5) [OF d(1) frame_refl that] .
  have "conforms (heap s) ?N (snapshot tr)"
    by (rule trace_conforms [where ms = ns])
      (use assms(8,9) deps tr(2) ns in \<open>simp_all add: fr conforms_frame(2) [OF d(6)]\<close>)
  moreover have "name \<in> eName ` set (snapshot tr)" if nm: "name \<in> dom (named (heap s) ?N)" for name
  proof -
    obtain n where "named h ?N name = Some n" using nm unfolding conforms_frame(1) [OF d(6)] by auto
    then have "n \<in> set ns \<and> nname (hnode h n) = name" unfolding ns by (rule named_distinct [OF assms(8), THEN iffD1])
    then show ?thesis unfolding described_names [OF tr(2)] by auto
  qed
  ultimately show ?thesis using validator_accepts [OF assms(10) w] tr(1) len by blast
qed

text \<open>A traced run of \<open>two_tasks\<close>, for the witnesses.\<close>

definition traced_demo :: sys where
  "traced_demo = projr (NewExecutor 1 [WithTracer] 0 two_tasks [[Run 1, Wait]])"

lemma traced_starts: "starts_flow two_tasks 1 traced_demo"
proof -
  have "graph (hflow two_tasks 1) = 1" by code_simp
  then show ?thesis
    unfolding starts_flow_def traced_demo_def
    by (intro conjI two_tasks_static, intro exI [of _ 1] exI [of _ "[WithTracer]"] exI [of _ 0])
      (simp add: NewExecutor_def)
qed

lemma traced_tracer: "otracer (obs traced_demo) \<noteq> None"
  by (simp add: traced_demo_def NewExecutor_def withTracer_def)

lemma traced_run:
  "map_option (\<lambda>s. (wg s, threads s, hist s)) (run traced_demo two_tasks_trace) =
   Some (0, [Client [Wait], WGone], [HCall 1, HRet 1, HEnd 1, HCall 2, HRet 2, HEnd 2])"
  by code_simp

lemma traced_stuck:
  "\<exists>s. reach traced_demo s \<and> stuck s \<and> hist s = [HCall 1, HRet 1, HEnd 1, HCall 2, HRet 2, HEnd 2]"
proof -
  obtain s where s: "run traced_demo two_tasks_trace = Some s" "wg s = 0"
    "threads s = [Client [Wait], WGone]" "hist s = [HCall 1, HRet 1, HEnd 1, HCall 2, HRet 2, HEnd 2]"
    using traced_run by auto
  let ?t = "goto 0 (Client []) s"
  have st: "step s (0, Tau, 0) = Some ?t" using s(2,3) by simp
  have "stuck ?t" by (rule two_threads_stuck) (simp add: s(3))
  with reach.step [OF run_reach [OF s(1) reach.start] st] s(4) show ?thesis by (intro exI [of _ ?t]) simp
qed

lemma trace_topological_witness:
  "\<exists>s tr ns. reach traced_demo s \<and> otracer (obs s) = Some tr \<and> list_all2 (describes two_tasks) ns (snapshot tr) \<and>
    {1, 2} \<subseteq> set ns \<and> topological two_tasks ns"
proof -
  obtain s where s: "reach traced_demo s" "hist s = [HCall 1, HRet 1, HEnd 1, HCall 2, HRet 2, HEnd 2]"
    using traced_stuck by blast
  obtain tr ns where t: "otracer (obs s) = Some tr" "list_all2 (describes two_tasks) ns (snapshot tr)" "topological two_tasks ns"
    "\<forall>n. HEnd n \<in> set (hist s) \<longrightarrow> n \<in> set ns"
    using trace_topological [OF traced_starts traced_tracer s(1)] by blast
  have "{1, 2} \<subseteq> set ns" using t(4) s(2) by simp
  with s(1) t(1-3) show ?thesis by blast
qed

lemma completed_run_validates_witness:
  "\<exists>s tr res. reach traced_demo s \<and> otracer (obs s) = Some tr \<and> length (snapshot tr) = 2 \<and>
    validator_run (\<lambda>k keys. rev keys) (heap s) (snapshot tr) 1 = Some res \<and> valid res"
proof -
  obtain s where s: "reach traced_demo s" "stuck s" "hist s = [HCall 1, HRet 1, HEnd 1, HCall 2, HRet 2, HEnd 2]"
    using traced_stuck by blast
  have n: "nname (hnode two_tasks 1) = ''a''" "nname (hnode two_tasks 2) = ''b''" by code_simp+
  have g: "gnodes (hgraph two_tasks 1) = [1, 2]" by code_simp
  have p: "HPanic n \<notin> set (hist s)" for n using s(3) by simp
  have i: "inj_on (\<lambda>n. nname (hnode two_tasks n)) (set (gnodes (hgraph two_tasks 1)))"
    unfolding g using n by (simp add: n [unfolded One_nat_def])
  have c: "nname (hnode two_tasks k) \<noteq> [] \<and> CHR '','' \<notin> set (nname (hnode two_tasks k))"
    if "k \<in> set (gnodes (hgraph two_tasks 1))" for k
    using that unfolding g by (auto simp: n [unfolded One_nat_def])
  have r: "is_ranging (\<lambda>k keys. rev keys)" by (simp add: is_ranging_def)
  from completed_run_validates [OF traced_starts traced_tracer two_tasks_live two_tasks_dag s(1,2) p i c r] s(1)
  show ?thesis unfolding g by auto
qed

end
