(* ===== verification/Scenarios.thy ===== *)
theory Scenarios
  imports Accounting
begin

text \<open>
  Executions with conditions, subflows, panics and repeated runs, evaluated step by step: what a
  condition does with the number its function returns, and runs in which the executor behaves
  differently from what its callers would expect. Every run is a list of events the machine accepts
  from a new executor.
\<close>

section \<open>Conditions\<close>

lemma branch_table_lookup:
  assumes "length ns < 2 ^ 64"
  shows "map_of (branch_table ns) v = (if unat v < length ns then Some (ns ! unat v) else None)"
proof -
  have d: "distinct (map fst (branch_table ns))"
  proof -
    have "inj_on (of_nat :: nat \<Rightarrow> uint) (set [0..<length ns])"
      using assms of_nat_uint_inj by (auto simp: inj_on_def)
    then show ?thesis by (simp add: branch_table_def distinct_map)
  qed
  show ?thesis
  proof (cases "unat v < length ns")
    case True
    then have "branch_table ns ! unat v = (v, ns ! unat v)" "unat v < length (branch_table ns)"
      by (simp_all add: branch_table_def)
    then have "(v, ns ! unat v) \<in> set (branch_table ns)" by (metis nth_mem)
    with d True show ?thesis by (simp add: map_of_is_SomeI)
  next
    case False
    have ne: "v \<noteq> of_nat i" if "i < length ns" for i
    proof
      assume "v = of_nat i"
      moreover have "i < 2 ^ 64" using that assms by linarith
      ultimately have "unat v = i" by (simp only: unat_of_nat_uint)
      with that False show False by simp
    qed
    have "fst ` set (branch_table ns) = of_nat ` {0..<length ns}"
      by (simp add: branch_table_def flip: list.set_map)
    moreover have "v \<notin> of_nat ` {0..<length ns}" using ne by (metis (full_types) atLeastLessThan_iff imageE)
    ultimately have "v \<notin> fst ` set (branch_table ns)" by simp
    with False show ?thesis by (simp add: map_of_eq_None_iff)
  qed
qed

text \<open>(C30) What a condition does with the number its function returns, for a condition wired with
  \<open>Precede\<close>: a number below the count of its successors schedules that successor; the count itself
  passes the check of \<open>invokeCondition\<close> and panics on the missing table entry instead; a larger
  number calls the user function a second time before it panics.\<close>

theorem condition_choice:
  assumes "ptr (hnode (heap s) n) = PCondition (branch_table ns)" "length ns < 2 ^ 64"
  shows "handle_step s i (ConditionC n p) sp (Choose v) =
    Some (if unat v < length ns
          then goto i (Schedule [ns ! unat v] (KCond (ConditionC n p) sp))
                 (log [HRet n] (on_heap (set_state kNodeStateFinished n) s))
          else if unat v = length ns
          then goto i (Defer (ConditionC n p) sp False)
                 (log [HRet n, HPanic n] (on_heap (set_state kNodeStateFinished n) s))
          else goto i (Defer (ConditionC n p) sp False) (log [HRet n, HCall n, HPanic n] s))"
proof -
  have "v > of_nat (length ns) \<longleftrightarrow> length ns < unat v"
    using assms(2) by (simp add: word_less_nat_alt unat_of_nat_uint)
  then show ?thesis
    using assms(1) by (simp add: branch_table_lookup [OF assms(2)] Let_def log_def on_heap_def)
qed

text \<open>A condition (node 2) between a task (node 1) and its only branch (node 3).\<close>

definition loop_flow :: heap where
  "loop_flow = fold (subflow_call 1)
     [BTask ''a'' 0, BCondition ''c'' 0, BTask ''t'' 0, BPrecede 1 [2], BPrecede 2 [3]]
     (snd (NewTaskFlow ''tf'' empty_heap))"

lemma condition_choice_witness:
  "handle_step (demo 1 loop_flow []) 0 (ConditionC 2 None) None (Choose 0) =
     Some (goto 0 (Schedule [3] (KCond (ConditionC 2 None) None))
       (log [HRet 2] (on_heap (set_state kNodeStateFinished 2) (demo 1 loop_flow []))))"
proof -
  have "ptr (hnode (heap (demo 1 loop_flow [])) 2) = PCondition [(0, 3)]" by code_simp
  then have "ptr (hnode (heap (demo 1 loop_flow [])) 2) = PCondition (branch_table [3])"
    by (simp add: branch_table_def)
  from condition_choice [OF this, of 0 None None 0] show ?thesis by simp
qed

section \<open>Panics\<close>

definition events :: "(tid \<times> choice) list \<Rightarrow> event list" where
  "events = map (\<lambda>(i, c). (i, c, 0))"

definition steps :: "tid \<Rightarrow> nat \<Rightarrow> (tid \<times> choice) list" where
  "steps i n = replicate n (i, Tau)"

lemma stuck_pcs:
  assumes "\<And>i. i < length (threads s) \<Longrightarrow>
    (\<exists>g k. threads s ! i = LWait g k) \<or> threads s ! i = WGone \<or> threads s ! i = Client [] \<or>
    (\<exists>cs. threads s ! i = Client (Wait # cs) \<and> wg s \<noteq> 0)"
  shows "stuck s"
  unfolding stuck_def
proof
  fix e :: event
  obtain i ch now where e: "e = (i, ch, now)" by (cases e)
  show "step s e = None"
  proof (cases "i < length (threads s)")
    case True
    from assms [OF this] show ?thesis by (auto simp: e)
  qed (simp add: e)
qed

text \<open>Three independent tasks.\<close>

definition three_tasks :: heap where
  "three_tasks = fold (subflow_call 1) [BTask ''a'' 0, BTask ''b'' 0, BTask ''c'' 0]
     (snd (NewTaskFlow ''tf'' empty_heap))"

definition panic_trace :: "event list" where
  "panic_trace = events ([(0, Tau), (0, Sorted [1, 2, 3])] @ steps 0 13 @
     [(1, Tau), (1, Tau), (1, Panic), (1, Tau)] @ steps 0 3 @ steps 1 2 @ [(1, Sorted [])] @ steps 1 4)"

text \<open>A panic can block \<open>Wait\<close> for ever. With three independent tasks on one worker, the first
  task panics after all three were queued; the loop leaves the canceled graph with two nodes still
  in the executor's queue, nobody will take them out, and the wait group stays at two: the client
  is blocked in \<open>Wait\<close> and no goroutine can move.\<close>

lemma panic_blocks_Wait:
  "\<exists>s. reach (demo 1 three_tasks [Run 1, Wait]) s \<and> stuck s \<and> threads s = [Client [Wait], WGone] \<and>
     wg s = 2 \<and> items (wq s) = [2, 3] \<and> hist s = [HCall 1, HPanic 1, HEnd 1]"
proof -
  have "map_option (\<lambda>s. (wg s, threads s, items (wq s), hist s)) (run (demo 1 three_tasks [Run 1, Wait]) panic_trace) =
    Some (2, [Client [Wait], WGone], [2, 3], [HCall 1, HPanic 1, HEnd 1])"
    by code_simp
  then obtain s where s: "run (demo 1 three_tasks [Run 1, Wait]) panic_trace = Some s" "wg s = 2"
    "threads s = [Client [Wait], WGone]" "items (wq s) = [2, 3]" "hist s = [HCall 1, HPanic 1, HEnd 1]"
    by auto
  have "stuck s" by (rule stuck_pcs) (use s(2,3) in \<open>auto simp: less_Suc_eq\<close>)
  with run_reach [OF s(1) reach.start] s show ?thesis by blast
qed


definition rerun_trace :: "event list" where
  "rerun_trace = events ([(0, Tau), (0, Sorted [1])] @ steps 0 7 @
     [(1, Tau), (1, Tau), (1, Panic)] @ steps 1 3 @ [(1, Sorted [])] @ steps 1 4 @ steps 0 5 @
     [(0, Sorted [1])] @ steps 0 5)"

text \<open>A panic disables a flow for good: the cancellation flag of its graph is never cleared (not
  by \<open>Reset\<close> either, which only unfreezes), so the second \<open>Run\<close> of a flow whose only task panicked
  in the first returns, and \<open>Wait\<close> returns, without the task having been called again.\<close>

lemma canceled_flow_skips:
  "\<exists>s. reach (demo 1 one_task [Run 1, Wait, Run 1, Wait]) s \<and> threads s = [Client [], WGone] \<and>
     hist s = [HCall 1, HPanic 1, HEnd 1]"
proof -
  have "map_option (\<lambda>s. (threads s, hist s)) (run (demo 1 one_task [Run 1, Wait, Run 1, Wait]) rerun_trace) =
    Some ([Client [], WGone], [HCall 1, HPanic 1, HEnd 1])"
    by code_simp
  then obtain s where s: "run (demo 1 one_task [Run 1, Wait, Run 1, Wait]) rerun_trace = Some s"
    "threads s = [Client [], WGone]" "hist s = [HCall 1, HPanic 1, HEnd 1]"
    by auto
  with run_reach [OF s(1) reach.start] show ?thesis by blast
qed

section \<open>Repeated runs of a condition\<close>

definition late_setup_trace :: "event list" where
  "late_setup_trace = events ([(0, Tau), (0, Sorted [1])] @ steps 0 7 @
     steps 1 2 @ [(1, Return)] @ steps 1 5 @ [(1, Sorted [2])] @ steps 1 6 @ steps 0 3 @
     steps 1 2 @ [(1, Choose 0)] @ steps 1 7 @ steps 0 3 @
     steps 2 2 @ [(2, Return)] @ steps 2 3 @ [(2, Sorted [])] @ steps 2 4 @ steps 1 1 @
     steps 0 4 @ [(0, Sorted [1])] @ steps 1 2 @ steps 0 7 @
     steps 1 2 @ [(1, Return)] @ steps 1 5 @ [(1, Sorted [])] @ steps 1 4 @ steps 3 1 @ steps 0 4)"

text \<open>The second of two runs can silently lose a condition and all that follows it. The deferred
  function of a condition releases the graph before it sets its node up again (\<open>invokeCondition\<close>,
  \<open>deref\<close> then \<open>setup\<close>); when the next \<open>Run\<close> sets the graph up in between, the late \<open>setup\<close> adds
  the node's references a second time, its counter never reaches zero, and the run ends without
  calling the condition or its branch. No task panics.\<close>

lemma late_setup_loses_condition:
  "\<exists>s. reach (demo 2 loop_flow [Run 1, Run 1, Wait]) s \<and> threads s = [Client [], WGone, WGone, WGone] \<and>
     hist s = [HCall 1, HRet 1, HEnd 1, HCall 2, HRet 2, HCall 3, HRet 3, HEnd 3, HEnd 2,
       HCall 1, HRet 1, HEnd 1]"
proof -
  have "map_option (\<lambda>s. (threads s, hist s)) (run (demo 2 loop_flow [Run 1, Run 1, Wait]) late_setup_trace) =
    Some ([Client [], WGone, WGone, WGone], [HCall 1, HRet 1, HEnd 1, HCall 2, HRet 2, HCall 3, HRet 3,
      HEnd 3, HEnd 2, HCall 1, HRet 1, HEnd 1])"
    by code_simp
  then obtain s where s: "run (demo 2 loop_flow [Run 1, Run 1, Wait]) late_setup_trace = Some s"
    "threads s = [Client [], WGone, WGone, WGone]"
    "hist s = [HCall 1, HRet 1, HEnd 1, HCall 2, HRet 2, HCall 3, HRet 3, HEnd 3, HEnd 2, HCall 1, HRet 1, HEnd 1]"
    by auto
  with run_reach [OF s(1) reach.start] show ?thesis by blast
qed

section \<open>Loops\<close>

text \<open>A task that is retried by a condition: init (node 1), try (node 2), check (node 3), which sends 0
  to go back to try.\<close>

definition retry_flow :: heap where
  "retry_flow = fold (subflow_call 1)
     [BTask ''init'' 0, BTask ''try'' 0, BCondition ''check'' 0, BPrecede 1 [2], BPrecede 2 [3], BPrecede 3 [2]]
     (snd (NewTaskFlow ''tf'' empty_heap))"

definition lost_retry_trace :: "event list" where
  "lost_retry_trace = events ([(0, Tau), (0, Sorted [1])] @ steps 0 8 @
     steps 1 2 @ [(1, Return)] @ steps 1 5 @ [(1, Sorted [2])] @ steps 1 3 @ steps 0 4 @ steps 1 2 @ steps 0 1 @
     steps 1 3 @ [(1, Return)] @ steps 1 5 @ [(1, Sorted [3])] @ steps 1 3 @ steps 0 4 @ steps 1 2 @ steps 0 1 @
     steps 1 3 @ [(1, Choose 0)] @ steps 1 3 @ steps 0 4 @ steps 1 1 @
     steps 2 2 @ [(2, Return)] @ steps 2 5 @ [(2, Sorted [])] @ steps 2 2 @ steps 0 1 @ steps 2 2 @
     steps 1 5 @ steps 0 3 @ steps 1 2 @ steps 0 1)"

text \<open>A retry can be lost within one run. The condition chooses to go back; its goroutine stalls
  after it has scheduled the task and before it sets its own counter up again (\<open>invokeCondition\<close>:
  \<open>schedule\<close> in the body, \<open>setup\<close> at the end of the deferred function). The other worker executes the
  task, whose \<open>drop\<close> takes the counter of the condition from 0 to -1; the condition is not scheduled, and
  its late \<open>setup\<close> brings the counter to 0 with nobody left to look at it. \<open>Run\<close> and \<open>Wait\<close> return as if
  the flow had completed: the condition was not called after the retry. No task panics.\<close>

lemma retry_can_be_lost:
  "\<exists>s. reach (demo 2 retry_flow [Run 1, Wait]) s \<and> threads s = [Client [], WGone, WGone] \<and>
     hist s = [HCall 1, HRet 1, HEnd 1, HCall 2, HRet 2, HEnd 2, HCall 3, HRet 3, HCall 2, HRet 2, HEnd 2, HEnd 3]"
proof -
  have "map_option (\<lambda>s. (threads s, hist s)) (run (demo 2 retry_flow [Run 1, Wait]) lost_retry_trace) =
    Some ([Client [], WGone, WGone], [HCall 1, HRet 1, HEnd 1, HCall 2, HRet 2, HEnd 2, HCall 3, HRet 3,
      HCall 2, HRet 2, HEnd 2, HEnd 3])"
    by code_simp
  then obtain s where s: "run (demo 2 retry_flow [Run 1, Wait]) lost_retry_trace = Some s"
    "threads s = [Client [], WGone, WGone]"
    "hist s = [HCall 1, HRet 1, HEnd 1, HCall 2, HRet 2, HEnd 2, HCall 3, HRet 3, HCall 2, HRet 2, HEnd 2, HEnd 3]"
    by auto
  with run_reach [OF s(1) reach.start] show ?thesis by blast
qed

text \<open>A condition (node 3) that polls itself with 0 and goes back to the task before it (node 2) with 1.\<close>

definition poll_flow :: heap where
  "poll_flow = fold (subflow_call 1)
     [BTask ''init'' 0, BTask ''a'' 0, BCondition ''c'' 0, BPrecede 1 [2], BPrecede 2 [3], BPrecede 3 [3, 2]]
     (snd (NewTaskFlow ''tf'' empty_heap))"

definition poll_trace :: "event list" where
  "poll_trace = events ([(0, Tau), (0, Sorted [1])] @ steps 0 8 @
     steps 1 2 @ [(1, Return)] @ steps 1 5 @ [(1, Sorted [2])] @ steps 1 3 @ steps 0 4 @ steps 1 2 @ steps 0 1 @
     steps 1 3 @ [(1, Return)] @ steps 1 5 @ [(1, Sorted [3])] @ steps 1 3 @ steps 0 4 @ steps 1 2 @ steps 0 1 @
     steps 1 3 @ [(1, Choose 0)] @ steps 1 3 @ steps 0 4 @ steps 1 7 @ steps 0 1 @
     steps 1 3 @ [(1, Choose 1)] @ steps 1 3 @ steps 0 4 @ steps 1 7 @ steps 0 1 @
     steps 1 3 @ [(1, Return)] @ steps 1 5 @ [(1, Sorted [])] @ steps 1 2 @ steps 0 3 @ steps 1 1 @ steps 0 1 @ steps 1 1)"

text \<open>A node that a condition has entered is not entered again by its task. \<open>innerNode.setup\<close> adds
  the node's references to its counter instead of setting it: a node executed through a condition, which
  takes no reference away, is left with one set of references too many. Here, on one worker, the
  condition polls itself once and then goes back to the task before it; the task is executed, its \<open>drop\<close>
  leaves the condition's counter at one, and the run ends without the condition being called.\<close>

lemma reentered_node_is_lost:
  "\<exists>s. reach (demo 1 poll_flow [Run 1, Wait]) s \<and> threads s = [Client [], WGone] \<and>
     njoin (hnode (heap s) 3) = 1 \<and>
     hist s = [HCall 1, HRet 1, HEnd 1, HCall 2, HRet 2, HEnd 2, HCall 3, HRet 3, HEnd 3, HCall 3, HRet 3, HEnd 3,
       HCall 2, HRet 2, HEnd 2]"
proof -
  have "map_option (\<lambda>s. (threads s, njoin (hnode (heap s) 3), hist s)) (run (demo 1 poll_flow [Run 1, Wait]) poll_trace) =
    Some ([Client [], WGone], 1, [HCall 1, HRet 1, HEnd 1, HCall 2, HRet 2, HEnd 2, HCall 3, HRet 3, HEnd 3,
      HCall 3, HRet 3, HEnd 3, HCall 2, HRet 2, HEnd 2])"
    by code_simp
  then obtain s where s: "run (demo 1 poll_flow [Run 1, Wait]) poll_trace = Some s"
    "threads s = [Client [], WGone]" "njoin (hnode (heap s) 3) = 1"
    "hist s = [HCall 1, HRet 1, HEnd 1, HCall 2, HRet 2, HEnd 2, HCall 3, HRet 3, HEnd 3,
      HCall 3, HRet 3, HEnd 3, HCall 2, HRet 2, HEnd 2]"
    by auto
  with run_reach [OF s(1) reach.start] show ?thesis by blast
qed

section \<open>Subflows\<close>

definition sub_flow :: heap where
  "sub_flow = subflow_call 1 (BSubflow ''sub'' 0) (snd (NewTaskFlow ''tf'' empty_heap))"

definition starved_trace :: "event list" where
  "starved_trace = events ([(0, Tau), (0, Sorted [1])] @ steps 0 8 @
     steps 1 2 @ [(1, Instantiate [BTask ''x'' 0] True)] @ steps 1 1 @ [(1, Sorted [2])] @ steps 1 8)"

text \<open>One worker cannot run a subflow: the worker that executes it waits, inside its task, for
  the tasks of the subflow, which are queued for the same worker. Both the worker and \<open>Run\<close> sleep
  for ever. (The documentation asks for more workers than subflows.)\<close>

lemma subflow_starves_one_worker:
  "\<exists>s. reach (demo 1 sub_flow [Run 1, Wait]) s \<and> stuck s \<and>
     threads s = [LWait 1 (GMain [Wait]), LWait 2 (GSub (SubflowC 1 None 2) None)] \<and>
     pool_items (epool s) = [StaticC 2 None]"
proof -
  have "map_option (\<lambda>s. (threads s, pool_items (epool s))) (run (demo 1 sub_flow [Run 1, Wait]) starved_trace) =
    Some ([LWait 1 (GMain [Wait]), LWait 2 (GSub (SubflowC 1 None 2) None)], [StaticC 2 None])"
    by code_simp
  then obtain s where s: "run (demo 1 sub_flow [Run 1, Wait]) starved_trace = Some s"
    "threads s = [LWait 1 (GMain [Wait]), LWait 2 (GSub (SubflowC 1 None 2) None)]"
    "pool_items (epool s) = [StaticC 2 None]"
    by auto
  have "stuck s" by (rule stuck_pcs) (use s(2) in \<open>auto simp: less_Suc_eq\<close>)
  with run_reach [OF s(1) reach.start] s show ?thesis by blast
qed

definition mixed_flow :: heap where
  "mixed_flow = fold (subflow_call 1) [BSubflow ''sub'' 0, BTask ''b'' 0] (snd (NewTaskFlow ''tf'' empty_heap))"

definition traced_executor :: sys where
  "traced_executor = projr (NewExecutor 2 [WithTracer] 0 mixed_flow [[Run 1, Wait]])"

definition stolen_trace :: "event list" where
  "stolen_trace = events ([(0, Tau), (0, Sorted [1, 2])] @ steps 0 10 @
     steps 1 2 @ [(1, Instantiate [BTask ''x'' 0] True)] @ steps 1 1 @ [(1, Sorted [3])] @ steps 1 7 @
     steps 2 2 @ [(2, Return)] @ steps 2 1)"

text \<open>The parent in a trace can be wrong. The loop of a subflow takes whatever node is first in
  the executor's queue and passes the subflow's span on as its parent, so a task of the outer flow
  that does not belong to the subflow is recorded as its child.\<close>

lemma trace_parent_wrong:
  "\<exists>s. reach traced_executor s \<and> ngraph (hnode (heap s) 2) = 1 \<and>
     map_option (\<lambda>t. map (\<lambda>e. (eName e, eArgs e)) (snapshot t)) (otracer (obs s)) =
       Some [(''sub'', []), (''b'', [(''parent'', ''sub'')])]"
proof -
  have "map_option (\<lambda>s. (ngraph (hnode (heap s) 2),
      map_option (\<lambda>t. map (\<lambda>e. (eName e, eArgs e)) (snapshot t)) (otracer (obs s)))) (run traced_executor stolen_trace) =
    Some (1, Some [(''sub'', []), (''b'', [(''parent'', ''sub'')])])"
    by code_simp
  then obtain s where s: "run traced_executor stolen_trace = Some s" "ngraph (hnode (heap s) 2) = 1"
    "map_option (\<lambda>t. map (\<lambda>e. (eName e, eArgs e)) (snapshot t)) (otracer (obs s)) =
       Some [(''sub'', []), (''b'', [(''parent'', ''sub'')])]"
    by auto
  have "reach traced_executor s" using run_reach [OF s(1) reach.start] .
  with s(2,3) show ?thesis by (intro exI [of _ s] conjI)
qed

end
