(* ===== verification/Dot.thy ===== *)
theory Dot
  imports Graph_Walk
begin

text \<open>
  The DOT output of \<open>visualizer_dot.go\<close>. A DOT graph is a tree. Of the two ends of an edge only the
  names are used, and these never change, so an edge holds the names of its ends. A Go map is an
  association list in the order of insertion; the order in which a map is printed is open, and is an
  argument of the printing functions: \<open>r path keys\<close> is the order of the \<open>range\<close> at \<open>path\<close>.
\<close>

section \<open>The code: building the graph\<close>

type_synonym attributes = "(string \<times> string) list"

record dot_edge =
  edge_from :: string
  edge_to :: string
  edge_attributes :: attributes

datatype dot_graph = DotGraph (dname: string) (isSubgraph: bool) (dnodes: "(string \<times> attributes) list")
  (dedges: "dot_edge list") (dattributes: attributes) (subgraphs: "dot_graph list") (indent: string)

definition newDotGraph :: "string \<Rightarrow> dot_graph" where
  "newDotGraph name = DotGraph name False [] [] [] [] []"

text \<open>\<open>SubGraph\<close> makes the graph; \<open>add_subgraph\<close> is its append, done here when the subgraph is complete.\<close>

definition SubGraph :: "string \<Rightarrow> dot_graph \<Rightarrow> dot_graph" where
  "SubGraph name d = DotGraph name True [] [] [] [] (indent d @ ''  '')"

fun add_subgraph :: "dot_graph \<Rightarrow> dot_graph \<Rightarrow> dot_graph" where
  "add_subgraph s (DotGraph nm b ns es as ss i) = DotGraph nm b ns es as (ss @ [s]) i"

fun CreateNode :: "string \<Rightarrow> dot_graph \<Rightarrow> dot_graph" where
  "CreateNode name (DotGraph nm b ns es as ss i) =
     (case map_of ns name of Some _ \<Rightarrow> DotGraph nm b ns es as ss i
      | None \<Rightarrow> DotGraph nm b (ns @ [(name, [])]) es as ss i)"

fun node_attribute :: "string \<Rightarrow> string \<Rightarrow> string \<Rightarrow> dot_graph \<Rightarrow> dot_graph" where
  "node_attribute name k v (DotGraph nm b ns es as ss i) =
     DotGraph nm b (map (\<lambda>(id, at). (id, if id = name then AList.update k v at else at)) ns) es as ss i"

fun graph_attribute :: "string \<Rightarrow> string \<Rightarrow> dot_graph \<Rightarrow> dot_graph" where
  "graph_attribute k v (DotGraph nm b ns es as ss i) = DotGraph nm b ns es (AList.update k v as) ss i"

fun CreateEdge :: "string \<Rightarrow> string \<Rightarrow> string \<Rightarrow> attributes \<Rightarrow> dot_graph \<Rightarrow> dot_graph" where
  "CreateEdge from to label style (DotGraph nm b ns es as ss i) =
     DotGraph nm b ns (es @ [\<lparr>edge_from = from, edge_to = to,
       edge_attributes = (if label \<noteq> [] then [(''label'', label)] else []) @ style\<rparr>]) as ss i"

text \<open>The first loop of \<open>visualizeG\<close>: one DOT node or cluster per task. The second argument of the state
  is \<open>nodeMap\<close>.\<close>

definition color_of :: "heap \<Rightarrow> nid \<Rightarrow> string" where
  "color_of h n =
     (if priority (hnode h n) = HIGH then ''#f5427b''
      else if priority (hnode h n) = LOW then ''purple'' else ''black'')"

type_synonym node_map = "(string \<times> string) list"

definition vis_static :: "heap \<Rightarrow> nid \<Rightarrow> dot_graph \<times> node_map \<Rightarrow> dot_graph \<times> node_map" where
  "vis_static h n st =
     (case st of (d, m) \<Rightarrow>
        let name = nname (hnode h n)
        in (node_attribute name ''color'' (color_of h n) (CreateNode name d), AList.update name name m))"

definition vis_condition :: "heap \<Rightarrow> nid \<Rightarrow> dot_graph \<times> node_map \<Rightarrow> dot_graph \<times> node_map" where
  "vis_condition h n st =
     (case st of (d, m) \<Rightarrow>
        let name = nname (hnode h n)
        in (node_attribute name ''color'' ''green'' (node_attribute name ''shape'' ''diamond'' (CreateNode name d)),
            AList.update name name m))"

text \<open>The cluster of a subflow before its graph is visualized.\<close>

definition cluster :: "heap \<Rightarrow> nid \<Rightarrow> dot_graph \<Rightarrow> dot_graph" where
  "cluster h n d =
     (let name = nname (hnode h n)
      in node_attribute name ''width'' ''0.05'' (node_attribute name ''height'' ''0.05''
           (node_attribute name ''shape'' ''point'' (CreateNode name
             (graph_attribute ''fontcolor'' (color_of h n) (graph_attribute ''bgcolor'' ''#F5F5F5''
               (graph_attribute ''rankdir'' ''LR'' (graph_attribute ''style'' ''dashed''
                 (graph_attribute ''label'' name (SubGraph name d))))))))))"

text \<open>After it: the append, and the replacement node when an error came back.\<close>

definition vis_subflow :: "heap \<Rightarrow> nid \<Rightarrow> gid \<Rightarrow> string option \<Rightarrow> dot_graph \<Rightarrow> dot_graph \<times> node_map \<Rightarrow> dot_graph \<times> node_map" where
  "vis_subflow h n g err sub st =
     (case st of (d, m) \<Rightarrow>
        let name = nname (hnode h n); d1 = add_subgraph sub d; m1 = AList.update name name m
        in (case err of None \<Rightarrow> (d1, m1)
            | Some e \<Rightarrow>
                (let bad = ''unvisualized_subflow_'' @ gname (hgraph h g)
                 in (node_attribute bad ''comment'' ''cannot visualize due to instantiate panic or failed''
                       (node_attribute bad ''color'' ''#a10212'' (CreateNode bad d1)),
                     AList.update name bad m1))))"

text \<open>The second loop: the edges.\<close>

definition is_condition_node :: "heap \<Rightarrow> nid \<Rightarrow> bool" where
  "is_condition_node h n = (case ptr (hnode h n) of PCondition _ \<Rightarrow> True | _ \<Rightarrow> False)"

definition vis_edge :: "heap \<Rightarrow> node_map \<Rightarrow> nid \<Rightarrow> nat \<times> nid \<Rightarrow> dot_graph \<Rightarrow> dot_graph" where
  "vis_edge h m n e d =
     (case (map_of m (nname (hnode h n)), map_of m (nname (hnode h (snd e)))) of
        (Some from, Some to) \<Rightarrow>
          if is_condition_node h n then CreateEdge from to (itoa (fst e)) [(''style'', ''dashed'')] d
          else CreateEdge from to [] [] d
      | _ \<Rightarrow> d)"

definition vis_edges :: "heap \<Rightarrow> node_map \<Rightarrow> nid list \<Rightarrow> dot_graph \<Rightarrow> dot_graph" where
  "vis_edges h m ns d =
     fold (\<lambda>n d. fold (vis_edge h m n) (List.enumerate 0 (successors (hnode h n))) d) ns d"

text \<open>\<open>visualizeG\<close>. The loop over the nodes carries the recursion into the subflows; \<open>vis_end\<close> is what
  follows the loop, with the error that is returned.\<close>

definition vis_end :: "heap \<Rightarrow> nid list \<Rightarrow> dot_graph \<times> node_map \<Rightarrow> string option \<times> dot_graph" where
  "vis_end h ns st = (None, vis_edges h (snd st) ns (fst st))"

partial_function (option) vis_nodes ::
    "heap \<Rightarrow> nid list \<Rightarrow> dot_graph \<times> node_map \<Rightarrow> (dot_graph \<times> node_map) option" where
  "vis_nodes h ns st =
     (case ns of [] \<Rightarrow> Some st
      | n # ns' \<Rightarrow>
          (case ptr (hnode h n) of
             PStatic \<Rightarrow> vis_nodes h ns' (vis_static h n st)
           | PCondition t \<Rightarrow> vis_nodes h ns' (vis_condition h n st)
           | PSubflow g \<Rightarrow>
               do { sub \<leftarrow> vis_nodes h (gnodes (hgraph h g))
                      (graph_attribute ''rankdir'' ''LR'' (cluster h n (fst st)), []);
                    vis_nodes h ns' (vis_subflow h n g (fst (vis_end h (gnodes (hgraph h g)) sub))
                      (snd (vis_end h (gnodes (hgraph h g)) sub)) st) }
           | PNil \<Rightarrow> vis_nodes h ns' st))"

declare vis_nodes.simps [code]

definition visualizeG :: "heap \<Rightarrow> gid \<Rightarrow> dot_graph \<Rightarrow> (string option \<times> dot_graph) option" where
  "visualizeG h g d =
     do { st \<leftarrow> vis_nodes h (gnodes (hgraph h g)) (graph_attribute ''rankdir'' ''LR'' d, []);
          Some (vis_end h (gnodes (hgraph h g)) st) }"

section \<open>The code: printing\<close>

type_synonym print_order = "nat list \<Rightarrow> string list \<Rightarrow> string list"

definition nl :: string where "nl = [CHR 0x0A]"

definition quote :: "string \<Rightarrow> string" where
  "quote s = [CHR 0x22] @ s @ [CHR 0x22]"

text \<open>\<open>strings.Join(result, ", ")\<close>.\<close>

fun join_attrs :: "string list \<Rightarrow> string" where
  "join_attrs [] = []"
| "join_attrs [x] = x"
| "join_attrs (x # xs) = x @ '', '' @ join_attrs xs"

definition in_order :: "print_order \<Rightarrow> nat list \<Rightarrow> (string \<times> 'a) list \<Rightarrow> (string \<times> 'a) list" where
  "in_order r path m = map (\<lambda>k. (k, the (map_of m k))) (r path (map fst m))"

definition formatAttributes :: "print_order \<Rightarrow> nat list \<Rightarrow> attributes \<Rightarrow> string" where
  "formatAttributes r path attrs =
     (if length attrs = 0 then []
      else join_attrs (map (\<lambda>(k, v). k @ ''='' @ quote v) (in_order r path attrs)))"

definition node_Format :: "print_order \<Rightarrow> nat list \<Rightarrow> string \<Rightarrow> string \<times> attributes \<Rightarrow> string" where
  "node_Format r path ind node =
     (let attrs = formatAttributes r path (snd node)
      in if attrs = [] then ind @ quote (fst node) @ '';'' @ nl
         else ind @ quote (fst node) @ '' ['' @ attrs @ ''];'' @ nl)"

definition edge_Format :: "print_order \<Rightarrow> nat list \<Rightarrow> string \<Rightarrow> dot_edge \<Rightarrow> string" where
  "edge_Format r path ind e =
     (let attrs = formatAttributes r path (edge_attributes e)
      in if attrs = [] then ind @ quote (edge_from e) @ '' -> '' @ quote (edge_to e) @ '';'' @ nl
         else ind @ quote (edge_from e) @ '' -> '' @ quote (edge_to e) @ '' ['' @ attrs @ ''];'' @ nl)"

fun graph_String :: "print_order \<Rightarrow> nat list \<Rightarrow> dot_graph \<Rightarrow> string"
  and subgraph_Strings :: "print_order \<Rightarrow> nat list \<Rightarrow> nat \<Rightarrow> dot_graph list \<Rightarrow> string" where
  "graph_String r path (DotGraph nm b ns es as ss i) =
     (if b then i @ ''subgraph '' @ quote (''cluster_'' @ nm) @ '' {'' @ nl
      else i @ ''digraph '' @ quote nm @ '' {'' @ nl) @
     concat (map (\<lambda>(k, v). i @ ''  '' @ k @ ''='' @ quote v @ '';'' @ nl) (in_order r (0 # path) as)) @
     concat (map (\<lambda>(j, x). node_Format r (1 # j # path) (i @ ''  '') x) (List.enumerate 0 (in_order r (2 # path) ns))) @
     concat (map (\<lambda>(j, e). edge_Format r (3 # j # path) (i @ ''  '') e) (List.enumerate 0 es)) @
     subgraph_Strings r path 0 ss @ i @ ''}'' @ nl"
| "subgraph_Strings r path j [] = []"
| "subgraph_Strings r path j (s # ss) = graph_String r (4 # j # path) s @ subgraph_Strings r path (Suc j) ss"

text \<open>\<open>Visualize\<close>: the text handed to the writer, or the error.\<close>

definition Visualize :: "print_order \<Rightarrow> heap \<Rightarrow> tfid \<Rightarrow> (string + string) option" where
  "Visualize r h tf =
     (let g = graph (hflow h tf); name = gname (hgraph h g)
      in case visualizeG h g (newDotGraph name) of
           None \<Rightarrow> None
         | Some (Some e, d) \<Rightarrow> Some (Inl (''visualize '' @ name @ '' -> '' @ e))
         | Some (None, d) \<Rightarrow> Some (Inr (graph_String r [] d)))"

section \<open>The graph that is drawn\<close>

text \<open>What a graph with clear names becomes: one DOT node per task that is not a subflow, one cluster
  per subflow, one edge per successor entry, in the order of the flow; the edges of a condition carry
  the position of the successor.\<close>

definition is_subflow_node :: "heap \<Rightarrow> nid \<Rightarrow> bool" where
  "is_subflow_node h n = (case ptr (hnode h n) of PSubflow _ \<Rightarrow> True | _ \<Rightarrow> False)"

definition task_node :: "heap \<Rightarrow> nid \<Rightarrow> string \<times> attributes" where
  "task_node h n = (nname (hnode h n),
     if is_condition_node h n then [(''shape'', ''diamond''), (''color'', ''green'')]
     else [(''color'', color_of h n)])"

definition task_edges :: "heap \<Rightarrow> nid \<Rightarrow> dot_edge list" where
  "task_edges h n = map (\<lambda>(i, v). \<lparr>edge_from = nname (hnode h n), edge_to = nname (hnode h v),
     edge_attributes = (if is_condition_node h n then [(''label'', itoa i), (''style'', ''dashed'')] else [])\<rparr>)
     (List.enumerate 0 (successors (hnode h n)))"

definition point_node :: "string \<Rightarrow> string \<times> attributes" where
  "point_node name = (name, [(''shape'', ''point''), (''height'', ''0.05''), (''width'', ''0.05'')])"

inductive draws :: "heap \<Rightarrow> (string \<times> attributes) list \<Rightarrow> gid \<Rightarrow> dot_graph \<Rightarrow> bool" for h where
  "dnodes d = own @ map (task_node h) (filter (\<lambda>n. \<not> is_subflow_node h n) (gnodes (hgraph h g))) \<Longrightarrow>
   dedges d = concat (map (task_edges h) (gnodes (hgraph h g))) \<Longrightarrow>
   list_all2 (\<lambda>n s. dname s = nname (hnode h n) \<and> isSubgraph s \<and>
       (\<exists>k. ptr (hnode h n) = PSubflow k \<and> draws h [point_node (nname (hnode h n))] k s))
     (filter (is_subflow_node h) (gnodes (hgraph h g))) (subgraphs d) \<Longrightarrow>
   draws h own g d"

text \<open>Names that can be told apart, and edges that stay inside their graph.\<close>

definition clear_names :: "heap \<Rightarrow> bool" where
  "clear_names h \<longleftrightarrow> (\<forall>g. distinct (map (\<lambda>n. nname (hnode h n)) (gnodes (hgraph h g)))) \<and>
     (\<forall>n k. ptr (hnode h n) = PSubflow k \<longrightarrow> nname (hnode h n) \<notin> (\<lambda>m. nname (hnode h m)) ` set (gnodes (hgraph h k)))"

definition local_edges :: "heap \<Rightarrow> bool" where
  "local_edges h \<longleftrightarrow> (\<forall>g. \<forall>n \<in> set (gnodes (hgraph h g)). set (successors (hnode h n)) \<subseteq> set (gnodes (hgraph h g)))"

section \<open>The loops of \<open>visualizeG\<close>\<close>

lemma itoa_nonempty [simp]: "itoa n \<noteq> []"
  by (subst itoa.simps) auto

text \<open>The parts of a graph a building function leaves alone.\<close>

lemma graph_attribute_simps [simp]:
  "dname (graph_attribute k v d) = dname d" "isSubgraph (graph_attribute k v d) = isSubgraph d"
  "dnodes (graph_attribute k v d) = dnodes d" "dedges (graph_attribute k v d) = dedges d"
  "subgraphs (graph_attribute k v d) = subgraphs d"
  by (cases d; simp)+

lemma add_subgraph_simps [simp]:
  "dname (add_subgraph s d) = dname d" "isSubgraph (add_subgraph s d) = isSubgraph d"
  "dnodes (add_subgraph s d) = dnodes d" "dedges (add_subgraph s d) = dedges d"
  "subgraphs (add_subgraph s d) = subgraphs d @ [s]"
  by (cases d; simp)+

lemma node_simps [simp]:
  "dname (node_attribute nm k v d) = dname d" "isSubgraph (node_attribute nm k v d) = isSubgraph d"
  "dedges (node_attribute nm k v d) = dedges d" "subgraphs (node_attribute nm k v d) = subgraphs d"
  "dname (CreateNode nm d) = dname d" "isSubgraph (CreateNode nm d) = isSubgraph d"
  "dedges (CreateNode nm d) = dedges d" "subgraphs (CreateNode nm d) = subgraphs d"
  by (cases d; simp split: option.splits)+

lemma dnodes_attribute:
  "dnodes (node_attribute nm k v d) = map (\<lambda>(id, at). (id, if id = nm then AList.update k v at else at)) (dnodes d)"
  by (cases d) simp

lemma CreateNode_new: "name \<notin> fst ` set (dnodes d) \<Longrightarrow> dnodes (CreateNode name d) = dnodes d @ [(name, [])]"
  by (cases d) (auto simp: map_of_eq_None_iff split: option.splits)

lemma untouched_nodes: "name \<notin> fst ` set ns \<Longrightarrow> map (\<lambda>(id, at). (id, if id = name then f at else at)) ns = ns"
  by (induction ns) auto

fun add_edges :: "dot_edge list \<Rightarrow> dot_graph \<Rightarrow> dot_graph" where
  "add_edges new (DotGraph nm b ns es as ss i) = DotGraph nm b ns (es @ new) as ss i"

lemma add_edges_simps [simp]:
  "dname (add_edges es d) = dname d" "isSubgraph (add_edges es d) = isSubgraph d" "dnodes (add_edges es d) = dnodes d"
  "subgraphs (add_edges es d) = subgraphs d" "dedges (add_edges es d) = dedges d @ es"
  "add_edges [] d = d" "add_edges es (add_edges es' d) = add_edges (es' @ es) d"
  by (cases d; simp)+

lemma CreateEdge_add:
  "CreateEdge a b l m d = add_edges [\<lparr>edge_from = a, edge_to = b,
     edge_attributes = (if l \<noteq> [] then [(''label'', l)] else []) @ m\<rparr>] d"
  by (cases d) simp

definition task_edge :: "heap \<Rightarrow> nid \<Rightarrow> nat \<times> nid \<Rightarrow> dot_edge" where
  "task_edge h n e = \<lparr>edge_from = nname (hnode h n), edge_to = nname (hnode h (snd e)),
     edge_attributes = (if is_condition_node h n then [(''label'', itoa (fst e)), (''style'', ''dashed'')] else [])\<rparr>"

lemma vis_edge_loop:
  assumes "map_of m (nname (hnode h n)) = Some (nname (hnode h n))"
    "\<forall>v \<in> set vs. map_of m (nname (hnode h v)) = Some (nname (hnode h v))"
  shows "fold (vis_edge h m n) (List.enumerate j vs) d = add_edges (map (task_edge h n) (List.enumerate j vs)) d"
  using assms by (induction vs arbitrary: j d) (simp_all add: vis_edge_def task_edge_def CreateEdge_add)

lemma vis_edges_draws:
  assumes "\<And>n. n \<in> set ns \<Longrightarrow> map_of m (nname (hnode h n)) = Some (nname (hnode h n)) \<and>
    (\<forall>v \<in> set (successors (hnode h n)). map_of m (nname (hnode h v)) = Some (nname (hnode h v)))"
  shows "vis_edges h m ns d = add_edges (concat (map (task_edges h) ns)) d"
proof -
  have t: "task_edges h n = map (task_edge h n) (List.enumerate 0 (successors (hnode h n)))" for n
    by (simp add: task_edges_def task_edge_def case_prod_unfold)
  show ?thesis
    using assms unfolding vis_edges_def
  proof (induction ns arbitrary: d)
    case (Cons n ns)
    have "fold (vis_edge h m n) (List.enumerate 0 (successors (hnode h n))) d = add_edges (task_edges h n) d"
      unfolding t by (rule vis_edge_loop) (use Cons.prems in auto)
    moreover have "fold (\<lambda>n. fold (vis_edge h m n) (List.enumerate 0 (successors (hnode h n)))) ns d' =
        add_edges (concat (map (task_edges h) ns)) d'" for d'
      by (rule Cons.IH) (use Cons.prems in auto)
    ultimately show ?case by simp
  qed simp
qed

lemma vis_nodes_step:
  "vis_nodes h [] st = Some st"
  "ptr (hnode h n) = PStatic \<Longrightarrow> vis_nodes h (n # ns) st = vis_nodes h ns (vis_static h n st)"
  "ptr (hnode h n) = PCondition t \<Longrightarrow> vis_nodes h (n # ns) st = vis_nodes h ns (vis_condition h n st)"
  "ptr (hnode h n) = PSubflow g \<Longrightarrow> vis_nodes h (n # ns) st =
     do { (e, s) \<leftarrow> visualizeG h g (cluster h n (fst st)); vis_nodes h ns (vis_subflow h n g e s st) }"
  "ptr (hnode h n) = PNil \<Longrightarrow> vis_nodes h (n # ns) st = vis_nodes h ns st"
  by (subst vis_nodes.simps, simp add: visualizeG_def Option.bind_assoc case_prod_unfold)+

section \<open>What \<open>visualizeG\<close> draws\<close>

text \<open>The state after the first loop has passed over the nodes \<open>ns\<close>.\<close>

definition passed_over :: "heap \<Rightarrow> nid list \<Rightarrow> dot_graph \<times> node_map \<Rightarrow> dot_graph \<times> node_map \<Rightarrow> bool" where
  "passed_over h ns st st' \<longleftrightarrow>
     dname (fst st') = dname (fst st) \<and> isSubgraph (fst st') = isSubgraph (fst st) \<and> dedges (fst st') = dedges (fst st) \<and>
     dnodes (fst st') = dnodes (fst st) @ map (task_node h) (filter (\<lambda>n. \<not> is_subflow_node h n) ns) \<and>
     (\<exists>ss. subgraphs (fst st') = subgraphs (fst st) @ ss \<and>
        list_all2 (\<lambda>n s. dname s = nname (hnode h n) \<and> isSubgraph s \<and>
          (\<exists>k. ptr (hnode h n) = PSubflow k \<and> draws h [point_node (nname (hnode h n))] k s)) (filter (is_subflow_node h) ns) ss) \<and>
     (\<forall>name. map_of (snd st') name = (if name \<in> (\<lambda>n. nname (hnode h n)) ` set ns then Some name else map_of (snd st) name))"

lemma attribute_of_last:
  assumes "dnodes d = ns @ [(name, at)]" "name \<notin> fst ` set ns"
  shows "dnodes (node_attribute name k v d) = ns @ [(name, AList.update k v at)]"
  using untouched_nodes [OF assms(2)] by (simp add: dnodes_attribute assms(1))

lemma simple_passed:
  assumes "nname (hnode h n) \<notin> fst ` set (dnodes (fst st))"
  shows "ptr (hnode h n) = PStatic \<Longrightarrow> passed_over h [n] st (vis_static h n st)"
    "ptr (hnode h n) = PCondition t \<Longrightarrow> passed_over h [n] st (vis_condition h n st)"
  using attribute_of_last [OF attribute_of_last [OF CreateNode_new [OF assms] assms] assms]
    attribute_of_last [OF CreateNode_new [OF assms] assms]
  by (auto simp: passed_over_def vis_static_def vis_condition_def Let_def case_prod_unfold
      is_subflow_node_def is_condition_node_def task_node_def update_conv)

lemma passed_trans:
  assumes "passed_over h ms st st1" "passed_over h ns st1 st2"
  shows "passed_over h (ms @ ns) st st2"
proof -
  let ?P = "\<lambda>n s. dname s = nname (hnode h n) \<and> isSubgraph s \<and>
      (\<exists>k. ptr (hnode h n) = PSubflow k \<and> draws h [point_node (nname (hnode h n))] k s)"
  obtain ss1 where s1: "subgraphs (fst st1) = subgraphs (fst st) @ ss1" "list_all2 ?P (filter (is_subflow_node h) ms) ss1"
    using assms(1) unfolding passed_over_def by blast
  obtain ss2 where s2: "subgraphs (fst st2) = subgraphs (fst st1) @ ss2" "list_all2 ?P (filter (is_subflow_node h) ns) ss2"
    using assms(2) unfolding passed_over_def by blast
  have "subgraphs (fst st2) = subgraphs (fst st) @ ss1 @ ss2 \<and> list_all2 ?P (filter (is_subflow_node h) (ms @ ns)) (ss1 @ ss2)"
    using s1 s2 list_all2_appendI [OF s1(2) s2(2)] by simp
  with assms show ?thesis unfolding passed_over_def by auto
qed

text \<open>A subflow whose graph is drawn.\<close>

lemma subflow_passed:
  assumes "ptr (hnode h n) = PSubflow k" "dname s = nname (hnode h n)" "isSubgraph s"
    "draws h [point_node (nname (hnode h n))] k s"
  shows "passed_over h [n] st (vis_subflow h n k None s st)"
  using assms by (auto simp: passed_over_def vis_subflow_def Let_def case_prod_unfold is_subflow_node_def update_conv)

lemma cluster_simps [simp]:
  "dname (cluster h n d) = nname (hnode h n)" "isSubgraph (cluster h n d)" "dedges (cluster h n d) = []"
  "subgraphs (cluster h n d) = []" "dnodes (cluster h n d) = [point_node (nname (hnode h n))]"
proof -
  have "dnodes (SubGraph nm d') = []" "isSubgraph (SubGraph nm d')" "dname (SubGraph nm d') = nm"
    "dedges (SubGraph nm d') = []" "subgraphs (SubGraph nm d') = []" for nm d'
    by (simp_all add: SubGraph_def)
  then show "dname (cluster h n d) = nname (hnode h n)" "isSubgraph (cluster h n d)" "dedges (cluster h n d) = []"
    "subgraphs (cluster h n d) = []" "dnodes (cluster h n d) = [point_node (nname (hnode h n))]"
    by (simp_all add: cluster_def Let_def CreateNode_new dnodes_attribute point_node_def)
qed

lemma disjoint_step: "A \<subseteq> insert x B \<Longrightarrow> x \<notin> C \<Longrightarrow> B \<inter> insert x C = {} \<Longrightarrow> A \<inter> C = {}"
  by blast

lemma visualize_graph:
  assumes o: "owned h" and p: "\<And>g n. n \<in> set (gnodes (hgraph h g)) \<Longrightarrow> ptr (hnode h n) \<noteq> PNil"
    and c: "clear_names h" and l: "local_edges h"
  shows "dnodes d = own \<Longrightarrow> dedges d = [] \<Longrightarrow> subgraphs d = [] \<Longrightarrow>
    fst ` set own \<inter> (\<lambda>n. nname (hnode h n)) ` set (gnodes (hgraph h g)) = {} \<Longrightarrow>
    \<exists>d'. visualizeG h g d = Some (None, d') \<and> draws h own g d' \<and> dname d' = dname d \<and> isSubgraph d' = isSubgraph d"
proof (induction "gnext h - g" arbitrary: g d own rule: less_induct)
  case less
  have loop: "\<exists>st'. vis_nodes h ns st = Some st' \<and> passed_over h ns st st'"
    if "set ns \<subseteq> set (gnodes (hgraph h g))" "distinct (map (\<lambda>n. nname (hnode h n)) ns)"
      "fst ` set (dnodes (fst st)) \<inter> (\<lambda>n. nname (hnode h n)) ` set ns = {}" for ns st
    using that
  proof (induction ns arbitrary: st)
    case Nil
    then show ?case by (simp add: vis_nodes_step passed_over_def)
  next
    case (Cons n ns)
    have n: "n \<in> set (gnodes (hgraph h g))" using Cons.prems(1) by simp
    have fresh: "nname (hnode h n) \<notin> fst ` set (dnodes (fst st))" using Cons.prems(3) by auto
    have "\<exists>st1. vis_nodes h (n # ns) st = vis_nodes h ns st1 \<and> passed_over h [n] st st1"
    proof (cases "ptr (hnode h n)")
      case PNil
      with p n show ?thesis by blast
    next
      case PStatic
      with vis_nodes_step(2) simple_passed(1) [OF fresh] show ?thesis by blast
    next
      case (PCondition t)
      with vis_nodes_step(3) simple_passed(2) [OF fresh] show ?thesis by blast
    next
      case (PSubflow k)
      have "g < k \<and> k < gnext h" using ownedD(1,3) [OF o] n PSubflow by metis
      then have smaller: "gnext h - k < gnext h - g" by linarith
      have "\<exists>s. visualizeG h k (cluster h n (fst st)) = Some (None, s) \<and> draws h [point_node (nname (hnode h n))] k s \<and>
          dname s = dname (cluster h n (fst st)) \<and> isSubgraph s = isSubgraph (cluster h n (fst st))"
        by (rule less.hyps [OF smaller]) (use c PSubflow in \<open>auto simp: clear_names_def point_node_def\<close>)
      then obtain s where "visualizeG h k (cluster h n (fst st)) = Some (None, s)"
        "draws h [point_node (nname (hnode h n))] k s" "dname s = nname (hnode h n)" "isSubgraph s" by auto
      with vis_nodes_step(4) [OF PSubflow, of ns st] subflow_passed [OF PSubflow, of s st] show ?thesis
        by (intro exI [of _ "vis_subflow h n k None s st"]) simp
    qed
    then obtain st1 where st1: "vis_nodes h (n # ns) st = vis_nodes h ns st1" "passed_over h [n] st st1" by blast
    have "set (dnodes (fst st1)) \<subseteq> insert (task_node h n) (set (dnodes (fst st)))"
      using st1(2) by (auto simp: passed_over_def)
    then have "fst ` set (dnodes (fst st1)) \<subseteq> fst ` insert (task_node h n) (set (dnodes (fst st)))" by (rule image_mono)
    then have names: "fst ` set (dnodes (fst st1)) \<subseteq> insert (nname (hnode h n)) (fst ` set (dnodes (fst st)))"
      by (simp add: task_node_def)
    have "nname (hnode h n) \<notin> (\<lambda>n. nname (hnode h n)) ` set ns" using Cons.prems(2) by simp
    with names have free: "fst ` set (dnodes (fst st1)) \<inter> (\<lambda>n. nname (hnode h n)) ` set ns = {}"
      by (rule disjoint_step) (use Cons.prems(3) in simp)
    obtain st' where st': "vis_nodes h ns st1 = Some st'" "passed_over h ns st1 st'"
      using Cons.IH [OF _ _ free] Cons.prems(1,2) by auto
    have "passed_over h (n # ns) st st'" using passed_trans [OF st1(2) st'(2)] by simp
    with st1(1) st'(1) show ?case by (intro exI [of _ st']) simp
  qed
  let ?ns = "gnodes (hgraph h g)"
  let ?st = "(graph_attribute ''rankdir'' ''LR'' d, []) :: dot_graph \<times> node_map"
  have "distinct (map (\<lambda>n. nname (hnode h n)) ?ns)" using c by (simp add: clear_names_def)
  with loop [of ?ns ?st] less.prems obtain d1 m1 where
    v: "vis_nodes h ?ns ?st = Some (d1, m1)" and po: "passed_over h ?ns ?st (d1, m1)" by auto
  have m: "map_of m1 (nname (hnode h n)) = Some (nname (hnode h n))" if "n \<in> set ?ns" for n
    using po that by (simp add: passed_over_def)
  have "vis_edges h m1 ?ns d1 = add_edges (concat (map (task_edges h) ?ns)) d1"
    by (rule vis_edges_draws) (use m l in \<open>auto simp: local_edges_def subset_iff\<close>)
  then have "visualizeG h g d = Some (None, add_edges (concat (map (task_edges h) ?ns)) d1)"
    using v by (simp add: visualizeG_def vis_end_def)
  moreover have "draws h own g (add_edges (concat (map (task_edges h) ?ns)) d1)"
    by (rule draws.intros) (use po less.prems in \<open>auto simp: passed_over_def\<close>)
  ultimately show ?case using po by (simp add: passed_over_def)
qed

text \<open>Whatever the names are, the recursion ends, and no error is ever returned.\<close>

lemma visualize_ends:
  assumes o: "owned h"
  shows "\<exists>d'. visualizeG h g d = Some (None, d')"
proof (induction "gnext h - g" arbitrary: g d rule: less_induct)
  case less
  have "\<exists>st'. vis_nodes h ns st = Some st'" if "set ns \<subseteq> set (gnodes (hgraph h g))" for ns st
    using that
  proof (induction ns arbitrary: st)
    case Nil
    then show ?case by (simp add: vis_nodes_step)
  next
    case (Cons n ns)
    have rest: "\<exists>st'. vis_nodes h ns st1 = Some st'" for st1 using Cons by simp
    show ?case
    proof (cases "ptr (hnode h n)")
      case (PSubflow k)
      have "n \<in> set (gnodes (hgraph h g))" using Cons.prems by simp
      then have "g < k \<and> k < gnext h" using ownedD(1,3) [OF o] PSubflow by metis
      then have "gnext h - k < gnext h - g" by linarith
      from less.hyps [OF this] obtain s where "visualizeG h k (cluster h n (fst st)) = Some (None, s)" by blast
      with vis_nodes_step(4) [OF PSubflow, of ns st] rest show ?thesis by simp
    qed (use rest vis_nodes_step(2,3,5) in metis)+
  qed
  from this [OF order_refl] obtain st' where
    "vis_nodes h (gnodes (hgraph h g)) (graph_attribute ''rankdir'' ''LR'' d, []) = Some st'" by blast
  then show ?case by (simp add: visualizeG_def vis_end_def)
qed

lemma built_owned_heap: "built h \<Longrightarrow> owned h"
  using wf_heapD(10,11) [OF built_wf_heap] built_nested by (simp add: owned_def)

text \<open>(C35) \<open>Visualize\<close> returns a text for every flow built with the API, in whatever order its maps are
  printed: the recursion into subflows ends, and no call ever returns an error, so the branch of
  \<open>visualizeG\<close> for subflows that cannot be visualized is never taken.\<close>

theorem Visualize_returns:
  assumes "built h"
  shows "\<exists>text. Visualize r h tf = Some (Inr text)"
proof -
  obtain d where "visualizeG h (graph (hflow h tf)) (newDotGraph (gname (hgraph h (graph (hflow h tf))))) = Some (None, d)"
    using visualize_ends [OF built_owned_heap [OF assms]] by blast
  then show ?thesis by (simp add: Visualize_def Let_def)
qed

lemma Visualize_returns_witness: "\<exists>text. Visualize (\<lambda>p keys. keys) one_subflow 1 = Some (Inr text)"
  by (rule Visualize_returns [OF one_subflow_built])

text \<open>(C34) The drawing is the flow: when the names in each graph are distinct, a subflow contains no
  task of its own name and edges stay inside their graph, \<open>visualizeG\<close> makes one DOT node per task
  that is not a subflow, one cluster per subflow (itself a drawing of the subflow's graph, with one
  point node), and one DOT edge per successor entry, in the order of the flow; only the edges of
  conditions are dashed and labelled, with the position of the successor.\<close>

theorem visualizeG_draws:
  assumes "built h" "clear_names h" "local_edges h"
  shows "\<exists>d. visualizeG h g (newDotGraph name) = Some (None, d) \<and> draws h [] g d"
proof -
  have "ptr (hnode h n) \<noteq> PNil" if "n \<in> set (gnodes (hgraph h k))" for k n
    using built_payloads [OF assms(1)] wf_heapD(10) [OF built_wf_heap [OF assms(1)]] that by (auto simp: payloads_def)
  then have "\<exists>d'. visualizeG h g (newDotGraph name) = Some (None, d') \<and> draws h [] g d' \<and>
      dname d' = dname (newDotGraph name) \<and> isSubgraph d' = isSubgraph (newDotGraph name)"
    by (intro visualize_graph built_owned_heap assms) (auto simp: newDotGraph_def)
  then show ?thesis by blast
qed

text \<open>A condition with a task that succeeds it and a task that it precedes.\<close>

definition mixed_condition :: heap where
  "mixed_condition = subflow_call 1 (BPrecede 1 [3]) (subflow_call 1 (BSucceed 2 [1]) (subflow_call 1 (BTask ''a'' 0)
     (subflow_call 1 (BTask ''b'' 0) (subflow_call 1 (BCondition ''c'' 0) (snd (NewTaskFlow ''tf'' empty_heap))))))"

lemma visualizeG_draws_witness:
  "\<exists>d. visualizeG two_tasks 1 (newDotGraph ''tf'') = Some (None, d) \<and> map edge_from (dedges d) = [''a'']"
proof -
  have g: "gnodes (hgraph two_tasks k) = (if k = 1 then [1, 2] else [])" "ptr (hnode two_tasks n) \<noteq> PSubflow k"
    "nname (hnode two_tasks 1) = ''a''" "nname (hnode two_tasks 2) = ''b''" for k n
    by (auto simp: two_tasks_def NewTaskFlow_def newGraph_def NewStatic_def newNode_def graph_push_def
        empty_heap_def nil_node_def nil_graph_def Task_Precede_def precede_def Let_def split: if_splits)
  have "clear_names two_tasks" by (auto simp: clear_names_def g g(3) [unfolded One_nat_def])
  moreover have "local_edges two_tasks" by (auto simp: local_edges_def g two_tasks_simps [unfolded One_nat_def])
  ultimately obtain d where d: "visualizeG two_tasks 1 (newDotGraph ''tf'') = Some (None, d)" "draws two_tasks [] 1 d"
    using visualizeG_draws [OF two_tasks_built] by blast
  from d(2) have "dedges d = concat (map (task_edges two_tasks) [1, 2])" by cases (simp add: g)
  then have "map edge_from (dedges d) = [''a'']"
    by (simp add: task_edges_def two_tasks_simps [unfolded One_nat_def] g(3) [unfolded One_nat_def])
  with d(1) show ?thesis by (intro exI [of _ d] conjI)
qed

text \<open>The label of a condition's edge is the position of the successor, not the choice that leads
  to it: with a task that \<open>Succeed\<close>s the condition and one that the condition \<open>Precede\<close>s, the second
  is drawn with label 1 and is the target of choice 0; the first is drawn with label 0 and is never
  chosen.\<close>

lemma dot_label_not_choice:
  "map_option (\<lambda>(e, d). map (\<lambda>x. (edge_to x, map_of (edge_attributes x) ''label'')) (dedges d))
     (visualizeG mixed_condition 1 (newDotGraph ''tf'')) = Some [(''b'', Some ''0''), (''a'', Some ''1'')] \<and>
   ptr (hnode mixed_condition 1) = PCondition [(0, 3)] \<and> nname (hnode mixed_condition 3) = ''a''"
  by code_simp

end
