(* ===== verification/Typing.thy ===== *)
theory Typing
  imports Accounting Graph_Walk
begin

text \<open>
  Type safety of the executor, for every program of every client, with subflows and conditions: the
  type tag of a node always agrees with its payload, every node a goroutine or the queue holds has
  been made by the API and has a payload, so the default branch of \<open>invokeNode\<close> is never taken. The
  function of a subflow may build what it likes from tasks that exist.
\<close>

section \<open>Typed heaps\<close>

definition typed :: "heap \<Rightarrow> bool" where
  "typed h \<longleftrightarrow> payloads h \<and> 0 < nnext h \<and> (\<forall>n. typ_ok (hnode h n)) \<and>
     (\<forall>g. \<forall>n \<in> set (gnodes (hgraph h g)). allocated h n) \<and>
     (\<forall>n. \<forall>m \<in> set (successors (hnode h n)). allocated h m) \<and>
     (\<forall>n t. ptr (hnode h n) = PCondition t \<longrightarrow> (\<forall>m \<in> snd ` set t. allocated h m))"

lemma typedD:
  assumes "typed h"
  shows "allocated h n \<Longrightarrow> ptr (hnode h n) \<noteq> PNil" "n \<in> set (gnodes (hgraph h g)) \<Longrightarrow> allocated h n"
    "m \<in> set (successors (hnode h n)) \<Longrightarrow> allocated h m" "typ_ok (hnode h n)"
    "ptr (hnode h n) = PCondition t \<Longrightarrow> (v, m) \<in> set t \<Longrightarrow> allocated h m"
  using assms by (force simp: typed_def payloads_def)+

text \<open>What most operations leave alone.\<close>

definition same_types :: "heap \<Rightarrow> heap \<Rightarrow> bool" where
  "same_types h h' \<longleftrightarrow> nnext h' = nnext h \<and> (\<forall>g. gnodes (hgraph h' g) = gnodes (hgraph h g)) \<and>
     (\<forall>n. ptr (hnode h' n) = ptr (hnode h n) \<and> Typ (hnode h' n) = Typ (hnode h n) \<and>
        successors (hnode h' n) = successors (hnode h n))"

lemma same_types_typed: "same_types h h' \<Longrightarrow> typed h \<Longrightarrow> typed h'"
  by (simp add: same_types_def typed_def payloads_def allocated_def typ_ok_def)

lemma same_types_refl [simp]: "same_types h h"
  by (simp add: same_types_def)

lemma same_types_trans: "same_types h1 h2 \<Longrightarrow> same_types h2 h3 \<Longrightarrow> same_types h1 h3"
  by (simp add: same_types_def)

lemma same_types_ops [simp]:
  "same_types h (set_state st n h)" "same_types h (node_setup n h)" "same_types h (drop_one n v h)"
  "same_types h (graph_ref g h)" "same_types h (graph_deref g h)" "same_types h (graph_cancel g h)"
  "same_types h (upd_graph g (\<lambda>x. x\<lparr>entries := es\<rparr>) h)" "same_types h (upd_graph g (\<lambda>x. x\<lparr>instantiated := b\<rparr>) h)"
  "same_types h (h\<lparr>hflow := f\<rparr>)" "same_types h (upd_node n (\<lambda>x. x\<lparr>priority := p\<rparr>) h)"
  by (auto simp: same_types_def set_state_def node_setup_eq drop_one_def node_deref_def graph_ref_def
      graph_deref_def graph_cancel_def)

lemma setup_one_types: "same_types h (setup_one g n h) \<and> set (entries (hgraph (setup_one g n h) g)) \<subseteq> set (entries (hgraph h g)) \<union> {n}"
  by (auto simp: setup_one_def Let_def same_types_def node_setup_eq)

lemma fold_setup_types:
  "same_types h (fold (setup_one g) ns h) \<and> set (entries (hgraph (fold (setup_one g) ns h) g)) \<subseteq> set (entries (hgraph h g)) \<union> set ns"
proof (induction ns arbitrary: h)
  case (Cons n ns)
  show ?case
    using Cons.IH [of "setup_one g n h"] setup_one_types [of h g n] same_types_trans by fastforce
qed simp

lemma graph_setup_types:
  "same_types h (graph_setup g h)" "set (entries (hgraph (graph_setup g h) g)) \<subseteq> set (gnodes (hgraph h g))"
proof -
  have "nnext (graph_reset g h) = nnext h" by (simp add: graph_reset_def fold_upd_node)
  then have r: "same_types h (graph_reset g h)" "entries (hgraph (graph_reset g h) g) = []"
    "gnodes (hgraph (graph_reset g h) g) = gnodes (hgraph h g)"
    by (auto simp: same_types_def graph_reset_eq)
  note f = fold_setup_types [of "graph_reset g h" g "gnodes (hgraph h g)"]
  show "same_types h (graph_setup g h)" using same_types_trans [OF r(1)] f by (simp add: graph_setup_def Let_def r(3))
  show "set (entries (hgraph (graph_setup g h) g)) \<subseteq> set (gnodes (hgraph h g))"
    using f by (simp add: graph_setup_def Let_def r)
qed

section \<open>Building keeps a heap typed\<close>

lemma precede_typed: "typed h \<Longrightarrow> allocated h v \<Longrightarrow> typed (precede n v h)"
  by (auto simp: typed_def payloads_def allocated_def typ_ok_def split: if_splits)

lemma fold_typed:
  "(\<And>v h. typed h \<Longrightarrow> allocated h v \<Longrightarrow> typed (f v h) \<and> nnext (f v h) = nnext h) \<Longrightarrow>
    typed h \<Longrightarrow> list_all (allocated h) vs \<Longrightarrow> typed (fold f vs h) \<and> nnext (fold f vs h) = nnext h"
proof (induction vs arbitrary: h)
  case (Cons v vs)
  have v: "typed (f v h)" "nnext (f v h) = nnext h" using Cons.prems by auto
  then have "list_all (allocated (f v h)) vs" using Cons.prems(3) by (simp add: allocated_def list_all_iff)
  with Cons.IH [OF Cons.prems(1) v(1)] v(2) show ?case by simp
qed simp

lemma update_values: "set (AList.update k v al) \<subseteq> insert (k, v) (set al)"
  by (induction al) auto

lemma branch_typed:
  assumes "typed h" "allocated h v"
  shows "typed (upd_node t (\<lambda>x. x\<lparr>ptr := branch_put v (ptr x)\<rparr>) h)"
proof -
  let ?h = "upd_node t (\<lambda>x. x\<lparr>ptr := branch_put v (ptr x)\<rparr>) h"
  have a: "allocated ?h = allocated h" by (simp add: allocated_def fun_eq_iff)
  have p: "ptr (hnode ?h n) = (if n = t then branch_put v (ptr (hnode h n)) else ptr (hnode h n))" for n by simp
  have nil: "branch_put v q = PNil \<longleftrightarrow> q = PNil" for q by (simp add: branch_put_def split: node_ptr.splits)
  have "typ_ok (hnode ?h n)" for n using assms(1) branch_put_typ by (auto simp: typed_def)
  moreover have "allocated h m" if "ptr (hnode ?h n) = PCondition tab" "m \<in> snd ` set tab" for n tab m
    using that assms typedD(5) [OF assms(1)]
    by (auto simp: p branch_put_def split: if_splits node_ptr.splits dest!: update_values [THEN subsetD])
  ultimately show ?thesis
    using assms(1) unfolding typed_def payloads_def a by (auto simp: p nil)
qed

lemma Task_Precede_typed:
  assumes t: "typed h" and ts: "list_all (allocated h) ts"
  shows "typed (Task_Precede n ts h) \<and> nnext (Task_Precede n ts h) = nnext h"
proof -
  let ?h = "fold (\<lambda>v. upd_node n (\<lambda>x. x\<lparr>ptr := branch_put v (ptr x)\<rparr>)) ts h"
  have b: "typed ?h \<and> nnext ?h = nnext h" by (rule fold_typed [OF _ t ts]) (simp add: branch_typed)
  then have "list_all (allocated ?h) ts" using ts by (simp add: allocated_def list_all_iff)
  with b fold_typed [of "precede n" ?h ts] fold_typed [of "precede n" h ts] t ts precede_typed show ?thesis
    by (simp add: Task_Precede_def Let_def split: node_ptr.splits)
qed

lemma succeed_typed:
  "typed h \<Longrightarrow> allocated h u \<Longrightarrow>
    typed (fold (\<lambda>v. precede v u) ts h) \<and> nnext (fold (\<lambda>v. precede v u) ts h) = nnext h"
  by (induction ts arbitrary: h) (simp_all add: precede_typed allocated_def)

lemma subflow_call_typed:
  assumes t: "typed h" and a: "args_ok h c"
  shows "typed (subflow_call g c h) \<and> nnext h \<le> nnext (subflow_call g c h)"
proof (cases c)
  case (BPrecede u ts)
  then show ?thesis using Task_Precede_typed [OF t] a by simp
next
  case (BSucceed u ts)
  with succeed_typed [OF t, of u ts] a show ?thesis by (simp add: Task_Succeed_def)
next
  case (BPriority u p)
  have "same_types h (Task_Priority u p h)" by (simp add: Task_Priority_def)
  with BPriority same_types_typed t show ?thesis by (simp add: same_types_def)
qed (use t in \<open>auto simp: typed_def payloads_def allocated_def typ_ok_def case_prod_unfold Let_def NewStatic_def
    NewSubflow_def NewCondition_def newNode_def newGraph_def graph_push_def nil_node_def nil_graph_def less_Suc_eq
    intro: less_SucI\<close>)

lemma built_typed: "built h \<Longrightarrow> typed h"
proof (induction rule: built.induct)
  case empty
  show ?case by (auto simp: typed_def payloads_def allocated_def typ_ok_def empty_heap_def nil_node_def nil_graph_def)
next
  case (flow h name t h')
  then have "h' = snd (NewTaskFlow name h)" by simp
  then have "same_types h h'" using wf_heapD(8) [OF built_wf_heap [OF flow.hyps(1)]]
    by (auto simp: same_types_def NewTaskFlow_def newGraph_def Let_def nil_graph_def)
  from same_types_typed [OF this flow.IH] show ?case .
next
  case (reset h t)
  then show ?case by (intro same_types_typed [OF _ reset.IH]) (simp add: TaskFlow_Reset_def)
next
  case (tf_call h t c h')
  then show ?case using subflow_call_typed taskflow_call_Inr by blast
next
  case (sf_call h g c)
  then show ?case using subflow_call_typed by blast
qed

section \<open>Typed states\<close>

fun pc_typed :: "heap \<Rightarrow> pc \<Rightarrow> bool" where
  "pc_typed h (Schedule ns k) = list_all (allocated h) ns"
| "pc_typed h (PRef n ns k) = list_all (allocated h) (n # ns)"
| "pc_typed h (PPut n ns k) = list_all (allocated h) (n # ns)"
| "pc_typed h (LInvoke n g k) = allocated h n"
| "pc_typed h (Succs c vs cs) = list_all (allocated h) (vs @ cs)"
| "pc_typed h (NSetup c cs) = list_all (allocated h) cs"
| "pc_typed h (Crashed e) = (e \<noteq> PanicMsg ''unsupported node'')"
| "pc_typed h _ = True"

definition well_typed :: "sys \<Rightarrow> bool" where
  "well_typed s \<longleftrightarrow> typed (heap s) \<and> list_all (allocated (heap s)) (items (wq s)) \<and>
     (\<forall>p \<in> set (threads s). pc_typed (heap s) p)"

text \<open>What the function of a subflow builds names only tasks that exist.\<close>

fun builds_ok :: "heap \<Rightarrow> gid \<Rightarrow> build list \<Rightarrow> bool" where
  "builds_ok h g [] = True"
| "builds_ok h g (c # cs) = (args_ok h c \<and> builds_ok (subflow_call g c h) g cs)"

fun event_ok :: "sys \<Rightarrow> event \<Rightarrow> bool" where
  "event_ok s (i, Instantiate cs ok, now) =
     (\<forall>n p g sp. i < length (threads s) \<and> threads s ! i = Handle (SubflowC n p g) sp \<longrightarrow> builds_ok (heap s) g cs)"
| "event_ok s _ = True"

inductive reach_ok :: "sys \<Rightarrow> sys \<Rightarrow> bool" for s0 where
  start: "reach_ok s0 s0"
| step: "reach_ok s0 s \<Longrightarrow> event_ok s e \<Longrightarrow> step s e = Some t \<Longrightarrow> reach_ok s0 t"

lemma reach_ok_reach: "reach_ok s0 s \<Longrightarrow> reach s0 s"
  by (induction rule: reach_ok.induct) (auto intro: reach.intros)

lemma allocated_mono: "nnext h \<le> nnext h' \<Longrightarrow> allocated h n \<Longrightarrow> allocated h' n"
  by (simp add: allocated_def)

lemma pc_typed_mono: "nnext h \<le> nnext h' \<Longrightarrow> pc_typed h p \<Longrightarrow> pc_typed h' p"
  by (cases p) (auto simp: list_all_iff allocated_mono)

lemma builds_typed:
  "typed h \<Longrightarrow> builds_ok h g cs \<Longrightarrow> typed (fold (subflow_call g) cs h) \<and> nnext h \<le> nnext (fold (subflow_call g) cs h)"
proof (induction cs arbitrary: h)
  case (Cons c cs)
  then have "typed (subflow_call g c h)" "nnext h \<le> nnext (subflow_call g c h)" using subflow_call_typed by auto
  with Cons.IH [of "subflow_call g c h"] Cons.prems show ?case by auto
qed simp

text \<open>What a step does to the heap, the queue and the goroutine that moves.\<close>

definition step_typed :: "sys \<Rightarrow> nat \<Rightarrow> sys \<Rightarrow> bool" where
  "step_typed s i t \<longleftrightarrow> typed (heap t) \<and> nnext (heap s) \<le> nnext (heap t) \<and>
     list_all (allocated (heap t)) (items (wq t)) \<and> pc_typed (heap t) (threads t ! i)"

lemma step_typedI:
  assumes "well_typed s" "same_types (heap s) (heap t)" "list_all (allocated (heap s)) (items (wq t))"
    "threads t ! i = p" "pc_typed (heap s) p"
  shows "step_typed s i t"
proof -
  have nn: "nnext (heap t) = nnext (heap s)" using assms(2) by (simp add: same_types_def)
  then have "allocated (heap t) = allocated (heap s)" by (simp add: allocated_def fun_eq_iff)
  then show ?thesis
    using assms same_types_typed [OF assms(2)] pc_typed_mono [of "heap s" "heap t" p] nn
    by (auto simp: step_typed_def well_typed_def)
qed

lemma after_schedule_typed [simp]: "pc_typed h (after_schedule k)"
  by (cases k) auto

lemma helper_wq [simp]:
  "wq (goto i p s) = wq s" "wq (on_heap f s) = wq s" "wq (log es s) = wq s" "wq (do_signal g s) = wq s" "wq (spawn b s) = wq s"
  by (simp_all add: goto_def on_heap_def log_def do_signal_def spawn_def)

lemma handle_typed:
  assumes wt: "well_typed s" and i: "i < length (threads s)" and p: "threads s ! i = Handle c sp"
    and e: "event_ok s (i, ch, now)" and st: "handle_step s i c sp ch = Some t"
  shows "step_typed s i t"
proof -
  note I = step_typedI [OF wt, where i = i]
  have q: "list_all (allocated (heap s)) (items (wq s))" and th: "typed (heap s)" using wt by (simp_all add: well_typed_def)
  show ?thesis
  proof (cases c)
    case (StaticC n pa)
    with st i q show ?thesis by (auto split: choice.splits intro!: I)
  next
    case (ConditionC n pa)
    have tgt: "allocated (heap s) m" if "ptr (hnode (heap s) n) = PCondition tab" "map_of tab v = Some m" for tab v m
      using typedD(5) [OF th that(1)] map_of_SomeD [OF that(2)] by blast
    from st ConditionC i q tgt show ?thesis
      by (auto simp: Let_def split: choice.splits node_ptr.splits if_splits option.splits intro!: I)
  next
    case (SubflowC n pa g)
    show ?thesis
    proof (cases "instantiated (hgraph (heap s) g)")
      case True
      with st SubflowC i q show ?thesis by (auto split: choice.splits intro!: I)
    next
      case False
      with st SubflowC obtain cs ok where ch: "ch = Instantiate cs ok" by (cases ch) auto
      let ?h = "fold (subflow_call g) cs (heap s)"
      have "builds_ok (heap s) g cs" using e ch p SubflowC i by auto
      then have b: "typed ?h" "nnext (heap s) \<le> nnext ?h" using builds_typed [OF th] by auto
      have same: "same_types ?h (set_state kNodeStateFinished n (upd_graph g (\<lambda>x. x\<lparr>instantiated := True\<rparr>) ?h))"
        by (rule same_types_trans [of _ "upd_graph g (\<lambda>x. x\<lparr>instantiated := True\<rparr>) ?h"]) simp_all
      have al: "list_all (allocated h') (items (wq s))" if "nnext (heap s) \<le> nnext h'" for h'
        using q allocated_mono [OF that] by (simp add: list_all_iff)
      from st SubflowC False ch i b same_types_typed [OF same b(1)] same al show ?thesis
        by (auto simp: step_typed_def Let_def same_types_def split: if_splits)
    qed
  qed
qed

lemma pc_step_typed:
  assumes wt: "well_typed s" and a: "accounts s" and i: "i < length (threads s)"
    and e: "event_ok s (i, ch, now)" and st: "pc_step s i (threads s ! i) ch now = Some t"
  shows "step_typed s i t"
proof -
  note I = step_typedI [OF wt, where i = i]
  have q: "list_all (allocated (heap s)) (items (wq s))" and th: "typed (heap s)"
    and me: "pc_typed (heap s) (threads s ! i)" using wt i by (auto simp: well_typed_def)
  have qi: "queue_inv (wq s)" using a by (simp add: accounts_def)
  note gs = graph_setup_types [where h = "heap s"]
  show ?thesis
  proof (cases "threads s ! i")
    case (Client cs)
    with st i q show ?thesis by (cases "(s, i, cs)" rule: client_step.cases) (auto intro!: I split: if_splits)
  next
    case (GSetup g k)
    with st obtain es where es: "mset es = mset (entries (hgraph (graph_setup g (heap s)) g))"
      "t = goto i (Schedule es (KLoop g k)) (s\<lparr>heap := upd_graph g (\<lambda>x. x\<lparr>entries := es\<rparr>) (graph_setup g (heap s))\<rparr>)"
      by (auto simp: gsetup_step_def Let_def is_sort_def split: choice.splits if_splits)
    have "same_types (heap s) (heap t)" using es(2) same_types_trans [OF gs(1) [where g = g] same_types_ops(7)] by simp
    moreover have "list_all (allocated (heap s)) es"
      using gs(2) [where g = g] mset_eq_setD [OF es(1)] typedD(2) [OF th] by (auto simp: list_all_iff)
    ultimately show ?thesis using es(2) i q by (intro I [where p = "Schedule es (KLoop g k)"]) auto
  next
    case (Schedule ns k)
    with st i q me show ?thesis by (cases ns) (auto intro!: I split: if_splits)
  next
    case (PRef n ns k)
    with st i q me show ?thesis by (auto simp: pref_step_def intro!: I split: if_splits)
  next
    case (PPut n ns k)
    with st i q me rq.list_put [OF qi, of n] show ?thesis by (auto simp: pput_step_def intro!: I split: if_splits)
  next
    case (LPop g k)
    show ?thesis
    proof (cases "Pop (wq s)")
      case (Inl e)
      then have "items (wq s) = []" using rq.pop_nonempty [OF qi] by auto
      then have "e \<noteq> PanicMsg ''unsupported node''" using Inl Pop_empty [of "wq s"] by (auto simp: items_empty_iff)
      with LPop Inl st i q show ?thesis by (auto simp: lpop_step_def intro!: I split: if_splits)
    next
      case (Inr r)
      then obtain n q' where r: "Pop (wq s) = Inr (n, q')" by (cases r) auto
      from rq.pop_Inr [OF qi r] LPop r st i q show ?thesis by (auto simp: lpop_step_def intro!: I split: if_splits)
    qed
  next
    case (LInvoke n g k)
    then have "ptr (hnode (heap s) n) \<noteq> PNil" using me typedD(1) [OF th] by simp
    then obtain c where "make_closure (heap s) n (kont_span k) = Some c"
      by (cases "ptr (hnode (heap s) n)") (auto simp: make_closure_def)
    with LInvoke st i q show ?thesis
      by (auto simp: linvoke_step_def spawn_def nth_append intro!: I [where p = "LCheck g k"] split: prod.splits if_splits)
  next
    case (LLeave g k)
    with st i q show ?thesis by (cases k) (auto simp: Let_def intro!: I split: if_splits)
  next
    case WPoll
    obtain r po where "worker_poll (epool s) = Inr (r, po)" using cp.poll_total a by (metis accounts_def)
    with WPoll st i q show ?thesis by (cases r) (auto simp: wpoll_step_def intro!: I)
  next
    case (Handle c sp)
    with handle_typed [OF wt i Handle e] st show ?thesis by simp
  next
    case (Defer c sp ok)
    have "same_types (heap s) (graph_cancel g (graph_cancel g' (heap s)))" for g g'
      by (rule same_types_trans [of _ "graph_cancel g' (heap s)"]) simp_all
    with Defer st i q show ?thesis by (cases c) (auto simp: Let_def intro!: I)
  next
    case (Drop c vs)
    have "list_all (allocated (heap s)) (successors (hnode (heap s) n))" for n
      using typedD(3) [OF th] by (auto simp: list_all_iff)
    with Drop st i q show ?thesis by (cases vs) (auto intro!: I)
  next
    case (Succs c vs cs)
    with st i q me show ?thesis by (cases vs) (auto intro!: I split: if_splits)
  next
    case (NSetup c cs)
    with st obtain es where es: "mset es = mset cs" "t = goto i (Schedule es (KSucc c)) (on_heap (node_setup (cnode c)) s)"
      by (auto simp: nsetup_step_def is_sort_def split: choice.splits if_splits)
    then have "list_all (allocated (heap s)) es" using me NSetup mset_eq_setD [OF es(1)] by (simp add: list_all_iff)
    with es(2) i q show ?thesis by (intro I [where p = "Schedule es (KSucc c)"]) auto
  next
    case (Done c)
    with Done_no_crash [OF a i Done, of t] st i q show ?thesis by (auto intro!: I)
  next
    case (Deref c)
    with st i q show ?thesis by (auto simp: deref_step_def Let_def intro!: I split: if_splits)
  next
    case (Body c)
    with st i q show ?thesis by (auto simp: body_step_def Let_def intro!: I split: if_splits prod.splits)
  next
    case (LCheck g k)
    with st i q show ?thesis by (auto simp: lcheck_step_def intro!: I split: if_splits)
  next
    case (CSetup c)
    with st i q show ?thesis by (auto simp: csetup_step_def intro!: I)
  qed (use st in auto)
qed

lemma lands_at: "lands s i p t \<Longrightarrow> i < length (threads s) \<Longrightarrow> threads t ! i = p"
  by (auto simp: lands_def nth_append)

lemma lands_typed:
  assumes l: "lands s i p t" and old: "\<forall>p \<in> set (threads s). pc_typed h p" and new: "pc_typed h p"
  shows "\<forall>p \<in> set (threads t). pc_typed h p"
proof -
  have sig: "\<forall>p \<in> set (signal g ps). pc_typed h p" if "\<forall>p \<in> set ps. pc_typed h p" for g ps
    using that by (induction g ps rule: signal.induct) auto
  from l obtain ps where ps: "ps = threads s \<or> (\<exists>g. ps = signal g (threads s))"
    "threads t = ps[i := p] \<or> threads t = ps[i := p] @ [WPoll]" by (auto simp: lands_def)
  have "\<forall>p \<in> set ps. pc_typed h p" using ps(1) old sig by auto
  then have "\<forall>p \<in> set (ps[i := p]). pc_typed h p" using new set_update_subset_insert [of ps i p] by auto
  with ps(2) show ?thesis by auto
qed

lemma step_well_typed:
  assumes wt: "well_typed s" and a: "accounts s" and e: "event_ok s (i, ch, now)" and st: "step s (i, ch, now) = Some t"
  shows "well_typed t"
proof -
  have i: "i < length (threads s)" and p: "pc_step s i (threads s ! i) ch now = Some t" using st by (auto split: if_splits)
  have ty: "step_typed s i t" by (rule pc_step_typed [OF wt a i e p])
  obtain p' where l: "lands s i p' t" using step_lands [OF a st] by (auto simp: lands_ok_def)
  have "\<forall>p \<in> set (threads s). pc_typed (heap t) p"
    using wt ty pc_typed_mono unfolding well_typed_def step_typed_def by blast
  from lands_typed [OF l this] ty lands_at [OF l i] show ?thesis by (simp add: step_typed_def well_typed_def)
qed

lemma reach_well_typed:
  assumes "NewExecutor c opts now h clients = Inr s0" "built h" "reach_ok s0 s"
  shows "well_typed s"
  using assms(3)
proof (induction rule: reach_ok.induct)
  case start
  show ?case using assms(1) built_typed [OF assms(2)] by (auto simp: NewExecutor_def well_typed_def NewQueue_inv split: if_splits)
next
  case (step s e t)
  obtain i ch now' where e: "e = (i, ch, now')" by (cases e) auto
  have "fresh_executor s0" using assms(1) unfolding fresh_executor_def by blast
  moreover have "\<not> crashed s" using step.hyps(3) crashed_stuck by fastforce
  ultimately have "accounts s" using reach_accounts [OF reach_ok_reach [OF step.hyps(1)]] by blast
  from step_well_typed [OF step.IH this] step.hyps(2,3) e show ?case by blast
qed

text \<open>(C32) Type safety: in every run of every program of clients on flows built with the API, as long
  as subflow functions build only from tasks that exist, the type tag of each node agrees with its
  payload, the queue holds only nodes with a payload, and the panic for nodes of an unknown type is
  never raised.\<close>

theorem executor_type_safe:
  assumes "NewExecutor c opts now h clients = Inr s0" "built h" "reach_ok s0 s"
  shows "(\<forall>n. typ_ok (hnode (heap s) n)) \<and> (\<forall>n \<in> set (items (wq s)). ptr (hnode (heap s) n) \<noteq> PNil) \<and>
    Crashed (PanicMsg ''unsupported node'') \<notin> set (threads s)"
proof -
  have wt: "well_typed s" by (rule reach_well_typed [OF assms])
  then have th: "typed (heap s)" and q: "list_all (allocated (heap s)) (items (wq s))" by (simp_all add: well_typed_def)
  have "Crashed (PanicMsg ''unsupported node'') \<notin> set (threads s)"
  proof
    assume "Crashed (PanicMsg ''unsupported node'') \<in> set (threads s)"
    with wt have "pc_typed (heap s) (Crashed (PanicMsg ''unsupported node''))" unfolding well_typed_def by blast
    then show False by simp
  qed
  with typedD(1,4) [OF th] q show ?thesis by (auto simp: list_all_iff)
qed

fun plain_choice :: "choice \<Rightarrow> bool" where
  "plain_choice (Instantiate cs ok) = False"
| "plain_choice _ = True"

lemma plain_run:
  "run s es = Some t \<Longrightarrow> list_all (\<lambda>(i, ch, now). plain_choice ch) es \<Longrightarrow> reach_ok s0 s \<Longrightarrow> reach_ok s0 t"
proof (induction es arbitrary: s)
  case (Cons e es)
  obtain i ch now where e: "e = (i, ch, now)" by (cases e) auto
  have "event_ok s e" using Cons.prems(2) e by (cases ch) auto
  with Cons show ?case by (auto split: option.splits intro: reach_ok.step)
qed simp

lemma executor_type_safe_witness:
  "\<exists>s. reach_ok (demo 1 two_tasks [Run 1, Wait]) s \<and> hist s \<noteq> [] \<and>
     Crashed (PanicMsg ''unsupported node'') \<notin> set (threads s)"
proof -
  obtain s where s: "run (demo 1 two_tasks [Run 1, Wait]) two_tasks_trace = Some s" "hist s \<noteq> []"
    using two_tasks_run by auto
  have "list_all (\<lambda>(i, ch, now). plain_choice ch) two_tasks_trace" by code_simp
  with plain_run [OF s(1)] reach_ok.start have r: "reach_ok (demo 1 two_tasks [Run 1, Wait]) s" by blast
  have "NewExecutor 1 [] 0 two_tasks [[Run 1, Wait]] = Inr (demo 1 two_tasks [Run 1, Wait])"
    by (simp add: demo_def NewExecutor_def)
  from executor_type_safe [OF this two_tasks_built r] r s(2) show ?thesis by blast
qed

end
