(* ===== verification/Join.thy ===== *)
theory Join
  imports Typing Scenarios
begin

text \<open>
  Fork and join, for every program of every client: subflows in subflows, conditions, loops, panics.
  The reference counter of a graph is the number of its nodes in flight, that is scheduled, queued,
  submitted or being executed, so \<open>scheduleGraph\<close> returns to a subflow (or to \<open>Run\<close>) only when the graph has
  nothing in flight or was canceled. A graph must not be set up while it has nodes in flight: the runs
  considered are \<open>orderly\<close> in this sense.
\<close>

section \<open>Nodes in flight\<close>

text \<open>The closures a goroutine is inside of and whose reference it has not released yet, and the nodes
  it carries.\<close>

fun gk_closures :: "gkont \<Rightarrow> closure list" where
  "gk_closures (GMain cs) = []"
| "gk_closures (GSub c sp) = [c]"

fun sk_closures :: "skont \<Rightarrow> closure list" where
  "sk_closures (KLoop g k) = gk_closures k"
| "sk_closures (KSucc c) = [c]"
| "sk_closures (KCond c sp) = [c]"

fun pc_closures :: "pc \<Rightarrow> closure list" where
  "pc_closures (GSetup g k) = gk_closures k"
| "pc_closures (Schedule ns k) = sk_closures k"
| "pc_closures (PRef n ns k) = sk_closures k"
| "pc_closures (PPut n ns k) = sk_closures k"
| "pc_closures (LCheck g k) = gk_closures k"
| "pc_closures (LWait g k) = gk_closures k"
| "pc_closures (LPop g k) = gk_closures k"
| "pc_closures (LInvoke n g k) = gk_closures k"
| "pc_closures (LLeave g k) = gk_closures k"
| "pc_closures (Body c) = [c]"
| "pc_closures (Handle c sp) = [c]"
| "pc_closures (Defer c sp ok) = [c]"
| "pc_closures (Drop c vs) = [c]"
| "pc_closures (Succs c vs cs) = [c]"
| "pc_closures (NSetup c cs) = [c]"
| "pc_closures (Deref c) = [c]"
| "pc_closures _ = []"

fun pc_carried :: "pc \<Rightarrow> nid list" where
  "pc_carried (PPut n ns k) = [n]"
| "pc_carried (LInvoke n g k) = [n]"
| "pc_carried _ = []"

definition nodes_of :: "heap \<Rightarrow> gid \<Rightarrow> nid list \<Rightarrow> nat" where
  "nodes_of h g ns = length (filter (\<lambda>n. ngraph (hnode h n) = g) ns)"

definition pc_refs :: "heap \<Rightarrow> gid \<Rightarrow> pc \<Rightarrow> nat" where
  "pc_refs h g p = nodes_of h g (pc_carried p @ map cnode (pc_closures p))"

definition queued :: "heap \<Rightarrow> gid \<Rightarrow> sys \<Rightarrow> nat" where
  "queued h g s = nodes_of h g (items (wq s) @ map cnode (pool_items (epool s)))"

definition inflight :: "gid \<Rightarrow> sys \<Rightarrow> nat" where
  "inflight g s = total (pc_refs (heap s) g) s + queued (heap s) g s"

lemma nodes_of_simps [simp]:
  "nodes_of h g [] = 0" "nodes_of h g (n # ns) = of_bool (ngraph (hnode h n) = g) + nodes_of h g ns"
  "nodes_of h g (ms @ ns) = nodes_of h g ms + nodes_of h g ns"
  by (simp_all add: nodes_of_def)

lemma nodes_of_cong:
  "(\<And>n. n \<in> set ns \<Longrightarrow> ngraph (hnode h' n) = ngraph (hnode h n)) \<Longrightarrow> nodes_of h' g ns = nodes_of h g ns"
  unfolding nodes_of_def by (rule arg_cong [of _ _ length], rule filter_cong) simp_all

text \<open>Runs in which no graph is set up while it has nodes in flight.\<close>

inductive orderly :: "sys \<Rightarrow> sys \<Rightarrow> bool" for s0 where
  start: "orderly s0 s0"
| step: "orderly s0 s \<Longrightarrow> event_ok s (i, ch, now) \<Longrightarrow> step s (i, ch, now) = Some t \<Longrightarrow>
    (\<And>g k. threads s ! i = GSetup g k \<Longrightarrow> inflight g s = 0) \<Longrightarrow> orderly s0 t"

lemma orderly_reach_ok: "orderly s0 s \<Longrightarrow> reach_ok s0 s"
  by (induction rule: orderly.induct) (auto intro: reach_ok.intros)

section \<open>Graphs are numbered below the next\<close>

definition grounded :: "heap \<Rightarrow> bool" where
  "grounded h \<longleftrightarrow> 0 < gnext h \<and> (\<forall>n. ngraph (hnode h n) < gnext h) \<and> (\<forall>n g. ptr (hnode h n) = PSubflow g \<longrightarrow> g < gnext h)"

text \<open>What every step keeps of a heap.\<close>

definition grows :: "heap \<Rightarrow> heap \<Rightarrow> bool" where
  "grows h h' \<longleftrightarrow> nnext h \<le> nnext h' \<and> gnext h \<le> gnext h' \<and> (grounded h \<longrightarrow> grounded h') \<and>
     (\<forall>n. allocated h n \<longrightarrow> ngraph (hnode h' n) = ngraph (hnode h n)) \<and>
     (\<forall>g. g < gnext h \<longrightarrow> gjoin (hgraph h' g) = gjoin (hgraph h g)) \<and>
     (\<forall>g. gjoin (hgraph h' g) = gjoin (hgraph h g) \<or> gjoin (hgraph h' g) = 0)"

lemma grows_refl [simp]: "grows h h"
  by (simp add: grows_def)

lemma grows_trans: "grows h1 h2 \<Longrightarrow> grows h2 h3 \<Longrightarrow> grows h1 h3"
  unfolding grows_def by (metis (no_types, lifting) allocated_mono le_trans order.strict_trans2)

lemma grows_ops [simp]:
  "grows h (set_state st n h)" "grows h (node_setup n h)" "grows h (drop_one n v h)" "grows h (graph_cancel g h)"
  "grows h (upd_graph g (\<lambda>x. x\<lparr>entries := es\<rparr>) h)" "grows h (upd_graph g (\<lambda>x. x\<lparr>instantiated := b\<rparr>) h)"
  "grows h (h\<lparr>hflow := f\<rparr>)" "grows h (precede n v h)" "grows h (Task_Priority n p h)"
  "grows h (upd_node n (\<lambda>x. x\<lparr>ptr := branch_put v (ptr x)\<rparr>) h)"
  by (auto simp: grows_def grounded_def set_state_def node_setup_eq drop_one_def node_deref_def graph_cancel_def
      precede_def Task_Priority_def branch_put_def split: node_ptr.splits if_splits)

lemma grows_fold: "(\<And>v h. grows h (f v h)) \<Longrightarrow> grows h (fold f vs h)"
proof (induction vs arbitrary: h)
  case (Cons v vs)
  then show ?case using grows_trans [of h "f v h" "fold f vs (f v h)"] by simp
qed simp

lemma subflow_call_grows:
  assumes "g < gnext h"
  shows "grows h (subflow_call g c h)"
proof (cases c)
  case (BPrecede u ts)
  have p: "grows h' (fold (precede u) ts h')" for h' by (rule grows_fold) simp
  have q: "grows h (fold (\<lambda>v. upd_node u (\<lambda>x. x\<lparr>ptr := branch_put v (ptr x)\<rparr>)) ts h)" by (rule grows_fold) simp
  have "grows h (Task_Precede u ts h)"
    unfolding Task_Precede_def Let_def by (cases "ptr (hnode h u)") (simp_all add: p grows_trans [OF q p])
  with BPrecede show ?thesis by simp
next
  case (BSucceed u ts)
  then show ?thesis by (simp add: Task_Succeed_def grows_fold)
next
  case (BTask name ns)
  with assms show ?thesis
    by (simp add: grows_def grounded_def allocated_def case_prod_unfold Let_def NewStatic_def newNode_def graph_push_def nil_node_def)
next
  case (BCondition name ns)
  with assms show ?thesis
    by (simp add: grows_def grounded_def allocated_def case_prod_unfold Let_def NewCondition_def newNode_def graph_push_def nil_node_def)
next
  case (BSubflow name ns)
  with assms show ?thesis
    by (simp add: grows_def grounded_def allocated_def case_prod_unfold Let_def NewSubflow_def newNode_def newGraph_def
        graph_push_def nil_node_def nil_graph_def less_SucI)
qed simp

lemma subflow_calls_grow: "g < gnext h \<Longrightarrow> grows h (fold (subflow_call g) cs h)"
proof (induction cs arbitrary: h)
  case (Cons c cs)
  have "grows h (subflow_call g c h)" using subflow_call_grows Cons.prems by blast
  moreover from this have "g < gnext (subflow_call g c h)" using Cons.prems by (simp add: grows_def)
  ultimately show ?case using Cons.IH grows_trans by (metis fold_simps(2))
qed simp

lemma setup_grows:
  assumes "gjoin (hgraph h g) = 0"
  shows "grows h (graph_setup g h)"
proof -
  have r: "grows h (graph_reset g h)"
    unfolding graph_reset_def
    by (rule grows_trans [OF _ grows_fold]) (use assms in \<open>auto simp: grows_def grounded_def\<close>)
  have o: "grows h' (setup_one g n h')" for n h'
  proof (cases "length (dependents (hnode (node_setup n h') n)) = 0")
    case True
    have "grows (node_setup n h') (upd_graph g (\<lambda>x. x\<lparr>entries := entries x @ [n]\<rparr>) (node_setup n h'))"
      by (auto simp: grows_def grounded_def)
    with True show ?thesis unfolding setup_one_def Let_def using grows_trans [OF grows_ops(2)] by simp
  qed (simp add: setup_one_def Let_def)
  show ?thesis unfolding graph_setup_def Let_def by (rule grows_trans [OF r grows_fold]) (rule o)
qed

section \<open>The counter of a graph counts its nodes in flight\<close>

fun cl_ok :: "heap \<Rightarrow> closure \<Rightarrow> bool" where
  "cl_ok h (SubflowC n p g) = (allocated h n \<and> g < gnext h)"
| "cl_ok h c = allocated h (cnode c)"

lemma cl_ok_allocated: "cl_ok h c \<Longrightarrow> allocated h (cnode c)"
  by (cases c) auto

lemma cl_ok_grows: "grows h h' \<Longrightarrow> cl_ok h c \<Longrightarrow> cl_ok h' c"
  by (cases c) (auto simp: grows_def allocated_def)

definition join_inv :: "sys \<Rightarrow> bool" where
  "join_inv s \<longleftrightarrow> grounded (heap s) \<and> (\<forall>p \<in> set (threads s). list_all (cl_ok (heap s)) (pc_closures p)) \<and>
     list_all (cl_ok (heap s)) (pool_items (epool s)) \<and> (\<forall>g. gjoin (hgraph (heap s) g) = of_nat (inflight g s))"

text \<open>A step that settles: where it leaves its goroutine, the closures there, and the balance of the
  references it takes and gives.\<close>

definition settles :: "sys \<Rightarrow> nat \<Rightarrow> pc \<Rightarrow> sys \<Rightarrow> bool" where
  "settles s i p' t \<longleftrightarrow> lands s i p' t \<and> (\<exists>h. grows (heap s) h \<and> hnode (heap t) = hnode h \<and> nnext (heap t) = nnext h \<and>
       gnext (heap t) = gnext h \<and>
     (\<forall>g. gjoin (hgraph (heap t) g) + of_nat (pc_refs (heap s) g (threads s ! i) + queued (heap s) g s) =
       gjoin (hgraph h g) + of_nat (pc_refs (heap s) g p' + queued (heap s) g t))) \<and>
     list_all (allocated (heap s)) (items (wq t) @ pc_carried p') \<and>
     list_all (cl_ok (heap s)) (pc_closures p' @ pool_items (epool t))"

lemma wait_blind_refs [simp]: "wait_blind (pc_refs h g)"
  by (simp add: wait_blind_def pc_refs_def)

lemma lands_total:
  assumes "lands s i p' t" "i < length (threads s)"
  shows "total (pc_refs h g) t + pc_refs h g (threads s ! i) = total (pc_refs h g) s + pc_refs h g p'"
proof -
  obtain ps where ps: "ps = threads s \<or> (\<exists>g. ps = signal g (threads s))"
    "threads t = ps[i := p'] \<or> threads t = ps[i := p'] @ [WPoll]" using assms(1) by (auto simp: lands_def)
  have "pc_refs h g WPoll = 0" by (simp add: pc_refs_def)
  then have "total (pc_refs h g) t = sum_list (map (pc_refs h g) (ps[i := p']))" using ps(2) by (auto simp: total_def)
  with ps(1) assms(2) show ?thesis
    by (auto simp: total_def sum_goto_signal [OF wait_blind_refs] sum_list_update)
qed

lemma signal_mem: "p \<in> set (signal g ps) \<Longrightarrow> p \<in> set ps \<or> (\<exists>k. p = LCheck g k \<and> LWait g k \<in> set ps)"
  by (induction g ps rule: signal.induct) (auto split: if_splits)

lemma lands_mem:
  assumes "lands s i p' t" "p \<in> set (threads t)"
  shows "p = p' \<or> p = WPoll \<or> (\<exists>q \<in> set (threads s). pc_closures p = pc_closures q \<and> pc_carried p = pc_carried q)"
proof -
  obtain ps where ps: "ps = threads s \<or> (\<exists>g. ps = signal g (threads s))"
    "threads t = ps[i := p'] \<or> threads t = ps[i := p'] @ [WPoll]" using assms(1) by (auto simp: lands_def)
  have "p = p' \<or> p = WPoll \<or> p \<in> set ps" using ps(2) assms(2) set_update_subset_insert [of ps i p'] by auto
  then show ?thesis
  proof (elim disjE)
    assume "p \<in> set ps"
    with ps(1) signal_mem consider "p \<in> set (threads s)" | g k where "p = LCheck g k" "LWait g k \<in> set (threads s)" by blast
    then show ?thesis by cases (auto intro: bexI [rotated])
  qed simp_all
qed

lemma settles_nodes:
  assumes j: "join_inv s" and wt: "well_typed s" and t: "settles s i p' t" and p: "p \<in> set (threads t)"
  shows "list_all (cl_ok (heap s)) (pc_closures p) \<and> list_all (allocated (heap s)) (pc_carried p)"
proof -
  have old: "list_all (cl_ok (heap s)) (pc_closures q) \<and> list_all (allocated (heap s)) (pc_carried q)" if "q \<in> set (threads s)" for q
  proof
    show "list_all (cl_ok (heap s)) (pc_closures q)" using j that by (simp add: join_inv_def)
    have "pc_typed (heap s) q" using wt that by (simp add: well_typed_def)
    then show "list_all (allocated (heap s)) (pc_carried q)" by (cases q) auto
  qed
  from t have l: "lands s i p' t" and al: "list_all (allocated (heap s)) (items (wq t) @ pc_carried p')"
    and cl: "list_all (cl_ok (heap s)) (pc_closures p' @ pool_items (epool t))" unfolding settles_def by blast+
  from lands_mem [OF l p] show ?thesis using old cl al by auto
qed

text \<open>The nodes in flight change with the goroutine that moves and the queues.\<close>

lemma settles_inflight:
  assumes j: "join_inv s" and wt: "well_typed s" and i: "i < length (threads s)" and t: "settles s i p' t"
  shows "inflight g t + (pc_refs (heap s) g (threads s ! i) + queued (heap s) g s) =
      inflight g s + (pc_refs (heap s) g p' + queued (heap s) g t)"
proof -
  from t obtain h where h: "grows (heap s) h" "hnode (heap t) = hnode h" and l: "lands s i p' t"
    and al: "list_all (allocated (heap s)) (items (wq t) @ pc_carried p')"
    and cl: "list_all (cl_ok (heap s)) (pc_closures p' @ pool_items (epool t))" unfolding settles_def by blast
  have ng: "ngraph (hnode (heap t) n) = ngraph (hnode (heap s) n)" if "allocated (heap s) n" for n
    using h that by (simp add: grows_def)
  have R: "pc_refs (heap t) g p = pc_refs (heap s) g p" if "p \<in> set (threads t)" for p
    unfolding pc_refs_def
    by (rule nodes_of_cong) (use settles_nodes [OF j wt t that] ng cl_ok_allocated in \<open>auto simp: list_all_iff\<close>)
  have Q: "queued (heap t) g t = queued (heap s) g t"
    unfolding queued_def by (rule nodes_of_cong) (use al cl ng cl_ok_allocated in \<open>auto simp: list_all_iff\<close>)
  have "total (pc_refs (heap t) g) t = total (pc_refs (heap s) g) t"
    unfolding total_def using R by (metis (mono_tags, lifting) map_eq_conv)
  with lands_total [OF l i, of "heap s" g] show ?thesis by (simp add: inflight_def Q)
qed

lemma settles_inv:
  assumes j: "join_inv s" and wt: "well_typed s" and i: "i < length (threads s)" and t: "settles s i p' t"
  shows "join_inv t"
proof -
  obtain h where l: "lands s i p' t" and h: "grows (heap s) h" "hnode (heap t) = hnode h" "nnext (heap t) = nnext h" "gnext (heap t) = gnext h"
    and bal: "\<And>g. gjoin (hgraph (heap t) g) + of_nat (pc_refs (heap s) g (threads s ! i) + queued (heap s) g s) =
       gjoin (hgraph h g) + of_nat (pc_refs (heap s) g p' + queued (heap s) g t)"
    and al: "list_all (allocated (heap s)) (items (wq t) @ pc_carried p')"
    and cl: "list_all (cl_ok (heap s)) (pc_closures p' @ pool_items (epool t))"
    using t unfolding settles_def by blast
  have gr: "grounded (heap s)" using j by (simp add: join_inv_def)
  have ok: "cl_ok (heap t) c" if "cl_ok (heap s) c" for c
    using cl_ok_grows [OF h(1) that] h(3,4) by (cases c) (simp_all add: allocated_def)
  note T = settles_nodes [OF j wt t] and tot = settles_inflight [OF j wt i t]
  have "gjoin (hgraph (heap t) g) = of_nat (inflight g t)" for g
  proof (cases "gjoin (hgraph h g) = gjoin (hgraph (heap s) g)")
    case True
    have "gjoin (hgraph (heap t) g) + of_nat (pc_refs (heap s) g (threads s ! i) + queued (heap s) g s) =
        of_nat (inflight g s) + of_nat (pc_refs (heap s) g p' + queued (heap s) g t)"
      using bal [of g] True j by (simp add: join_inv_def)
    also have "\<dots> = of_nat (inflight g t) + of_nat (pc_refs (heap s) g (threads s ! i) + queued (heap s) g s)"
      unfolding of_nat_add [symmetric] tot [of g, symmetric] by simp
    finally show ?thesis by simp
  next
    case False
    then have z: "gjoin (hgraph h g) = 0" "\<not> g < gnext (heap s)" using h(1) unfolding grows_def by metis+
    have no: "ngraph (hnode (heap s) n) \<noteq> g" for n using z(2) gr unfolding grounded_def by blast
    have "pc_refs (heap s) g p = 0" for p by (simp add: pc_refs_def nodes_of_def no)
    moreover have "queued (heap s) g u = 0" for u by (simp add: queued_def nodes_of_def no)
    ultimately have "gjoin (hgraph (heap t) g) = 0" "inflight g t = 0"
      using bal [of g] z(1) tot [of g] by (simp_all add: inflight_def total_def)
    then show ?thesis by simp
  qed
  moreover have "grounded (heap t)"
    using h gr by (simp add: grows_def grounded_def)
  ultimately show ?thesis using T cl ok unfolding join_inv_def by (auto simp: list_all_iff)
qed

section \<open>Every step settles\<close>

lemma settlesI:
  assumes "lands s i p' t" "hnode (heap t) = hnode h" "nnext (heap t) = nnext h" "gnext (heap t) = gnext h" "grows (heap s) h"
    "\<And>g. gjoin (hgraph (heap t) g) + of_nat (pc_refs (heap s) g (threads s ! i) + queued (heap s) g s) =
       gjoin (hgraph h g) + of_nat (pc_refs (heap s) g p' + queued (heap s) g t)"
    "list_all (allocated (heap s)) (items (wq t) @ pc_carried p')" "list_all (cl_ok (heap s)) (pc_closures p' @ pool_items (epool t))"
  shows "\<exists>p'. settles s i p' t"
  using assms unfolding settles_def by blast

lemma landI:
  "threads t = (threads s)[i := p] \<Longrightarrow> lands s i p t"
  "threads t = (threads s)[i := p] @ [WPoll] \<Longrightarrow> lands s i p t"
  "threads t = (signal g (threads s))[i := p] \<Longrightarrow> lands s i p t"
  by (auto simp: lands_def)

text \<open>A step that keeps the counters, the queues and the references of its goroutine.\<close>

lemma settles_keep:
  assumes j: "join_inv s" and wt: "well_typed s" and i: "i < length (threads s)"
    and "lands s i p' t" "grows (heap s) (heap t)" "wq t = wq s" "epool t = epool s"
    and "pc_closures p' = pc_closures (threads s ! i)" "pc_carried p' = pc_carried (threads s ! i)"
  shows "\<exists>p'. settles s i p' t"
proof (rule settlesI [where h = "heap t"])
  have p: "threads s ! i \<in> set (threads s)" using i by simp
  have "pc_typed (heap s) (threads s ! i)" using wt p unfolding well_typed_def by blast
  then have "list_all (allocated (heap s)) (pc_carried (threads s ! i))" by (cases "threads s ! i") auto
  then show "list_all (allocated (heap s)) (items (wq t) @ pc_carried p')" using assms(6,9) wt by (simp add: well_typed_def)
  show "list_all (cl_ok (heap s)) (pc_closures p' @ pool_items (epool t))" using assms(7,8) j p by (simp add: join_inv_def)
qed (use assms in \<open>simp_all add: pc_refs_def queued_def\<close>)

lemma after_schedule_refs [simp]: "pc_closures (after_schedule k) = sk_closures k" "pc_carried (after_schedule k) = []"
  by (cases k; simp)+

lemma schedule_settles:
  assumes j: "join_inv s" and wt: "well_typed s" and a: "accounts s" and i: "i < length (threads s)"
    and p: "threads s ! i = Schedule ns k \<or> threads s ! i = PRef n ns k \<or> threads s ! i = PPut n ns k"
    and st: "pc_step s i (threads s ! i) ch now = Some t"
  shows "\<exists>p'. settles s i p' t"
proof -
  have q: "queue_inv (wq s)" using a by (simp add: accounts_def)
  have mem: "threads s ! i \<in> set (threads s)" using i by simp
  have ty: "pc_typed (heap s) (threads s ! i)" and al: "list_all (allocated (heap s)) (items (wq s))"
    using wt mem unfolding well_typed_def by blast+
  have cl: "list_all (cl_ok (heap s)) (pc_closures (threads s ! i))" "list_all (cl_ok (heap s)) (pool_items (epool s))"
    using j mem unfolding join_inv_def by blast+
  note K = settles_keep [OF j wt i]
  from p consider "threads s ! i = Schedule [] k" | m ms where "threads s ! i = Schedule (m # ms) k"
    | "threads s ! i = PRef n ns k" | "threads s ! i = PPut n ns k"
    by (cases ns) auto
  then show ?thesis
  proof cases
    case 1
    with st show ?thesis by (intro K [where p' = "after_schedule k"]) (auto intro: landI)
  next
    case (2 m ms)
    show ?thesis
    proof (cases "is_canceled s (graph_of s m)")
      case True
      with 2 st show ?thesis by (intro K [where p' = "after_schedule k"]) (auto intro: landI split: if_splits)
    next
      case False
      with 2 st show ?thesis by (intro K [where p' = "PRef m ms k"]) (auto intro: landI)
    qed
  next
    case 3
    then have t: "t = goto i (PPut n ns k) (on_heap (graph_ref (graph_of s n)) s)" using st by (auto simp: pref_step_def split: if_splits)
    show ?thesis
    proof (rule settlesI [where h = "heap s" and p' = "PPut n ns k"])
      show "gjoin (hgraph (heap t) g) + of_nat (pc_refs (heap s) g (threads s ! i) + queued (heap s) g s) =
          gjoin (hgraph (heap s) g) + of_nat (pc_refs (heap s) g (PPut n ns k) + queued (heap s) g t)" for g
        by (auto simp: t 3 pc_refs_def queued_def graph_ref_def graph_of_def)
    qed (use t 3 ty al cl in \<open>auto simp: graph_ref_def intro: landI\<close>)
  next
    case 4
    then have t: "t = goto i (Schedule ns k) (do_signal (graph_of s n) (s\<lparr>wq := Put n (wq s)\<rparr>))"
      using st by (auto simp: pput_step_def split: if_splits)
    then have it: "items (wq t) = items (wq s) @ [n]" by (simp add: rq.list_put [OF q])
    show ?thesis
      by (rule settlesI [where h = "heap s" and p' = "Schedule ns k"])
        (use t 4 ty al cl it in \<open>auto simp: pc_refs_def queued_def intro: landI\<close>)
  qed
qed

text \<open>The client and the loop; the set-up of a graph that has nothing in flight.\<close>

lemma loop_settles:
  assumes j: "join_inv s" and wt: "well_typed s" and a: "accounts s" and i: "i < length (threads s)"
    and st: "pc_step s i (threads s ! i) ch now = Some t" and nc: "\<not> crashed t"
    and quiet: "\<And>g k. threads s ! i = GSetup g k \<Longrightarrow> inflight g s = 0"
    and p: "(\<exists>cs. threads s ! i = Client cs) \<or> (\<exists>g k. threads s ! i \<in> {GSetup g k, LCheck g k, LPop g k, LLeave g k}) \<or>
      (\<exists>n g k. threads s ! i = LInvoke n g k)"
  shows "\<exists>p'. settles s i p' t"
proof -
  have q: "queue_inv (wq s)" and po: "pool_ok (epool s)" using a by (simp_all add: accounts_def)
  have mem: "threads s ! i \<in> set (threads s)" using i by simp
  have ty: "pc_typed (heap s) (threads s ! i)" and al: "list_all (allocated (heap s)) (items (wq s))" and th: "typed (heap s)"
    using wt mem unfolding well_typed_def by blast+
  have cl: "list_all (cl_ok (heap s)) (pc_closures (threads s ! i))" "list_all (cl_ok (heap s)) (pool_items (epool s))"
    and gr: "grounded (heap s)" and gj: "gjoin (hgraph (heap s) g) = of_nat (inflight g s)" for g
    using j mem unfolding join_inv_def by blast+
  note K = settles_keep [OF j wt i]
  from p consider cs where "threads s ! i = Client cs"
    | g k where "threads s ! i = GSetup g k" | g k where "threads s ! i = LCheck g k"
    | g k where "threads s ! i = LPop g k" | g k where "threads s ! i = LLeave g k"
    | n g k where "threads s ! i = LInvoke n g k"
    by blast
  then show ?thesis
  proof cases
    case (1 cs)
    from 1 st consider tf us where "cs = Run tf # us" | us where "cs = Wait # us"
      by (cases "(s, i, cs)" rule: client_step.cases) auto
    then show ?thesis
    proof cases
      case (1 tf us)
      with \<open>threads s ! i = Client cs\<close> st show ?thesis
        by (intro K [where p' = "GSetup (graph (hflow (heap s) tf)) (GMain us)"]) (auto intro: landI)
    next
      case (2 us)
      with \<open>threads s ! i = Client cs\<close> st show ?thesis
        by (intro K [where p' = "Client us"]) (auto intro: landI split: if_splits)
    qed
  next
    case (2 g k)
    with st obtain es where
      t: "t = goto i (Schedule es (KLoop g k)) (s\<lparr>heap := upd_graph g (\<lambda>x. x\<lparr>entries := es\<rparr>) (graph_setup g (heap s))\<rparr>)"
      by (auto simp: gsetup_step_def Let_def split: choice.splits if_splits)
    have "gjoin (hgraph (heap s) g) = 0" using gj [of g] quiet [OF 2] by simp
    then have "grows (heap s) (heap t)" using t grows_trans [OF setup_grows grows_ops(5)] by simp
    with 2 t show ?thesis by (intro K [where p' = "Schedule es (KLoop g k)"]) (auto intro: landI)
  next
    case (3 g k)
    then consider "t = goto i (LWait g k) s" | "t = goto i (LPop g k) s"
      using st by (auto simp: lcheck_step_def split: if_splits)
    then show ?thesis
    proof cases
      case 1
      with 3 show ?thesis by (intro K [where p' = "LWait g k"]) (auto intro: landI)
    next
      case 2
      with 3 show ?thesis by (intro K [where p' = "LPop g k"]) (auto intro: landI)
    qed
  next
    case (4 g k)
    have "\<not> crashed (goto i (Crashed e) s)" if "t = goto i (Crashed e) s" for e using nc that by simp
    then have no: "t \<noteq> goto i (Crashed e) s" for e using crashed_goto [OF i] by blast
    with 4 consider "t = goto i (LLeave g k) s" | n q' where "Pop (wq s) = Inr (n, q')" "t = goto i (LInvoke n g k) (s\<lparr>wq := q'\<rparr>)"
      using st by (auto simp: lpop_step_def split: if_splits sum.splits)
    then show ?thesis
    proof cases
      case 1
      with 4 show ?thesis by (intro K [where p' = "LLeave g k"]) (auto intro: landI)
    next
      case (2 n q')
      have it: "items (wq s) = n # items q'" using rq.pop_Inr [OF q 2(1)] by simp
      show ?thesis
        by (rule settlesI [where h = "heap s" and p' = "LInvoke n g k"])
          (use 2 4 al cl it in \<open>auto simp: pc_refs_def queued_def intro: landI\<close>)
    qed
  next
    case (5 g k)
    show ?thesis
    proof (cases k)
      case (GMain cs)
      with 5 st show ?thesis by (intro K [where p' = "Client cs"]) (auto intro: landI)
    next
      case (GSub c sp)
      with 5 st show ?thesis
        by (intro K [where p' = "Drop c (successors (hnode (heap s) (cnode c)))"]) (auto simp: Let_def intro: landI)
    qed
  next
    case (6 n g k)
    have no: "t \<noteq> goto i (Crashed e) s" for e using crashed_goto [OF i] nc by blast
    with 6 st obtain c where c: "make_closure (heap s) n (kont_span k) = Some c" by (auto simp: linvoke_step_def split: option.splits)
    obtain po' b where pb: "CtxGo c (epool s) = (po', b)" by fastforce
    with cp.submit_queued [OF po, of c] have po': "pool_items po' = pool_items (epool s) @ [c]" by simp
    have t: "t = spawn b (goto i (LCheck g k) (s\<lparr>epool := po'\<rparr>))" using 6 st c pb by (simp add: linvoke_step_def)
    have n: "cnode c = n" "cl_ok (heap s) c" using c ty 6 gr by (auto simp: make_closure_def grounded_def split: node_ptr.splits)
    have "lands s i (LCheck g k) t" using t by (cases b) (auto intro: landI)
    then show ?thesis
      by (rule settlesI [where h = "heap s"]) (use t 6 al cl n po' in \<open>auto simp: pc_refs_def queued_def\<close>)
  qed
qed

text \<open>A worker.\<close>

lemma worker_settles:
  assumes j: "join_inv s" and wt: "well_typed s" and a: "accounts s" and i: "i < length (threads s)"
    and st: "pc_step s i (threads s ! i) ch now = Some t"
    and p: "threads s ! i = WPoll \<or> (\<exists>c. threads s ! i \<in> {Body c, Deref c, CSetup c, Done c}) \<or> (\<exists>c sp. threads s ! i = Handle c sp) \<or>
      (\<exists>c sp ok. threads s ! i = Defer c sp ok) \<or> (\<exists>c vs. threads s ! i = Drop c vs) \<or>
      (\<exists>c vs cs. threads s ! i = Succs c vs cs) \<or> (\<exists>c cs. threads s ! i = NSetup c cs)"
  shows "\<exists>p'. settles s i p' t"
proof -
  have po: "pool_ok (epool s)" using a by (simp add: accounts_def)
  have mem: "threads s ! i \<in> set (threads s)" using i by simp
  have al: "list_all (allocated (heap s)) (items (wq s))" using wt unfolding well_typed_def by blast
  have cl: "list_all (cl_ok (heap s)) (pc_closures (threads s ! i))" "list_all (cl_ok (heap s)) (pool_items (epool s))"
    using j mem unfolding join_inv_def by blast+
  note K = settles_keep [OF j wt i]
  from p consider "threads s ! i = WPoll" | c where "threads s ! i = Body c" | c where "threads s ! i = Deref c"
    | c where "threads s ! i = CSetup c" | c where "threads s ! i = Done c" | c sp where "threads s ! i = Handle c sp"
    | c sp ok where "threads s ! i = Defer c sp ok" | c vs where "threads s ! i = Drop c vs"
    | c vs cs where "threads s ! i = Succs c vs cs" | c cs where "threads s ! i = NSetup c cs"
    by blast
  then show ?thesis
  proof cases
    case 1
    obtain r' po' where rp: "worker_poll (epool s) = Inr (r', po')" using cp.poll_total [OF po] by blast
    show ?thesis
    proof (cases r')
      case None
      with 1 st rp have t: "t = goto i WGone (s\<lparr>epool := po'\<rparr>)" by (simp add: wpoll_step_def)
      have "pool_items (epool s) = []" "pool_items po' = []" using cp.poll_None [OF po rp [unfolded None]] by auto
      then show ?thesis
        by (intro settlesI [where h = "heap s" and p' = WGone]) (use t 1 al in \<open>auto simp: pc_refs_def queued_def intro: landI\<close>)
    next
      case (Some c)
      with 1 st rp have t: "t = goto i (Body c) (s\<lparr>epool := po'\<rparr>)" by (simp add: wpoll_step_def)
      have "pool_items (epool s) = c # pool_items po'" using cp.poll_Some [OF po rp [unfolded Some]] by auto
      then show ?thesis
        by (intro settlesI [where h = "heap s" and p' = "Body c"]) (use t 1 al cl in \<open>auto simp: pc_refs_def queued_def intro: landI\<close>)
    qed
  next
    case (2 c)
    obtain sp ob where so: "openSpan (heap s) (cnode c) (cparent c) now (obs s) = (sp, ob)" by fastforce
    show ?thesis
    proof (cases "is_canceled s (graph_of s (cnode c))")
      case True
      with 2 st so show ?thesis by (intro K [where p' = "Defer c sp True"]) (auto simp: body_step_def Let_def intro: landI)
    next
      case False
      with 2 st so show ?thesis by (intro K [where p' = "Handle c sp"]) (auto simp: body_step_def Let_def intro: landI)
    qed
  next
    case (3 c)
    let ?p = "if is_condition c then CSetup c else Done c"
    have t: "t = goto i ?p (do_signal (graph_of s (cnode c)) (on_heap (graph_deref (graph_of s (cnode c))) s))"
      using 3 st by (auto simp: deref_step_def Let_def split: if_splits)
    show ?thesis
    proof (rule settlesI [where h = "heap s" and p' = ?p])
      show "gjoin (hgraph (heap t) g) + of_nat (pc_refs (heap s) g (threads s ! i) + queued (heap s) g s) =
          gjoin (hgraph (heap s) g) + of_nat (pc_refs (heap s) g ?p + queued (heap s) g t)" for g
        by (auto simp: t 3 pc_refs_def queued_def graph_deref_def graph_of_def)
    qed (use t 3 al cl in \<open>auto simp: graph_deref_def intro: landI\<close>)
  next
    case (4 c)
    with st show ?thesis by (intro K [where p' = "Done c"]) (auto simp: csetup_step_def intro: landI)
  next
    case (5 c)
    have "\<not> wg s - 1 < 0" using Done_accounts(2) [OF a i] 5 st by fastforce
    with st 5 obtain po' where
      t: "t = goto i WPoll (log [HEnd (cnode c)] (s\<lparr>wg := wg s - 1, epool := po'\<rparr>))" "task_end False (epool s) = Some po'"
      by (auto simp: done_step_def split: option.splits)
    have "pool_items po' = pool_items (epool s)" using task_end_simps [OF t(2)] by simp
    then show ?thesis
      by (intro settlesI [where h = "heap s" and p' = WPoll]) (use t 5 al cl in \<open>auto simp: pc_refs_def queued_def intro: landI\<close>)
  next
    case (6 c sp)
    show ?thesis
    proof (cases c)
      case (StaticC n q)
      with 6 st consider "t = goto i (Defer c sp True) (log [HRet n] (on_heap (set_state kNodeStateFinished n) s))"
        | "t = goto i (Defer c sp False) (log [HPanic n] s)"
        by (auto split: choice.splits)
      then show ?thesis
      proof cases
        case 1
        with 6 show ?thesis by (intro K [where p' = "Defer c sp True"]) (auto intro: landI)
      next
        case 2
        with 6 show ?thesis by (intro K [where p' = "Defer c sp False"]) (auto intro: landI)
      qed
    next
      case (ConditionC n q)
      with 6 st consider es where "t = goto i (Defer c sp False) (log es s)"
        | es where "t = goto i (Defer c sp False) (log es (log [HRet n] (on_heap (set_state kNodeStateFinished n) s)))"
        | v where "t = goto i (Schedule [v] (KCond c sp)) (log [HRet n] (on_heap (set_state kNodeStateFinished n) s))"
        by (auto simp: Let_def split: choice.splits node_ptr.splits if_splits option.splits)
      then show ?thesis
      proof cases
        case (1 es)
        with 6 show ?thesis by (intro K [where p' = "Defer c sp False"]) (auto intro: landI)
      next
        case (2 es)
        with 6 show ?thesis by (intro K [where p' = "Defer c sp False"]) (auto intro: landI)
      next
        case (3 v)
        with 6 show ?thesis by (intro K [where p' = "Schedule [v] (KCond c sp)"]) (auto intro: landI)
      qed
    next
      case (SubflowC n q g)
      have g: "g < gnext (heap s)" using cl(1) 6 SubflowC by simp
      from SubflowC 6 st consider "t = goto i (Defer c sp True) (on_heap (set_state kNodeStateFinished n) s)"
        | cs where "t = goto i (Defer c sp True) (log [HRet n] (on_heap (\<lambda>h. set_state kNodeStateFinished n
            (upd_graph g (\<lambda>x. x\<lparr>instantiated := True\<rparr>) h)) (on_heap (fold (subflow_call g) cs) s)))"
        | cs where "t = goto i (Defer c sp False) (log [HPanic n] (on_heap (fold (subflow_call g) cs) s))"
        by (auto simp: Let_def split: choice.splits if_splits)
      then show ?thesis
      proof cases
        case 1
        with 6 show ?thesis by (intro K [where p' = "Defer c sp True"]) (auto intro: landI)
      next
        case (2 cs)
        have "grows (heap s) (heap t)"
          using 2 grows_trans [OF grows_trans [OF subflow_calls_grow [OF g, of cs] grows_ops(6)] grows_ops(1)] by simp
        with 2 6 show ?thesis by (intro K [where p' = "Defer c sp True"]) (auto intro: landI)
      next
        case (3 cs)
        with 6 subflow_calls_grow [OF g, of cs] show ?thesis by (intro K [where p' = "Defer c sp False"]) (auto intro: landI)
      qed
    qed
  next
    case (7 c sp ok)
    have gg: "grows (heap s) (graph_cancel g1 (graph_cancel g2 (heap s)))" for g1 g2
      by (rule grows_trans [of _ "graph_cancel g2 (heap s)"]) simp_all
    show ?thesis
    proof (cases "\<exists>n q g. c = SubflowC n q g")
      case True
      then obtain n q g where "c = SubflowC n q g" by blast
      with 7 st gg show ?thesis by (intro K [where p' = "GSetup g (GSub c sp)"]) (auto simp: Let_def intro: landI)
    next
      case False
      let ?h = "if ok then heap s else graph_cancel (graph_of s (cnode c)) (heap s)"
      have "t = goto i (Drop c (successors (hnode (heap s) (cnode c)))) (s\<lparr>heap := ?h, obs := closeSpan sp ok now (obs s)\<rparr>)"
        using False 7 st by (cases c; cases ok) (auto simp: Let_def on_heap_def)
      with 7 show ?thesis by (intro K [where p' = "Drop c (successors (hnode (heap s) (cnode c)))"]) (auto intro: landI)
    qed
  next
    case (8 c vs)
    then show ?thesis
    proof (cases vs)
      case Nil
      with 8 st show ?thesis
        by (intro K [where p' = "if is_condition c then Deref c else Succs c (successors (hnode (heap s) (cnode c))) []"]) (auto intro: landI)
    next
      case (Cons v us)
      with 8 st show ?thesis by (intro K [where p' = "Drop c us"]) (auto intro: landI)
    qed
  next
    case (9 c vs cs)
    then show ?thesis
    proof (cases vs)
      case Nil
      with 9 st show ?thesis by (intro K [where p' = "NSetup c cs"]) (auto intro: landI)
    next
      case (Cons v us)
      let ?b = "node_recyclable (heap s) v \<and> nstate (hnode (heap s) v) = kNodeStateIdle"
      have "t = goto i (Succs c us (if ?b then cs @ [v] else cs)) (if ?b then on_heap (set_state kNodeStateWaiting v) s else s)"
        using 9 Cons st by auto
      with 9 Cons show ?thesis by (intro K [where p' = "Succs c us (if ?b then cs @ [v] else cs)"]) (auto intro: landI)
    qed
  next
    case (10 c cs)
    with st obtain es where "t = goto i (Schedule es (KSucc c)) (on_heap (node_setup (cnode c)) s)"
      by (auto simp: nsetup_step_def split: choice.splits if_splits)
    with 10 show ?thesis by (intro K [where p' = "Schedule es (KSucc c)"]) (auto intro: landI)
  qed
qed

section \<open>The join\<close>

lemma step_settled:
  assumes "join_inv s" "well_typed s" "accounts s" "step s (i, ch, now) = Some t" "\<not> crashed t"
    and "\<And>g k. threads s ! i = GSetup g k \<Longrightarrow> inflight g s = 0"
  shows "\<exists>p'. settles s i p' t"
proof -
  have i: "i < length (threads s)" and p: "pc_step s i (threads s ! i) ch now = Some t" using assms(4) by (auto split: if_splits)
  consider (sched) n ns k where "threads s ! i = Schedule ns k \<or> threads s ! i = PRef n ns k \<or> threads s ! i = PPut n ns k"
    | (loop) "(\<exists>cs. threads s ! i = Client cs) \<or> (\<exists>g k. threads s ! i \<in> {GSetup g k, LCheck g k, LPop g k, LLeave g k}) \<or>
        (\<exists>n g k. threads s ! i = LInvoke n g k)"
    | (work) "threads s ! i = WPoll \<or> (\<exists>c. threads s ! i \<in> {Body c, Deref c, CSetup c, Done c}) \<or> (\<exists>c sp. threads s ! i = Handle c sp) \<or>
        (\<exists>c sp ok. threads s ! i = Defer c sp ok) \<or> (\<exists>c vs. threads s ! i = Drop c vs) \<or>
        (\<exists>c vs cs. threads s ! i = Succs c vs cs) \<or> (\<exists>c cs. threads s ! i = NSetup c cs)"
    using p by (cases "threads s ! i") auto
  then show ?thesis
  proof cases
    case sched
    from schedule_settles [OF assms(1-3) i this p] show ?thesis .
  next
    case loop
    from loop_settles [OF assms(1-3) i p assms(5,6) loop] show ?thesis .
  next
    case work
    from worker_settles [OF assms(1-3) i p work] show ?thesis .
  qed
qed

lemma step_settles:
  assumes "join_inv s" "well_typed s" "accounts s" "step s (i, ch, now) = Some t" "\<not> crashed t"
    and "\<And>g k. threads s ! i = GSetup g k \<Longrightarrow> inflight g s = 0"
  shows "join_inv t"
proof -
  obtain p' where "settles s i p' t" using step_settled [OF assms(1-5)] assms(6) by blast
  moreover have "i < length (threads s)" using assms(4) by (auto split: if_splits)
  ultimately show ?thesis using settles_inv [OF assms(1,2)] by blast
qed

text \<open>A heap the API has built: no graph has a reference yet.\<close>

lemma built_grounded: "built h \<Longrightarrow> grounded h \<and> (\<forall>g. gjoin (hgraph h g) = 0)"
proof (induction rule: built.induct)
  case empty
  show ?case by (simp add: grounded_def empty_heap_def nil_node_def nil_graph_def)
next
  case (flow h name t h')
  then have "h' = snd (NewTaskFlow name h)" by simp
  with flow.IH show ?case by (auto simp: grounded_def NewTaskFlow_def newGraph_def Let_def nil_graph_def less_SucI)
next
  case (reset h t)
  then show ?case by (simp add: grounded_def TaskFlow_Reset_def)
next
  case (tf_call h t c h')
  have "h' = subflow_call (graph (hflow h t)) c h" using taskflow_call_Inr [OF tf_call.hyps(5)] by blast
  with subflow_call_grows [OF tf_call.hyps(3), of c] tf_call.IH show ?case by (simp add: grows_def)
next
  case (sf_call h g c)
  with subflow_call_grows [OF sf_call.hyps(3), of c] show ?case by (simp add: grows_def)
qed

lemma orderly_join:
  assumes "NewExecutor c opts now h clients = Inr s0" "built h" "orderly s0 s" "\<not> crashed s"
  shows "join_inv s"
  using assms(3,4)
proof (induction rule: orderly.induct)
  case start
  have s: "threads s0 = map Client clients" "heap s0 = h" "items (wq s0) = []" "pool_items (epool s0) = []"
    using assms(1) by (auto simp: NewExecutor_def NewCopool_def comp_def NewQueue_inv split: if_splits)
  have "total (pc_refs h g) s0 = 0" for g by (auto simp: total_0 s(1) pc_refs_def)
  with s built_grounded [OF assms(2)] show ?case by (auto simp: join_inv_def inflight_def queued_def)
next
  case (step s i ch now' t)
  have fr: "fresh_executor s0" using assms(1) unfolding fresh_executor_def by blast
  have nc: "\<not> crashed s" using step.hyps(3) crashed_stuck by fastforce
  have ro: "reach_ok s0 s" by (rule orderly_reach_ok [OF step.hyps(1)])
  have "accounts s" using reach_accounts [OF reach_ok_reach [OF ro] fr] nc by blast
  from step_settles [OF step.IH [OF nc] reach_well_typed [OF assms(1,2) ro] this step.hyps(3) step.prems step.hyps(4)]
  show ?case .
qed

lemma inflight_0:
  assumes "inflight g s = 0"
  shows "\<forall>n \<in> set (items (wq s)). graph_of s n \<noteq> g" "\<forall>c \<in> set (pool_items (epool s)). graph_of s (cnode c) \<noteq> g"
    "\<forall>p \<in> set (threads s). (\<forall>n \<in> set (pc_carried p). graph_of s n \<noteq> g) \<and> (\<forall>c \<in> set (pc_closures p). graph_of s (cnode c) \<noteq> g)"
  using assms by (auto simp: inflight_def queued_def pc_refs_def total_0 nodes_of_def graph_of_def filter_empty_conv)

text \<open>(C24) Fork and join. For every program of every client on flows built with the API, with subflows,
  conditions, loops and panics: when the loop of \<open>invokeGraph\<close> ends for a graph that was not canceled,
  so that \<open>Run\<close> returns or a subflow goes on to its successors, no node of the graph is queued, submitted
  to the pool, carried by a goroutine or being executed. (No graph has been set up while it had nodes in
  flight, and fewer than \<open>2^32\<close> nodes of it are in flight.)\<close>

theorem invokeGraph_joins:
  assumes "NewExecutor c opts now h clients = Inr s0" "built h" "orderly s0 s"
    and "threads s ! i = LPop g k" "step s (i, ch, now') = Some t" "threads t ! i = LLeave g k"
    and "\<not> is_canceled s g" "inflight g s < 2 ^ 32"
  shows "(\<forall>n \<in> set (items (wq s)). graph_of s n \<noteq> g) \<and> (\<forall>c \<in> set (pool_items (epool s)). graph_of s (cnode c) \<noteq> g) \<and>
    (\<forall>p \<in> set (threads s). (\<forall>n \<in> set (pc_carried p). graph_of s n \<noteq> g) \<and> (\<forall>c \<in> set (pc_closures p). graph_of s (cnode c) \<noteq> g))"
proof -
  have i: "i < length (threads s)" and st: "lpop_step s i g k = Some t" using assms(4,5) by (auto split: if_splits)
  have "graph_recyclable (heap s) g"
  proof (rule ccontr)
    assume "\<not> graph_recyclable (heap s) g"
    with st assms(7) i have "threads t ! i \<noteq> LLeave g k" by (auto simp: lpop_step_def split: sum.splits)
    with assms(6) show False by simp
  qed
  moreover have "\<not> crashed s" using assms(5) crashed_stuck by fastforce
  then have "gjoin (hgraph (heap s) g) = of_nat (inflight g s)" using orderly_join [OF assms(1-3)] by (simp add: join_inv_def)
  ultimately have "inflight g s = 0" using of_nat_int32_eq_0 [OF assms(8)] by (simp add: graph_recyclable_def)
  from inflight_0 [OF this] show ?thesis by blast
qed

text \<open>A run of a subflow of one task on two workers, up to the end of its loop.\<close>

fun setup_ok :: "sys \<Rightarrow> pc \<Rightarrow> bool" where
  "setup_ok s (GSetup g k) \<longleftrightarrow> inflight g s = 0"
| "setup_ok s _ \<longleftrightarrow> True"

fun instantiates_ok :: "sys \<Rightarrow> pc \<Rightarrow> choice \<Rightarrow> bool" where
  "instantiates_ok s (Handle (SubflowC n p g) sp) (Instantiate cs ok) \<longleftrightarrow> builds_ok (heap s) g cs"
| "instantiates_ok s _ _ \<longleftrightarrow> True"

fun orderly_run :: "sys \<Rightarrow> event list \<Rightarrow> sys option" where
  "orderly_run s [] = Some s"
| "orderly_run s ((i, ch, now) # es) =
     (if setup_ok s (threads s ! i) \<and> instantiates_ok s (threads s ! i) ch
      then (case step s (i, ch, now) of None \<Rightarrow> None | Some t \<Rightarrow> orderly_run t es) else None)"

lemma orderly_run_orderly: "orderly_run s es = Some t \<Longrightarrow> orderly s0 s \<Longrightarrow> orderly s0 t"
proof (induction es arbitrary: s)
  case (Cons e es)
  obtain i ch now where e: "e = (i, ch, now)" by (cases e) auto
  obtain u where u: "setup_ok s (threads s ! i)" "instantiates_ok s (threads s ! i) ch" "step s e = Some u" "orderly_run u es = Some t"
    using Cons.prems(1) unfolding e orderly_run.simps by (auto split: if_splits option.splits)
  have "event_ok s e" using u(2) e by (cases ch) auto
  with u(1,3) e have "orderly s0 u" by (intro orderly.step [OF Cons.prems(2)]) auto
  with Cons.IH [OF u(4)] show ?case .
qed simp

definition join_trace :: "event list" where
  "join_trace = events ([(0, Tau), (0, Sorted [1])] @ steps 0 8 @ steps 1 2 @ [(1, Instantiate [BTask ''x'' 0] True)] @
     steps 1 1 @ [(1, Sorted [2])] @ steps 1 8 @ steps 2 2 @ [(2, Return)] @ steps 2 3 @ [(2, Sorted [])] @ steps 2 2 @ steps 1 1)"

lemma sub_flow_built: "built sub_flow"
  unfolding sub_flow_def
  by (intro built.sf_call flow_started) (simp_all add: NewTaskFlow_def newGraph_def empty_heap_def Let_def)

lemma invokeGraph_joins_witness:
  "\<exists>s t. orderly (demo 2 sub_flow [Run 1, Wait]) s \<and> step s (1, Tau, 0) = Some t \<and>
     threads t ! 1 = LLeave 2 (GSub (SubflowC 1 None 2) None) \<and> hist s = [HCall 1, HRet 1, HCall 2, HRet 2] \<and>
     (\<forall>p \<in> set (threads s). \<forall>c \<in> set (pc_closures p). graph_of s (cnode c) \<noteq> 2)"
proof -
  have "map_option (\<lambda>s. (threads s ! 1, hist s, is_canceled s 2, inflight 2 s, map_option (\<lambda>t. threads t ! 1) (step s (1, Tau, 0))))
      (orderly_run (demo 2 sub_flow [Run 1, Wait]) join_trace) =
    Some (LPop 2 (GSub (SubflowC 1 None 2) None), [HCall 1, HRet 1, HCall 2, HRet 2], False, 0,
      Some (LLeave 2 (GSub (SubflowC 1 None 2) None)))"
    by code_simp
  then obtain s t where s: "orderly_run (demo 2 sub_flow [Run 1, Wait]) join_trace = Some s"
    "threads s ! 1 = LPop 2 (GSub (SubflowC 1 None 2) None)" "hist s = [HCall 1, HRet 1, HCall 2, HRet 2]"
    "\<not> is_canceled s 2" "inflight 2 s = 0" "step s (1, Tau, 0) = Some t" "threads t ! 1 = LLeave 2 (GSub (SubflowC 1 None 2) None)"
    by auto
  have o: "orderly (demo 2 sub_flow [Run 1, Wait]) s" by (rule orderly_run_orderly [OF s(1) orderly.start])
  have n: "NewExecutor 2 [] 0 sub_flow [[Run 1, Wait]] = Inr (demo 2 sub_flow [Run 1, Wait])"
    by (simp add: demo_def NewExecutor_def)
  have "inflight 2 s < 2 ^ 32" by (simp add: s(5))
  from invokeGraph_joins [OF n sub_flow_built o s(2,6,7,4) this] o s(3,6,7) show ?thesis by blast
qed

end
