(* ===== verification/Transitions.thy ===== *)
theory Transitions
  imports Typing
begin

text \<open>
  The transitions of the executor for every program, written out: \<open>act s p p' h q l es sg\<close> says that a
  goroutine at \<open>p\<close> can go to \<open>p'\<close> in \<open>s\<close>, leaving the heap \<open>h\<close>, the node queue \<open>q\<close>, the task queue \<open>l\<close>,
  adding \<open>es\<close> to the history and signalling the graph \<open>sg\<close>, if any. \<open>step_acts\<close> shows that every step
  is one of them; invariants of all programs are proved by cases over \<open>act\<close>.
\<close>

section \<open>The transitions\<close>

fun is_subflow :: "closure \<Rightarrow> bool" where
  "is_subflow (SubflowC n p g) = True"
| "is_subflow _ = False"

inductive act :: "sys \<Rightarrow> pc \<Rightarrow> pc \<Rightarrow> heap \<Rightarrow> nid list \<Rightarrow> closure list \<Rightarrow> hevent list \<Rightarrow> gid option \<Rightarrow> bool"
  for s where
  a_run: "(\<And>t. graph (f t) = graph (hflow (heap s) t)) \<Longrightarrow> act s (Client (Run tf # cs)) (GSetup (graph (hflow (heap s) tf)) (GMain cs))
    ((heap s)\<lparr>hflow := f\<rparr>) (items (wq s)) (pool_items (epool s)) [] None"
| a_wait: "wg s = 0 \<Longrightarrow> act s (Client (Wait # cs)) (Client cs) (heap s) (items (wq s)) (pool_items (epool s)) [] None"
| a_gsetup: "is_sort (graph_setup g (heap s)) (entries (hgraph (graph_setup g (heap s)) g)) es \<Longrightarrow>
    act s (GSetup g k) (Schedule es (KLoop g k)) (upd_graph g (\<lambda>x. x\<lparr>entries := es\<rparr>) (graph_setup g (heap s)))
      (items (wq s)) (pool_items (epool s)) [] None"
| a_sched_done: "act s (Schedule [] k) (after_schedule k) (heap s) (items (wq s)) (pool_items (epool s)) [] None"
| a_sched_skip: "is_canceled s (graph_of s n) \<Longrightarrow> act s (Schedule (n # ns) k) (after_schedule k)
    (heap s) (items (wq s)) (pool_items (epool s)) [] (Some (graph_of s n))"
| a_sched: "\<not> is_canceled s (graph_of s n) \<Longrightarrow> act s (Schedule (n # ns) k) (PRef n ns k)
    (heap s) (items (wq s)) (pool_items (epool s)) [] None"
| a_ref: "act s (PRef n ns k) (PPut n ns k) (graph_ref (graph_of s n) (heap s)) (items (wq s))
    (pool_items (epool s)) [] None"
| a_put: "act s (PPut n ns k) (Schedule ns k) (heap s) (items (wq s) @ [n]) (pool_items (epool s)) [] (Some (graph_of s n))"
| a_sleep: "\<not> graph_recyclable (heap s) g \<Longrightarrow> items (wq s) = [] \<Longrightarrow> \<not> is_canceled s g \<Longrightarrow>
    act s (LCheck g k) (LWait g k) (heap s) (items (wq s)) (pool_items (epool s)) [] None"
| a_awake: "mu_free s \<Longrightarrow> graph_recyclable (heap s) g \<or> items (wq s) \<noteq> [] \<or> is_canceled s g \<Longrightarrow>
    act s (LCheck g k) (LPop g k) (heap s) (items (wq s)) (pool_items (epool s)) [] None"
| a_leave: "graph_recyclable (heap s) g \<or> is_canceled s g \<Longrightarrow>
    act s (LPop g k) (LLeave g k) (heap s) (items (wq s)) (pool_items (epool s)) [] None"
| a_pop: "\<not> graph_recyclable (heap s) g \<Longrightarrow> \<not> is_canceled s g \<Longrightarrow> items (wq s) = n # q \<Longrightarrow>
    act s (LPop g k) (LInvoke n g k) (heap s) q (pool_items (epool s)) [] None"
| a_pop_empty: "\<not> graph_recyclable (heap s) g \<Longrightarrow> \<not> is_canceled s g \<Longrightarrow> items (wq s) = [] \<Longrightarrow>
    act s (LPop g k) (Crashed e) (heap s) (items (wq s)) (pool_items (epool s)) [] None"
| a_invoke: "make_closure (heap s) n (kont_span k) = Some c \<Longrightarrow>
    act s (LInvoke n g k) (LCheck g k) (heap s) (items (wq s)) (pool_items (epool s) @ [c]) [] None"
| a_invoke_bad: "make_closure (heap s) n (kont_span k) = None \<Longrightarrow>
    act s (LInvoke n g k) (Crashed e) (heap s) (items (wq s)) (pool_items (epool s)) [] None"
| a_exit: "act s (LLeave g (GMain cs)) (Client cs) (heap s) (items (wq s)) (pool_items (epool s)) [] (Some g)"
| a_exit_sub: "act s (LLeave g (GSub c sp)) (Drop c (successors (hnode (heap s) (cnode c))))
    (if is_canceled s g then graph_cancel (graph_of s (cnode c)) (heap s) else heap s)
    (items (wq s)) (pool_items (epool s)) [] (Some g)"
| a_gone: "pool_items (epool s) = [] \<Longrightarrow> act s WPoll WGone (heap s) (items (wq s)) (pool_items (epool s)) [] None"
| a_take: "pool_items (epool s) = c # l \<Longrightarrow> act s WPoll (Body c) (heap s) (items (wq s)) l [] None"
| a_skip: "is_canceled s (graph_of s (cnode c)) \<Longrightarrow>
    act s (Body c) (Defer c sp True) (heap s) (items (wq s)) (pool_items (epool s)) [] None"
| a_call: "\<not> is_canceled s (graph_of s (cnode c)) \<Longrightarrow> es = (if calls_handle (heap s) c then [HCall (cnode c)] else []) \<Longrightarrow>
    act s (Body c) (Handle c sp) (set_state kNodeStateRunning (cnode c) (heap s)) (items (wq s)) (pool_items (epool s)) es None"
| a_ret: "act s (Handle (StaticC n p) sp) (Defer (StaticC n p) sp True) (set_state kNodeStateFinished n (heap s))
    (items (wq s)) (pool_items (epool s)) [HRet n] None"
| a_panic: "act s (Handle c sp) (Defer c sp False) (heap s) (items (wq s)) (pool_items (epool s)) [HPanic (cnode c)] None"
| a_again: "instantiated (hgraph (heap s) g) \<Longrightarrow>
    act s (Handle (SubflowC n p g) sp) (Defer (SubflowC n p g) sp True) (set_state kNodeStateFinished n (heap s))
      (items (wq s)) (pool_items (epool s)) [] None"
| a_build: "\<not> instantiated (hgraph (heap s) g) \<Longrightarrow>
    act s (Handle (SubflowC n p g) sp) (Defer (SubflowC n p g) sp True)
      (set_state kNodeStateFinished n (upd_graph g (\<lambda>x. x\<lparr>instantiated := True\<rparr>) (fold (subflow_call g) cs (heap s))))
      (items (wq s)) (pool_items (epool s)) [HRet n] None"
| a_build_panic: "\<not> instantiated (hgraph (heap s) g) \<Longrightarrow>
    act s (Handle (SubflowC n p g) sp) (Defer (SubflowC n p g) sp False) (fold (subflow_call g) cs (heap s))
      (items (wq s)) (pool_items (epool s)) [HPanic n] None"
| a_range: "act s (Handle (ConditionC n p) sp) (Defer (ConditionC n p) sp False) (heap s)
    (items (wq s)) (pool_items (epool s)) [HRet n, HCall n, HPanic n] None"
| a_nil: "act s (Handle (ConditionC n p) sp) (Defer (ConditionC n p) sp False) (set_state kNodeStateFinished n (heap s))
    (items (wq s)) (pool_items (epool s)) [HRet n, HPanic n] None"
| a_choose: "ptr (hnode (heap s) n) = PCondition m \<Longrightarrow> map_of m v = Some u \<Longrightarrow>
    act s (Handle (ConditionC n p) sp) (Schedule [u] (KCond (ConditionC n p) sp)) (set_state kNodeStateFinished n (heap s))
      (items (wq s)) (pool_items (epool s)) [HRet n] None"
| a_defer_sub: "act s (Defer (SubflowC n p g) sp ok) (GSetup g (GSub (SubflowC n p g) sp))
    (if ok then heap s else graph_cancel g (graph_cancel (graph_of s n) (heap s)))
    (items (wq s)) (pool_items (epool s)) [] None"
| a_defer: "\<not> is_subflow c \<Longrightarrow> act s (Defer c sp ok) (Drop c (successors (hnode (heap s) (cnode c))))
    (if ok then heap s else graph_cancel (graph_of s (cnode c)) (heap s)) (items (wq s)) (pool_items (epool s)) [] None"
| a_drop: "act s (Drop c (v # vs)) (Drop c vs) (drop_one (cnode c) v (heap s)) (items (wq s)) (pool_items (epool s)) [] None"
| a_dropped: "act s (Drop c []) (if is_condition c then Deref c else Succs c (successors (hnode (heap s) (cnode c))) [])
    (heap s) (items (wq s)) (pool_items (epool s)) [] None"
| a_cand: "node_recyclable (heap s) v \<Longrightarrow> nstate (hnode (heap s) v) = kNodeStateIdle \<Longrightarrow>
    act s (Succs c (v # vs) cs) (Succs c vs (cs @ [v])) (set_state kNodeStateWaiting v (heap s))
      (items (wq s)) (pool_items (epool s)) [] None"
| a_not_cand: "\<not> (node_recyclable (heap s) v \<and> nstate (hnode (heap s) v) = kNodeStateIdle) \<Longrightarrow>
    act s (Succs c (v # vs) cs) (Succs c vs cs) (heap s) (items (wq s)) (pool_items (epool s)) [] None"
| a_succs: "act s (Succs c [] cs) (NSetup c cs) (heap s) (items (wq s)) (pool_items (epool s)) [] None"
| a_nsetup: "is_sort (heap s) cs es \<Longrightarrow> act s (NSetup c cs) (Schedule es (KSucc c)) (node_setup (cnode c) (heap s))
    (items (wq s)) (pool_items (epool s)) [] None"
| a_deref: "act s (Deref c) (if is_condition c then CSetup c else Done c) (graph_deref (graph_of s (cnode c)) (heap s))
    (items (wq s)) (pool_items (epool s)) [] (Some (graph_of s (cnode c)))"
| a_csetup: "act s (CSetup c) (Done c) (node_setup (cnode c) (heap s)) (items (wq s)) (pool_items (epool s)) [] None"
| a_finish: "act s (Done c) WPoll (heap s) (items (wq s)) (pool_items (epool s)) [HEnd (cnode c)] None"

text \<open>What a transition does to the goroutines: a signal wakes the first one that sleeps on the graph,
  and a submission may start a worker.\<close>

definition woken :: "gid option \<Rightarrow> pc list \<Rightarrow> pc list" where
  "woken sg ps = (case sg of None \<Rightarrow> ps | Some g \<Rightarrow> signal g ps)"

definition acts :: "sys \<Rightarrow> nat \<Rightarrow> pc \<Rightarrow> sys \<Rightarrow> hevent list \<Rightarrow> gid option \<Rightarrow> bool" where
  "acts s i p' t es sg \<longleftrightarrow> act s (threads s ! i) p' (heap t) (items (wq t)) (pool_items (epool t)) es sg \<and>
     hist t = hist s @ es \<and> (\<exists>ps. set ps \<subseteq> {WPoll} \<and> threads t = (woken sg (threads s))[i := p'] @ ps)"

lemma actsI:
  assumes "act s p p' h q l es sg" "threads s ! i = p" "heap t = h" "items (wq t) = q" "pool_items (epool t) = l"
    "hist t = hist s @ es" "threads t = (woken sg (threads s))[i := p'] @ ps" "set ps \<subseteq> {WPoll}"
  shows "\<exists>p' es sg. acts s i p' t es sg"
  using assms unfolding acts_def by blast

lemma woken_simps [simp]: "woken None ps = ps" "woken (Some g) ps = signal g ps"
  by (simp_all add: woken_def)

section \<open>Every step is a transition\<close>

lemma client_acts:
  assumes p: "threads s ! i = p" and st: "pc_step s i p ch now = Some t"
    and k: "p = Client cs \<or> p = GSetup g k"
  shows "\<exists>p' es sg. acts s i p' t es sg"
  using k
proof
  assume c: "p = Client cs"
  with st consider tf us where "cs = Run tf # us" | us where "cs = Wait # us" "wg s = 0"
    by (cases "(s, i, cs)" rule: client_step.cases) (auto split: if_splits)
  then show ?thesis
  proof cases
    case (1 tf us)
    with c p st show ?thesis by (intro actsI [OF act.a_run [where s = s and tf = tf and cs = us
      and f = "(hflow (heap s))(tf := (hflow (heap s) tf)\<lparr>frozen := True\<rparr>)"], where ps = "[]"]) auto
  next
    case (2 us)
    with c p st show ?thesis by (intro actsI [OF act.a_wait [of s us], where ps = "[]"]) auto
  qed
next
  assume c: "p = GSetup g k"
  with st obtain es where es: "is_sort (graph_setup g (heap s)) (entries (hgraph (graph_setup g (heap s)) g)) es"
    "t = goto i (Schedule es (KLoop g k)) (s\<lparr>heap := upd_graph g (\<lambda>x. x\<lparr>entries := es\<rparr>) (graph_setup g (heap s))\<rparr>)"
    by (auto simp: gsetup_step_def Let_def split: choice.splits if_splits)
  with c p show ?thesis by (intro actsI [OF act.a_gsetup [OF es(1), of k], where ps = "[]"]) auto
qed

lemma schedule_acts:
  assumes q: "queue_inv (wq s)" and p: "threads s ! i = p" and st: "pc_step s i p ch now = Some t"
    and k: "p = Schedule ns k \<or> p = PRef n ns k \<or> p = PPut n ns k"
  shows "\<exists>p' es sg. acts s i p' t es sg"
proof -
  from k consider "p = Schedule [] k" | m ms where "p = Schedule (m # ms) k" | "p = PRef n ns k" | "p = PPut n ns k"
    by (cases ns) auto
  then show ?thesis
  proof cases
    case 1
    with p st show ?thesis by (intro actsI [OF act.a_sched_done [of s k], where ps = "[]"]) auto
  next
    case (2 m ms)
    show ?thesis
    proof (cases "is_canceled s (graph_of s m)")
      case True
      with 2 p st show ?thesis
        by (intro actsI [OF act.a_sched_skip [OF True, of ms k], where ps = "[]"]) (auto split: if_splits)
    next
      case False
      with 2 p st show ?thesis by (intro actsI [OF act.a_sched [OF False, of ms k], where ps = "[]"]) auto
    qed
  next
    case 3
    with p st show ?thesis
      by (intro actsI [OF act.a_ref [of s n ns k], where ps = "[]"]) (auto simp: pref_step_def split: if_splits)
  next
    case 4
    with p st show ?thesis
      by (intro actsI [OF act.a_put [of s n ns k], where ps = "[]"])
        (auto simp: pput_step_def rq.list_put [OF q] split: if_splits)
  qed
qed

lemma loop_acts:
  assumes a: "accounts s" and p: "threads s ! i = p" and i: "i < length (threads s)" and st: "pc_step s i p ch now = Some t"
    and k: "p = LCheck g k \<or> p = LPop g k \<or> p = LInvoke n g k \<or> p = LLeave g k"
  shows "\<exists>p' es sg. acts s i p' t es sg"
proof -
  have q: "queue_inv (wq s)" and po: "pool_ok (epool s)" using a by (simp_all add: accounts_def)
  from k consider "p = LCheck g k" | "p = LPop g k" | "p = LInvoke n g k" | "p = LLeave g k" by blast
  then show ?thesis
  proof cases
    case 1
    then have mu: "mu_free s" using st by (auto simp: lcheck_step_def split: if_splits)
    show ?thesis
    proof (cases "graph_recyclable (heap s) g \<or> items (wq s) \<noteq> [] \<or> is_canceled s g")
      case True
      with 1 p st show ?thesis
        by (intro actsI [OF act.a_awake [OF mu True, of k], where ps = "[]"])
          (auto simp: lcheck_step_def rq.len_0 [OF q] split: if_splits)
    next
      case False
      then have f: "\<not> graph_recyclable (heap s) g" "items (wq s) = []" "\<not> is_canceled s g" by auto
      with 1 p st show ?thesis
        by (intro actsI [OF act.a_sleep [OF f, of k], where ps = "[]"])
          (auto simp: lcheck_step_def rq.len_0 [OF q] split: if_splits)
    qed
  next
    case 2
    show ?thesis
    proof (cases "graph_recyclable (heap s) g \<or> is_canceled s g")
      case True
      with 2 p st show ?thesis
        by (intro actsI [OF act.a_leave [OF True, of k], where ps = "[]"]) (auto simp: lpop_step_def)
    next
      case False
      then have f: "\<not> graph_recyclable (heap s) g" "\<not> is_canceled s g" by auto
      show ?thesis
      proof (cases "Pop (wq s)")
        case (Inl e)
        have e: "items (wq s) = []" using rq.pop_nonempty [OF q] Inl by auto
        with Inl 2 p st f show ?thesis
          by (intro actsI [OF act.a_pop_empty [OF f e, of k e], where ps = "[]"]) (auto simp: lpop_step_def)
      next
        case (Inr r)
        then obtain m q' where r: "Pop (wq s) = Inr (m, q')" by (cases r) auto
        have m: "items (wq s) = m # items q'" using rq.pop_Inr [OF q r] by simp
        with r 2 p st f show ?thesis
          by (intro actsI [OF act.a_pop [OF f m, of k], where ps = "[]"]) (auto simp: lpop_step_def)
      qed
    qed
  next
    case 3
    show ?thesis
    proof (cases "make_closure (heap s) n (kont_span k)")
      case None
      with 3 p st show ?thesis
        by (intro actsI [OF act.a_invoke_bad [OF None, of g], where ps = "[]"]) (auto simp: linvoke_step_def)
    next
      case (Some c)
      obtain po' b where pb: "CtxGo c (epool s) = (po', b)" by fastforce
      with cp.submit_queued [OF po, of c] have po': "pool_items po' = pool_items (epool s) @ [c]" by simp
      have "t = spawn b (goto i (LCheck g k) (s\<lparr>epool := po'\<rparr>))" using 3 st Some pb by (simp add: linvoke_step_def)
      with 3 p po' show ?thesis
        by (intro actsI [OF act.a_invoke [OF Some, of g], where ps = "if b then [WPoll] else []"]) auto
    qed
  next
    case 4
    show ?thesis
    proof (cases k)
      case (GMain cs)
      with 4 p st show ?thesis by (intro actsI [OF act.a_exit [of s g cs], where ps = "[]"]) auto
    next
      case (GSub c sp)
      with 4 p st show ?thesis
        by (intro actsI [OF act.a_exit_sub [of s g c sp], where ps = "[]"]) (auto simp: Let_def)
    qed
  qed
qed

lemma handle_acts:
  assumes p: "threads s ! i = Handle c sp" and st: "handle_step s i c sp ch = Some t"
  shows "\<exists>p' es sg. acts s i p' t es sg"
proof (cases c)
  case (StaticC n q)
  with st consider "t = goto i (Defer c sp True) (log [HRet n] (on_heap (set_state kNodeStateFinished n) s))"
    | "t = goto i (Defer c sp False) (log [HPanic n] s)"
    by (auto split: choice.splits)
  then show ?thesis
  proof cases
    case 1
    with StaticC p show ?thesis by (intro actsI [OF act.a_ret [of s n q sp], where ps = "[]"]) auto
  next
    case 2
    with StaticC p show ?thesis by (intro actsI [OF act.a_panic [of s c sp], where ps = "[]"]) auto
  qed
next
  case (SubflowC n q g)
  show ?thesis
  proof (cases "instantiated (hgraph (heap s) g)")
    case True
    with SubflowC p st show ?thesis
      by (intro actsI [OF act.a_again [OF True, of n q sp], where ps = "[]"]) (auto split: choice.splits)
  next
    case False
    with SubflowC st consider cs where "t = goto i (Defer c sp True) (log [HRet n] (on_heap (\<lambda>h. set_state kNodeStateFinished n
          (upd_graph g (\<lambda>x. x\<lparr>instantiated := True\<rparr>) h)) (on_heap (fold (subflow_call g) cs) s)))"
      | cs where "t = goto i (Defer c sp False) (log [HPanic n] (on_heap (fold (subflow_call g) cs) s))"
      by (auto simp: Let_def split: choice.splits if_splits)
    then show ?thesis
    proof cases
      case (1 cs)
      with SubflowC p show ?thesis by (intro actsI [OF act.a_build [OF False, of n q sp cs], where ps = "[]"]) auto
    next
      case (2 cs)
      with SubflowC p show ?thesis by (intro actsI [OF act.a_build_panic [OF False, of n q sp cs], where ps = "[]"]) auto
    qed
  qed
next
  case (ConditionC n q)
  with st consider "t = goto i (Defer c sp False) (log [HRet n, HCall n, HPanic n] s)"
    | "t = goto i (Defer c sp False) (log [HPanic n] (log [HRet n] (on_heap (set_state kNodeStateFinished n) s)))"
    | m v u where "ptr (hnode (heap s) n) = PCondition m" "map_of m v = Some u"
        "t = goto i (Schedule [u] (KCond c sp)) (log [HRet n] (on_heap (set_state kNodeStateFinished n) s))"
    | "t = goto i (Defer c sp False) (log [HPanic n] s)"
    by (auto simp: Let_def split: choice.splits node_ptr.splits if_splits option.splits)
  then show ?thesis
  proof cases
    case 1
    with ConditionC p show ?thesis by (intro actsI [OF act.a_range [of s n q sp], where ps = "[]"]) auto
  next
    case 2
    with ConditionC p show ?thesis by (intro actsI [OF act.a_nil [of s n q sp], where ps = "[]"]) auto
  next
    case (3 m v u)
    with ConditionC p show ?thesis by (intro actsI [OF act.a_choose [OF 3(1,2), of q sp], where ps = "[]"]) auto
  next
    case 4
    with ConditionC p show ?thesis by (intro actsI [OF act.a_panic [of s c sp], where ps = "[]"]) auto
  qed
qed

lemma worker_acts:
  assumes a: "accounts s" and p: "threads s ! i = p" and i: "i < length (threads s)" and st: "pc_step s i p ch now = Some t"
    and k: "p = WPoll \<or> p = Body c \<or> p = Defer c sp ok \<or> p = Drop c vs \<or> p = Succs c vs cs \<or> p = NSetup c cs \<or>
      p = Deref c \<or> p = CSetup c \<or> p = Done c"
  shows "\<exists>p' es sg. acts s i p' t es sg"
proof -
  have po: "pool_ok (epool s)" using a by (simp add: accounts_def)
  from k consider "p = WPoll" | "p = Body c" | "p = Defer c sp ok" | "p = Drop c vs" | "p = Succs c vs cs" | "p = NSetup c cs"
    | "p = Deref c" | "p = CSetup c" | "p = Done c" by blast
  then show ?thesis
  proof cases
    case 1
    obtain r' po' where rp: "worker_poll (epool s) = Inr (r', po')" using cp.poll_total [OF po] by blast
    show ?thesis
    proof (cases r')
      case None
      note f = cp.poll_None [OF po rp [unfolded None]]
      from f have e: "pool_items (epool s) = []" by blast
      with f 1 p st rp None show ?thesis
        by (intro actsI [OF act.a_gone [OF e], where ps = "[]"]) (auto simp: wpoll_step_def)
    next
      case (Some d)
      note f = cp.poll_Some [OF po rp [unfolded Some]]
      from f have e: "pool_items (epool s) = d # pool_items po'" by blast
      with 1 p st rp Some show ?thesis
        by (intro actsI [OF act.a_take [OF e], where ps = "[]"]) (auto simp: wpoll_step_def)
    qed
  next
    case 2
    obtain x ob where so: "openSpan (heap s) (cnode c) (cparent c) now (obs s) = (x, ob)" by fastforce
    show ?thesis
    proof (cases "is_canceled s (graph_of s (cnode c))")
      case True
      with 2 p st so show ?thesis
        by (intro actsI [OF act.a_skip [OF True, of x], where ps = "[]"]) (auto simp: body_step_def Let_def)
    next
      case False
      with 2 p st so show ?thesis
        by (intro actsI [OF act.a_call [OF False refl, of x], where ps = "[]"]) (auto simp: body_step_def Let_def)
    qed
  next
    case 3
    show ?thesis
    proof (cases "is_subflow c")
      case True
      then obtain n q g where "c = SubflowC n q g" by (cases c) auto
      with 3 p st show ?thesis
        by (intro actsI [OF act.a_defer_sub [of s n q g sp ok], where ps = "[]"]) (auto simp: Let_def)
    next
      case False
      with 3 p st show ?thesis
        by (intro actsI [OF act.a_defer [OF False, of s sp ok], where ps = "[]"]) (cases c; auto simp: Let_def)+
    qed
  next
    case 4
    show ?thesis
    proof (cases vs)
      case Nil
      with 4 p st show ?thesis by (intro actsI [OF act.a_dropped [of s c], where ps = "[]"]) auto
    next
      case (Cons v us)
      with 4 p st show ?thesis by (intro actsI [OF act.a_drop [of s c v us], where ps = "[]"]) auto
    qed
  next
    case 5
    show ?thesis
    proof (cases vs)
      case Nil
      with 5 p st show ?thesis by (intro actsI [OF act.a_succs [of s c cs], where ps = "[]"]) auto
    next
      case (Cons v us)
      show ?thesis
      proof (cases "node_recyclable (heap s) v \<and> nstate (hnode (heap s) v) = kNodeStateIdle")
        case True
        then have t: "node_recyclable (heap s) v" "nstate (hnode (heap s) v) = kNodeStateIdle" by auto
        with 5 Cons p st show ?thesis by (intro actsI [OF act.a_cand [OF t, of c us cs], where ps = "[]"]) auto
      next
        case False
        with 5 Cons p st show ?thesis
          by (intro actsI [OF act.a_not_cand [OF False, of c us cs], where ps = "[]"]) (auto split: if_splits)
      qed
    qed
  next
    case 6
    with st obtain es where es: "is_sort (heap s) cs es" "t = goto i (Schedule es (KSucc c)) (on_heap (node_setup (cnode c)) s)"
      by (auto simp: nsetup_step_def split: choice.splits if_splits)
    with 6 p show ?thesis by (intro actsI [OF act.a_nsetup [OF es(1), of c], where ps = "[]"]) auto
  next
    case 7
    with p st show ?thesis
      by (intro actsI [OF act.a_deref [of s c], where ps = "[]"]) (auto simp: deref_step_def Let_def split: if_splits)
  next
    case 8
    with p st show ?thesis by (intro actsI [OF act.a_csetup [of s c], where ps = "[]"]) (auto simp: csetup_step_def)
  next
    case 9
    have "\<not> wg s - 1 < 0" using Done_accounts(2) [OF a i] p 9 st by fastforce
    with st 9 obtain po' where
      t: "t = goto i WPoll (log [HEnd (cnode c)] (s\<lparr>wg := wg s - 1, epool := po'\<rparr>))"
      "task_end False (epool s) = Some po'"
      by (auto simp: done_step_def split: option.splits)
    with p 9 task_end_simps [OF t(2)] show ?thesis
      by (intro actsI [OF act.a_finish [of s c], where ps = "[]"]) auto
  qed
qed

lemma step_acts:
  assumes "accounts s" "step s (i, ch, now) = Some t"
  obtains p' es sg where "acts s i p' t es sg"
proof -
  have i: "i < length (threads s)" and st: "pc_step s i (threads s ! i) ch now = Some t" using assms(2) by (auto split: if_splits)
  have q: "queue_inv (wq s)" using assms(1) by (simp add: accounts_def)
  have "\<exists>p' es sg. acts s i p' t es sg"
  proof (cases "threads s ! i")
    case (Client cs)
    from client_acts [OF refl st disjI1 [OF this]] show ?thesis .
  next
    case (GSetup g k)
    from client_acts [OF refl st disjI2 [OF this]] show ?thesis .
  next
    case (Handle c sp)
    from handle_acts [OF this] st Handle show ?thesis by simp
  next
    case (LWait g k)
    with st show ?thesis by simp
  next
    case WGone
    with st show ?thesis by simp
  next
    case (Crashed e)
    with st show ?thesis by simp
  qed (use schedule_acts [OF q refl st] loop_acts [OF assms(1) refl i st] worker_acts [OF assms(1) refl i st] in blast)+
  with that show thesis by blast
qed

lemma acts_at: "acts s i p' t es sg \<Longrightarrow> i < length (threads s) \<Longrightarrow> threads t ! i = p'"
  by (cases sg) (auto simp: acts_def nth_append)

end
