(* ===== verification/Completion.thy ===== *)
theory Completion
  imports Join Transitions Progress
begin

text \<open>
  Liveness of every program, with subflows in subflows, conditions and loops. The pool leaves a task
  waiting only while all of its workers are inside tasks; a goroutine sleeps in the loop of a graph
  only while nodes of the graph are in flight and none of them is queued; and the nesting of subflows
  is finite. So a program with fewer subflows than workers, in which no graph is run by two goroutines
  at once and no function panics, cannot come to a stop before everything it has scheduled has ended.
\<close>

section \<open>Transitions and sums over the goroutines\<close>

lemma acts_total:
  assumes "acts s i p' t es sg" "i < length (threads s)" "wait_blind f"
  obtains k where "total f t + f (threads s ! i) = total f s + f p' + k * (f WPoll :: nat)"
proof -
  obtain ps where ps: "set ps \<subseteq> {WPoll}" "threads t = (woken sg (threads s))[i := p'] @ ps" using assms(1) unfolding acts_def by blast
  have "sum_list (map f ps) = length ps * f WPoll" using ps(1) by (induction ps) auto
  moreover have "sum_list (map f ((woken sg (threads s))[i := p'])) + f (threads s ! i) = total f s + f p'"
    using assms(2) by (cases sg) (simp_all add: total_def sum_goto_signal [OF assms(3)] sum_list_update)
  ultimately show thesis using that [of "length ps"] ps(2) by (simp add: total_def)
qed

lemma acts_total_0:
  "acts s i p' t es sg \<Longrightarrow> i < length (threads s) \<Longrightarrow> wait_blind f \<Longrightarrow> f WPoll = 0 \<Longrightarrow>
    total f t + f (threads s ! i) = total f s + (f p' :: nat)"
  by (metis acts_total add.right_neutral mult_0_right)

lemma acts_other:
  assumes "acts s i p' t es sg" "p \<in> set (threads t)"
  shows "p = p' \<or> p = WPoll \<or> (\<exists>j < length (threads s). j \<noteq> i \<and> p = threads s ! j \<and> (\<forall>g k. p = LWait g k \<longrightarrow> sg = Some g \<longrightarrow>
      (\<exists>l < length (threads s). l \<noteq> j \<and> (\<exists>k'. threads s ! l = LWait g k')))) \<or>
    (\<exists>j < length (threads s). \<exists>g k. j \<noteq> i \<and> p = LCheck g k \<and> threads s ! j = LWait g k)"
proof -
  have sig: "signal g ps ! j = ps ! j \<and> (\<forall>k. ps ! j = LWait g k \<longrightarrow> (\<exists>l < j. \<exists>k'. ps ! l = LWait g k')) \<or>
      (\<exists>k. ps ! j = LWait g k \<and> signal g ps ! j = LCheck g k)" if "j < length ps" for g ps j
    using that
  proof (induction g ps arbitrary: j rule: signal.induct)
    case (2 g g' k ps)
    show ?case
    proof (cases j)
      case 0
      then show ?thesis by auto
    next
      case (Suc l)
      show ?thesis
      proof (cases "g' = g")
        case True
        with Suc show ?thesis by auto
      next
        case False
        from 2(1) [OF False, of l] 2(2) Suc False show ?thesis by fastforce
      qed
    qed
  next
    case (1 g)
    then show ?case by simp
  qed (case_tac j; fastforce)+
  obtain ps where ps: "set ps \<subseteq> {WPoll}" "threads t = (woken sg (threads s))[i := p'] @ ps" using assms(1) unfolding acts_def by blast
  have len: "length (woken sg (threads s)) = length (threads s)" by (cases sg) auto
  from assms(2) ps consider "p \<in> set ((woken sg (threads s))[i := p'])" | "p = WPoll" by auto
  then show ?thesis
  proof cases
    case 1
    then obtain j where j: "j < length (threads s)" "p = (woken sg (threads s))[i := p'] ! j" by (auto simp: in_set_conv_nth len)
    show ?thesis
    proof (cases "j = i")
      case True
      with j len show ?thesis by simp
    next
      case False
      then have p: "p = woken sg (threads s) ! j" using j(2) by simp
      show ?thesis
      proof (cases sg)
        case None
        with p j(1) False show ?thesis by auto
      next
        case (Some g)
        from sig [OF j(1), of g] p Some j(1) False show ?thesis
          by (metis (no_types, lifting) less_trans nat_neq_iff option.inject pc.inject(7) woken_simps(2))
      qed
    qed
  qed simp
qed

section \<open>The pool starves nobody while a worker is free\<close>

definition well_served :: "sys \<Rightarrow> bool" where
  "well_served s \<longleftrightarrow>
     (pool_items (epool s) \<noteq> [] \<and> coworker (epool s) < concurrency s \<longrightarrow> length (pool_items (epool s)) \<le> total polling s)"

lemma step_served:
  assumes w: "well_served s" and a: "accounts s" "accounts t" and c: "0 < concurrency s" and st: "step s (i, ch, now) = Some t"
    and nc: "\<not> crashed t"
  shows "well_served t"
proof -
  have i: "i < length (threads s)" and p: "pc_step s i (threads s ! i) ch now = Some t" using st by (auto split: if_splits)
  obtain p' es sg where ac: "acts s i p' t es sg" by (rule step_acts [OF a(1) st])
  then have mv: "act s (threads s ! i) p' (heap t) (items (wq t)) (pool_items (epool t)) es sg" by (simp add: acts_def)
  have cc: "concurrency t = concurrency s" by (rule step_concurrency [OF st])
  have no: "\<not> is_crashed p'"
  proof -
    have "length (threads s) \<le> length (threads t)" using ac by (cases sg) (auto simp: acts_def)
    then have "p' \<in> set (threads t)" using acts_at [OF ac i] i nth_mem [of i "threads t"] by auto
    with nc show ?thesis by (auto simp: crashed_def list_ex_iff)
  qed
  obtain k where tp: "total polling t + polling (threads s ! i) = total polling s + polling p' + k * polling WPoll"
    by (rule acts_total [OF ac i, of polling]) simp
  obtain l where ti: "total in_closure t + in_closure (threads s ! i) = total in_closure s + in_closure p' + l * in_closure WPoll"
    by (rule acts_total [OF ac i, of in_closure]) simp
  have cw: "coworker (epool s) = total in_closure s + total polling s" "coworker (epool t) = total in_closure t + total polling t"
    using a by (simp_all add: accounts_def)
  show ?thesis
  proof (cases "\<exists>n g k. threads s ! i = LInvoke n g k")
    case True
    then obtain n g k where li: "threads s ! i = LInvoke n g k" by blast
    have po: "pool_ok (epool s)" "pcap (epool s) = concurrency s" using a(1) by (simp_all add: accounts_def)
    show ?thesis
    proof (cases "make_closure (heap s) n (kont_span k)")
      case None
      with li p have "t = goto i (Crashed (PanicMsg ''unsupported node'')) s" by (simp add: linvoke_step_def)
      then have "epool t = epool s" "total polling s \<le> total polling t" using total_goto [OF i, of polling] li by auto
      with w cc show ?thesis by (auto simp: well_served_def)
    next
      case (Some d)
      obtain po' b where pb: "CtxGo d (epool s) = (po', b)" by fastforce
      have t: "t = spawn b (goto i (LCheck g k) (s\<lparr>epool := po'\<rparr>))" using li p Some pb by (simp add: linvoke_step_def)
      note f = cp.submit_queued [OF po(1), of d] cp.submit_workers [OF po(1), of d] cp.submit_bound [OF po(1), of d]
      have sp: "b = (coworker (epool s) = 0 \<or> coworker (epool s) < pcap (epool s))"
        using cp.submit_spawn [OF po(1), of d] pb by simp
      have tot: "total polling t = total polling s + of_bool b"
      proof -
        have "total polling (goto i (LCheck g k) (s\<lparr>epool := po'\<rparr>)) = total polling s"
          using total_goto [OF i, of polling "LCheck g k"] li by (simp add: total_def goto_def)
        then show ?thesis using t by (simp add: total_def)
      qed
      show ?thesis
      proof (cases b)
        case True
        then have "coworker (epool s) < concurrency s" using sp po(2) c by auto
        with w tot True f pb t cc cw show ?thesis by (cases "pool_items (epool s) = []") (auto simp: well_served_def)
      next
        case False
        then have "\<not> coworker (epool s) < concurrency s" using sp po(2) by auto
        then show ?thesis using False f pb t cc by (auto simp: well_served_def)
      qed
    qed
  next
    case False
    from mv show ?thesis
    proof cases
      case (a_take d)
      with w tp ti cw cc show ?thesis by (cases "pool_items (epool t) = []") (auto simp: well_served_def)
    next
      case (a_invoke n k' d g)
      with False show ?thesis by blast
    qed (use w tp ti cw cc no in \<open>auto simp: well_served_def polling_def split: if_splits\<close>)
  qed
qed


lemma reach_served: "reach s0 s \<Longrightarrow> fresh_executor s0 \<Longrightarrow> crashed s \<or> well_served s"
proof (induction rule: reach.induct)
  case start
  then show ?case by (auto simp: fresh_executor_def NewExecutor_def NewCopool_def comp_def well_served_def NewQueue_inv split: if_splits)
next
  case (step s e t)
  obtain i ch now where e: "e = (i, ch, now)" by (cases e)
  have nc: "\<not> crashed s" using step.hyps(2) crashed_stuck by fastforce
  have "reach s0 t" by (rule reach.step [OF step.hyps])
  then have "crashed t \<or> accounts t" using reach_accounts step.prems by blast
  with nc step_served [OF _ _ _ reach_concurrency [OF step.hyps(1) step.prems] step.hyps(2) [unfolded e]]
    step.IH [OF step.prems] reach_accounts [OF step.hyps(1) step.prems] show ?case by blast
qed

fun in_subflow :: "pc \<Rightarrow> bool" where
  "in_subflow (LWait g (GSub c sp)) = True"
| "in_subflow _ = False"

text \<open>When nothing can move, a task is left in the pool only if as many workers as the pool may have
  sleep in the loops of subflows.\<close>

lemma stuck_served:
  assumes "fresh_executor s0" "reach s0 s" "stuck s" "\<not> crashed s" "pool_items (epool s) \<noteq> []"
  shows "concurrency s \<le> length (filter in_subflow (threads s))"
proof -
  have a: "accounts s" and w: "well_served s" using reach_accounts [OF assms(2,1)] reach_served [OF assms(2,1)] assms(4) by blast+
  have r: "p = Client [] \<or> (\<exists>cs. p = Client (Wait # cs)) \<or> (\<exists>g k. p = LWait g k) \<or> p = WGone" if "p \<in> set (threads s)" for p
    using stuck_pc [OF assms(3,4) that] by blast
  have "total polling s = 0" unfolding total_0 using r by (auto simp: polling_def)
  moreover have "0 < length (pool_items (epool s))" by (rule length_greater_0_conv [THEN iffD2, OF assms(5)])
  ultimately have "\<not> length (pool_items (epool s)) \<le> total polling s" by linarith
  with w assms(5) have "\<not> coworker (epool s) < concurrency s" unfolding well_served_def by blast
  with \<open>total polling s = 0\<close> a have c: "concurrency s \<le> total in_closure s" by (simp add: accounts_def)
  have le: "in_closure p \<le> of_bool (in_subflow p)" if "p \<in> set (threads s)" for p
    using r [OF that]
  proof (elim disjE exE)
    fix g k
    assume "p = LWait g k"
    then show ?thesis by (cases k) auto
  qed auto
  have "total in_closure s \<le> sum_list (map (\<lambda>p. of_bool (in_subflow p)) (threads s))"
    unfolding total_def by (rule sum_list_mono) (rule le)
  also have "\<dots> = length (filter in_subflow (threads s))"
  proof -
    have "sum_list (map (\<lambda>p. of_bool (in_subflow p)) ps) = length (filter in_subflow ps)" for ps by (induction ps) auto
    then show ?thesis .
  qed
  finally show ?thesis using c by simp
qed


section \<open>Graphs inside graphs\<close>

text \<open>A subflow's graph is made after the graph its node is in; a node knows its graph.\<close>

definition layered :: "heap \<Rightarrow> bool" where
  "layered h \<longleftrightarrow> grounded h \<and> (\<forall>n g. ptr (hnode h n) = PSubflow g \<longrightarrow> ngraph (hnode h n) < g) \<and>
     (\<forall>g. \<forall>n \<in> set (gnodes (hgraph h g)). ngraph (hnode h n) = g \<and> n < nnext h)"

text \<open>What every step keeps of the nodes.\<close>

definition builds_on :: "heap \<Rightarrow> heap \<Rightarrow> bool" where
  "builds_on h h' \<longleftrightarrow> nnext h \<le> nnext h' \<and> gnext h \<le> gnext h' \<and> (layered h \<longrightarrow> layered h') \<and>
     (\<forall>n. allocated h n \<longrightarrow> ngraph (hnode h' n) = ngraph (hnode h n) \<and>
        (\<forall>g. ptr (hnode h n) = PSubflow g \<longrightarrow> ptr (hnode h' n) = PSubflow g))"

lemma builds_on_refl [simp]: "builds_on h h"
  by (simp add: builds_on_def)

lemma builds_on_trans: "builds_on h1 h2 \<Longrightarrow> builds_on h2 h3 \<Longrightarrow> builds_on h1 h3"
  unfolding builds_on_def by (metis (no_types, lifting) allocated_mono le_trans)

text \<open>Operations that leave the graphs and the payloads of the nodes alone.\<close>

definition same_graphs :: "heap \<Rightarrow> heap \<Rightarrow> bool" where
  "same_graphs h h' \<longleftrightarrow> nnext h' = nnext h \<and> gnext h' = gnext h \<and> (\<forall>g. gnodes (hgraph h' g) = gnodes (hgraph h g)) \<and>
     (\<forall>n. ngraph (hnode h' n) = ngraph (hnode h n) \<and> ptr (hnode h' n) = ptr (hnode h n))"

lemma same_graphs_builds: "same_graphs h h' \<Longrightarrow> builds_on h h'"
  by (auto simp: same_graphs_def builds_on_def layered_def grounded_def)

lemma same_graphs_refl [simp]: "same_graphs h h"
  by (simp add: same_graphs_def)

lemma same_graphs_trans: "same_graphs h1 h2 \<Longrightarrow> same_graphs h2 h3 \<Longrightarrow> same_graphs h1 h3"
  by (simp add: same_graphs_def)

lemma same_graphs_ops [simp]:
  "same_graphs h (set_state st n h)" "same_graphs h (node_setup n h)" "same_graphs h (drop_one n v h)" "same_graphs h (graph_cancel g h)"
  "same_graphs h (upd_graph g (\<lambda>x. x\<lparr>entries := es\<rparr>) h)" "same_graphs h (upd_graph g (\<lambda>x. x\<lparr>instantiated := b\<rparr>) h)"
  "same_graphs h (h\<lparr>hflow := f\<rparr>)" "same_graphs h (precede n v h)" "same_graphs h (Task_Priority n p h)"
  "same_graphs h (graph_ref g h)" "same_graphs h (graph_deref g h)"
  by (auto simp: same_graphs_def set_state_def node_setup_eq drop_one_def node_deref_def graph_cancel_def Task_Priority_def
      graph_ref_def graph_deref_def)

lemma same_graphs_setup: "same_graphs h (graph_setup g h)"
proof -
  have one: "same_graphs h (setup_one g n h)" for h n
    by (auto simp: setup_one_def Let_def same_graphs_def node_setup_eq)
  have "same_graphs h (fold (setup_one g) ns h)" for ns h
    by (induction ns arbitrary: h) (use one same_graphs_trans in \<open>simp, fastforce\<close>)
  moreover have "same_graphs h (graph_reset g h)"
  proof -
    have "nnext (graph_reset g h) = nnext h \<and> gnext (graph_reset g h) = gnext h" by (simp add: graph_reset_def fold_upd_node)
    then show ?thesis by (auto simp: same_graphs_def graph_reset_eq)
  qed
  ultimately show ?thesis unfolding graph_setup_def Let_def using same_graphs_trans by blast
qed

lemma builds_on_branch: "builds_on h (upd_node n (\<lambda>x. x\<lparr>ptr := branch_put v (ptr x)\<rparr>) h)"
proof -
  have "ptr (hnode (upd_node n (\<lambda>x. x\<lparr>ptr := branch_put v (ptr x)\<rparr>) h) m) = PSubflow g \<longleftrightarrow> ptr (hnode h m) = PSubflow g" for m g
    by (auto simp: branch_put_def split: node_ptr.splits)
  then show ?thesis by (auto simp: builds_on_def layered_def grounded_def)
qed

lemma builds_on_fold: "(\<And>v h. builds_on h (f v h)) \<Longrightarrow> builds_on h (fold f vs h)"
proof (induction vs arbitrary: h)
  case (Cons v vs)
  then show ?case using builds_on_trans [of h "f v h" "fold f vs (f v h)"] by simp
qed simp

lemma subflow_call_builds:
  assumes "g < gnext h"
  shows "builds_on h (subflow_call g c h)"
proof (cases c)
  case (BPrecede u ts)
  have p: "builds_on h' (fold (precede u) ts h')" for h' by (rule builds_on_fold) (simp add: same_graphs_builds)
  have q: "builds_on h (fold (\<lambda>v. upd_node u (\<lambda>x. x\<lparr>ptr := branch_put v (ptr x)\<rparr>)) ts h)" by (rule builds_on_fold) (rule builds_on_branch)
  have "builds_on h (Task_Precede u ts h)"
    unfolding Task_Precede_def Let_def by (cases "ptr (hnode h u)") (simp_all add: p builds_on_trans [OF q p])
  with BPrecede show ?thesis by simp
next
  case (BSucceed u ts)
  then show ?thesis by (simp add: Task_Succeed_def builds_on_fold same_graphs_builds)
next
  case (BTask name ns)
  with assms show ?thesis
    by (fastforce simp: builds_on_def layered_def grounded_def allocated_def case_prod_unfold Let_def NewStatic_def newNode_def
        graph_push_def nil_node_def)
next
  case (BCondition name ns)
  with assms show ?thesis
    by (fastforce simp: builds_on_def layered_def grounded_def allocated_def case_prod_unfold Let_def NewCondition_def newNode_def
        graph_push_def nil_node_def)
next
  case (BSubflow name ns)
  with assms show ?thesis
    by (auto simp: builds_on_def layered_def grounded_def allocated_def case_prod_unfold Let_def NewSubflow_def newNode_def newGraph_def
        graph_push_def nil_node_def nil_graph_def less_SucI split: if_splits)
next
  case (BPriority u p)
  then show ?thesis by (simp add: same_graphs_builds)
qed

lemma subflow_calls_build: "g < gnext h \<Longrightarrow> builds_on h (fold (subflow_call g) cs h)"
proof (induction cs arbitrary: h)
  case (Cons c cs)
  have "builds_on h (subflow_call g c h)" using subflow_call_builds Cons.prems by blast
  moreover from this have "g < gnext (subflow_call g c h)" using Cons.prems by (simp add: builds_on_def)
  ultimately show ?case using Cons.IH builds_on_trans by (metis fold_simps(2))
qed simp

lemma subflow_call_canceled: "canceled (hgraph (subflow_call g c h) g') \<Longrightarrow> canceled (hgraph h g')"
proof -
  have e: "hgraph (fold (precede u) ts h') = hgraph h'" "hgraph (fold (\<lambda>v. precede v u) ts h') = hgraph h'"
    "hgraph (fold (\<lambda>v. upd_node u (\<lambda>x. x\<lparr>ptr := branch_put v (ptr x)\<rparr>)) ts h') = hgraph h'" for u ts h'
    by (induction ts arbitrary: h') auto
  show "canceled (hgraph (subflow_call g c h) g') \<Longrightarrow> canceled (hgraph h g')"
    by (cases c) (auto simp: Task_Precede_def Task_Succeed_def Task_Priority_def e Let_def case_prod_unfold NewStatic_def NewSubflow_def
        NewCondition_def newNode_def newGraph_def graph_push_def nil_graph_def split: node_ptr.splits if_splits)
qed

lemma built_layered: "built h \<Longrightarrow> layered h \<and> (\<forall>g. \<not> canceled (hgraph h g))"
proof (induction rule: built.induct)
  case empty
  show ?case by (simp add: layered_def grounded_def empty_heap_def nil_node_def nil_graph_def)
next
  case (flow h name t h')
  then have "h' = snd (NewTaskFlow name h)" by simp
  with flow.IH show ?case by (auto simp: layered_def grounded_def NewTaskFlow_def newGraph_def Let_def nil_graph_def less_SucI)
next
  case (reset h t)
  then show ?case by (simp add: layered_def grounded_def TaskFlow_Reset_def)
next
  case (tf_call h t c h')
  then have "h' = subflow_call (graph (hflow h t)) c h" using taskflow_call_Inr [OF tf_call.hyps(5)] by blast
  with subflow_call_builds [OF tf_call.hyps(3), of c] tf_call.IH show ?case
    by (auto simp: builds_on_def dest: subflow_call_canceled)
next
  case (sf_call h g c)
  with subflow_call_builds [OF sf_call.hyps(3), of c] sf_call.IH show ?case
    by (auto simp: builds_on_def dest: subflow_call_canceled)
qed


section \<open>Runs in which no graph is run twice at once\<close>

text \<open>Whether a goroutine runs the loop of a graph, from its first schedule until the loop has ended.\<close>

fun sk_loops :: "gid \<Rightarrow> skont \<Rightarrow> nat" where
  "sk_loops g (KLoop g' k) = of_bool (g' = g)"
| "sk_loops g _ = 0"

fun loops :: "gid \<Rightarrow> pc \<Rightarrow> nat" where
  "loops g (Schedule ns k) = sk_loops g k"
| "loops g (PRef n ns k) = sk_loops g k"
| "loops g (PPut n ns k) = sk_loops g k"
| "loops g (LCheck g' k) = of_bool (g' = g)"
| "loops g (LWait g' k) = of_bool (g' = g)"
| "loops g (LPop g' k) = of_bool (g' = g)"
| "loops g (LInvoke n g' k) = of_bool (g' = g)"
| "loops g _ = 0"

lemma wait_blind_loops [simp]: "wait_blind (loops g)"
  by (simp add: wait_blind_def)

lemma loops_after [simp]: "loops g (after_schedule k) = sk_loops g k"
  by (cases k) auto

text \<open>Edges and branches stay inside a graph.\<close>

definition edges_inside :: "heap \<Rightarrow> bool" where
  "edges_inside h \<longleftrightarrow> (\<forall>n. (\<forall>v \<in> set (successors (hnode h n)). ngraph (hnode h v) = ngraph (hnode h n)) \<and>
     (\<forall>m. ptr (hnode h n) = PCondition m \<longrightarrow> (\<forall>v \<in> snd ` set m. ngraph (hnode h v) = ngraph (hnode h n))))"

lemma same_graphs_types: "same_graphs h h' \<Longrightarrow> same_types h h' \<Longrightarrow> edges_inside h \<Longrightarrow> edges_inside h'"
  by (simp add: same_graphs_def same_types_def edges_inside_def)

definition small :: "sys \<Rightarrow> bool" where
  "small s \<longleftrightarrow> (\<forall>g. inflight g s < 2 ^ 32)"

text \<open>The function of a subflow links only tasks of the same graph.\<close>

fun links_inside :: "heap \<Rightarrow> build \<Rightarrow> bool" where
  "links_inside h (BPrecede u ts) = list_all (\<lambda>v. ngraph (hnode h v) = ngraph (hnode h u)) ts"
| "links_inside h (BSucceed u ts) = list_all (\<lambda>v. ngraph (hnode h v) = ngraph (hnode h u)) ts"
| "links_inside h _ = True"

fun builds_inside :: "heap \<Rightarrow> gid \<Rightarrow> build list \<Rightarrow> bool" where
  "builds_inside h g [] = True"
| "builds_inside h g (c # cs) = (links_inside h c \<and> builds_inside (subflow_call g c h) g cs)"

fun instantiates_inside :: "sys \<Rightarrow> pc \<Rightarrow> choice \<Rightarrow> bool" where
  "instantiates_inside s (Handle (SubflowC n p g) sp) (Instantiate cs ok) = builds_inside (heap s) g cs"
| "instantiates_inside s p ch = True"

text \<open>The nodes a goroutine carries or is inside of, the queues included.\<close>

definition load :: "sys \<Rightarrow> nat" where
  "load s = length (items (wq s)) + length (pool_items (epool s)) + total (\<lambda>p. length (pc_carried p) + length (pc_closures p)) s"

lemma inflight_load: "inflight g s \<le> load s"
proof -
  have n: "nodes_of h g ns \<le> length ns" for h ns by (simp add: nodes_of_def)
  have "pc_refs (heap s) g p \<le> length (pc_carried p) + length (pc_closures p)" for p
    using n [of "heap s" "pc_carried p @ map cnode (pc_closures p)"] by (simp add: pc_refs_def)
  then have "total (pc_refs (heap s) g) s \<le> total (\<lambda>p. length (pc_carried p) + length (pc_closures p)) s"
    unfolding total_def by (intro sum_list_mono) simp
  moreover have "queued (heap s) g s \<le> length (items (wq s)) + length (pool_items (epool s))"
    unfolding queued_def by (rule order_trans [OF n]) simp
  ultimately show ?thesis by (simp add: inflight_def load_def)
qed

text \<open>Runs in which a graph is set up only while no goroutine runs its loop and no node of it is in flight,
  subflow functions use the API within their graph, and fewer than \<open>2^32\<close> nodes are in flight.\<close>

inductive tidy :: "sys \<Rightarrow> sys \<Rightarrow> bool" for s0 where
  start: "tidy s0 s0"
| step: "tidy s0 s \<Longrightarrow> event_ok s (i, ch, now) \<Longrightarrow> instantiates_inside s (threads s ! i) ch \<Longrightarrow> step s (i, ch, now) = Some t \<Longrightarrow>
    (\<And>g k. threads s ! i = GSetup g k \<Longrightarrow> total (loops g) s = 0 \<and> inflight g s = 0) \<Longrightarrow> load t < 2 ^ 32 \<Longrightarrow> tidy s0 t"

lemma tidy_reach_ok: "tidy s0 s \<Longrightarrow> reach_ok s0 s"
  by (induction rule: tidy.induct) (auto intro: reach_ok.intros)

lemma precede_inside: "edges_inside h \<Longrightarrow> ngraph (hnode h v) = ngraph (hnode h u) \<Longrightarrow> edges_inside (precede u v h)"
  by (auto simp: edges_inside_def)

lemma fold_inside:
  "(\<And>v h. edges_inside h \<Longrightarrow> P v (\<lambda>n. ngraph (hnode h n)) \<Longrightarrow> edges_inside (f v h) \<and> (\<lambda>n. ngraph (hnode (f v h) n)) = (\<lambda>n. ngraph (hnode h n))) \<Longrightarrow>
    edges_inside h \<Longrightarrow> list_all (\<lambda>v. P v (\<lambda>n. ngraph (hnode h n))) vs \<Longrightarrow>
    edges_inside (fold f vs h) \<and> (\<lambda>n. ngraph (hnode (fold f vs h) n)) = (\<lambda>n. ngraph (hnode h n))"
proof (induction vs arbitrary: h)
  case (Cons v vs)
  have "edges_inside (f v h)" "(\<lambda>n. ngraph (hnode (f v h) n)) = (\<lambda>n. ngraph (hnode h n))" using Cons.prems by auto
  with Cons.IH [of "f v h"] Cons.prems show ?case by auto
qed simp

lemma branch_inside:
  assumes "edges_inside h" "ngraph (hnode h v) = ngraph (hnode h u)"
  shows "edges_inside (upd_node u (\<lambda>x. x\<lparr>ptr := branch_put v (ptr x)\<rparr>) h)"
proof -
  let ?h = "upd_node u (\<lambda>x. x\<lparr>ptr := branch_put v (ptr x)\<rparr>) h"
  have same: "ngraph (hnode ?h n) = ngraph (hnode h n)" "successors (hnode ?h n) = successors (hnode h n)" for n by simp_all
  have old: "ngraph (hnode h w) = ngraph (hnode h n)" if "ptr (hnode h n) = PCondition m" "w \<in> snd ` set m" for n m w
    using assms(1) that unfolding edges_inside_def by blast
  have br: "ngraph (hnode h w) = ngraph (hnode h n)" if "ptr (hnode ?h n) = PCondition m" "w \<in> snd ` set m" for n m w
  proof (cases "n = u")
    case True
    with that(1) obtain m0 where m0: "ptr (hnode h u) = PCondition m0" "m = AList.update (of_nat (length m0)) v m0"
      by (auto simp: branch_put_def split: node_ptr.splits)
    then have "w = v \<or> w \<in> snd ` set m0" using that(2) update_values [of "of_nat (length m0)" v m0] by auto
    with old [OF m0(1)] assms(2) True show ?thesis by blast
  next
    case False
    with old [of n m w] that show ?thesis by simp
  qed
  show ?thesis using assms(1) br unfolding edges_inside_def same by blast
qed

lemma subflow_call_inside:
  assumes t: "typed h" and e: "edges_inside h" and l: "links_inside h c"
  shows "edges_inside (subflow_call g c h)"
proof (cases c)
  case (BPrecede u ts)
  let ?P = "\<lambda>v ng. ng v = (ng u :: gid)"
  let ?h = "fold (\<lambda>v. upd_node u (\<lambda>x. x\<lparr>ptr := branch_put v (ptr x)\<rparr>)) ts h"
  have l': "list_all (\<lambda>v. ?P v (\<lambda>n. ngraph (hnode h n))) ts" using l BPrecede by simp
  have b: "edges_inside ?h \<and> (\<lambda>n. ngraph (hnode ?h n)) = (\<lambda>n. ngraph (hnode h n))"
    by (rule fold_inside [where P = ?P, OF _ e l']) (simp add: branch_inside fun_eq_iff)
  have p: "edges_inside (fold (precede u) ts h')" if "edges_inside h'" "(\<lambda>n. ngraph (hnode h' n)) = (\<lambda>n. ngraph (hnode h n))" for h'
    using fold_inside [where P = ?P and f = "precede u", OF _ that(1), of ts] l' that(2) precede_inside by (simp add: fun_eq_iff)
  have "edges_inside (Task_Precede u ts h)"
    unfolding Task_Precede_def Let_def using b e p by (cases "ptr (hnode h u)") simp_all
  with BPrecede show ?thesis by simp
next
  case (BSucceed u ts)
  have "list_all (\<lambda>v. ngraph (hnode h v) = ngraph (hnode h u)) ts" using l BSucceed by simp
  then have "edges_inside (fold (\<lambda>v. precede v u) ts h)"
    using fold_inside [where P = "\<lambda>v ng. ng v = (ng u :: gid)" and f = "\<lambda>v. precede v u", OF _ e, of ts] precede_inside by simp
  with BSucceed show ?thesis by (simp add: Task_Succeed_def)
next
  case (BPriority u p)
  with same_graphs_types [OF same_graphs_ops(9) _ e, of u p] show ?thesis by (simp add: Task_Priority_def)
qed (use e typedD(3,5) [OF t] in \<open>fastforce simp: edges_inside_def case_prod_unfold Let_def NewStatic_def NewCondition_def NewSubflow_def
    newNode_def newGraph_def graph_push_def nil_node_def allocated_def\<close>)+

lemma subflow_calls_inside:
  "typed h \<Longrightarrow> builds_ok h g cs \<Longrightarrow> builds_inside h g cs \<Longrightarrow> edges_inside h \<Longrightarrow> edges_inside (fold (subflow_call g) cs h)"
proof (induction cs arbitrary: h)
  case (Cons c cs)
  have "typed (subflow_call g c h)" using subflow_call_typed Cons.prems(1,2) by auto
  with Cons.IH [of "subflow_call g c h"] Cons.prems subflow_call_inside [OF Cons.prems(1,4)] show ?case by auto
qed simp

section \<open>What each goroutine knows\<close>

fun sk_graph :: "heap \<Rightarrow> skont \<Rightarrow> gid" where
  "sk_graph h (KLoop g k) = g"
| "sk_graph h (KSucc c) = ngraph (hnode h (cnode c))"
| "sk_graph h (KCond c sp) = ngraph (hnode h (cnode c))"

definition all_in :: "heap \<Rightarrow> gid \<Rightarrow> nid list \<Rightarrow> bool" where
  "all_in h g ns \<longleftrightarrow> (\<forall>n \<in> set ns. ngraph (hnode h n) = g)"

fun stays :: "heap \<Rightarrow> pc \<Rightarrow> bool" where
  "stays h (Schedule ns k) = all_in h (sk_graph h k) ns"
| "stays h (PRef n ns k) = all_in h (sk_graph h k) (n # ns)"
| "stays h (PPut n ns k) = all_in h (sk_graph h k) (n # ns)"
| "stays h (Succs c vs cs) = all_in h (ngraph (hnode h (cnode c))) (vs @ cs)"
| "stays h (NSetup c cs) = all_in h (ngraph (hnode h (cnode c))) cs"
| "stays h p = True"

fun gk_ok :: "gid \<Rightarrow> gkont \<Rightarrow> bool" where
  "gk_ok g (GMain cs) = True"
| "gk_ok g (GSub c sp) = (\<exists>n p. c = SubflowC n p g)"

fun sk_ok :: "skont \<Rightarrow> bool" where
  "sk_ok (KLoop g k) = gk_ok g k"
| "sk_ok _ = True"

fun kont_ok :: "pc \<Rightarrow> bool" where
  "kont_ok (GSetup g k) = gk_ok g k"
| "kont_ok (Schedule ns k) = sk_ok k"
| "kont_ok (PRef n ns k) = sk_ok k"
| "kont_ok (PPut n ns k) = sk_ok k"
| "kont_ok (LCheck g k) = gk_ok g k"
| "kont_ok (LWait g k) = gk_ok g k"
| "kont_ok (LPop g k) = gk_ok g k"
| "kont_ok (LInvoke n g k) = gk_ok g k"
| "kont_ok (LLeave g k) = gk_ok g k"
| "kont_ok p = True"

fun sub_ok :: "heap \<Rightarrow> closure \<Rightarrow> bool" where
  "sub_ok h (SubflowC n p g) = (ptr (hnode h n) = PSubflow g)"
| "sub_ok h c = True"

definition pc_fits :: "heap \<Rightarrow> pc \<Rightarrow> bool" where
  "pc_fits h p \<longleftrightarrow> stays h p \<and> kont_ok p \<and> list_all (sub_ok h) (pc_closures p)"

definition fits :: "sys \<Rightarrow> bool" where
  "fits s \<longleftrightarrow> layered (heap s) \<and> (\<forall>p \<in> set (threads s). pc_fits (heap s) p) \<and> list_all (sub_ok (heap s)) (pool_items (epool s))"

lemma all_in_builds: "builds_on h h' \<Longrightarrow> list_all (allocated h) ns \<Longrightarrow> all_in h g ns \<Longrightarrow> all_in h' g ns"
  by (simp add: builds_on_def all_in_def list_all_iff)

lemma sub_ok_builds: "builds_on h h' \<Longrightarrow> cl_ok h c \<Longrightarrow> sub_ok h c \<Longrightarrow> sub_ok h' c"
  by (cases c) (auto simp: builds_on_def)

lemma closure_graph: "builds_on h h' \<Longrightarrow> cl_ok h c \<Longrightarrow> ngraph (hnode h' (cnode c)) = ngraph (hnode h (cnode c))"
  using cl_ok_allocated [of h c] by (simp add: builds_on_def)

lemma pc_fits_builds:
  assumes b: "builds_on h h'" and t: "pc_typed h p" and c: "list_all (cl_ok h) (pc_closures p)" and f: "pc_fits h p"
  shows "pc_fits h' p"
proof -
  have k: "sk_graph h' k = sk_graph h k" if "list_all (cl_ok h) (sk_closures k)" for k
    using that closure_graph [OF b] by (cases k) auto
  have "stays h' p" using f t c all_in_builds [OF b] k closure_graph [OF b] by (cases p) (auto simp: pc_fits_def)
  moreover have "list_all (sub_ok h') (pc_closures p)"
    using f c sub_ok_builds [OF b] unfolding pc_fits_def list_all_iff by blast
  ultimately show ?thesis using f by (simp add: pc_fits_def)
qed

lemma pc_fits_same:
  assumes "same_graphs h h'"
  shows "pc_fits h' p = pc_fits h p"
proof -
  have "sk_graph h' k = sk_graph h k" for k using assms by (cases k) (auto simp: same_graphs_def)
  moreover have "all_in h' = all_in h" using assms by (simp add: same_graphs_def all_in_def fun_eq_iff)
  moreover have "ngraph (hnode h' n) = ngraph (hnode h n)" for n using assms by (simp add: same_graphs_def)
  ultimately have "stays h' p = stays h p" by (cases p) simp_all
  moreover have "sub_ok h' c = sub_ok h c" for c using assms by (cases c) (auto simp: same_graphs_def)
  then have "sub_ok h' = sub_ok h" by (rule ext)
  ultimately show ?thesis by (simp add: pc_fits_def)
qed

text \<open>A transition leaves the graphs of the nodes alone, but for the building calls of a subflow.\<close>

lemma act_same_graphs:
  assumes "act s p p' h q l es sg"
  shows "(same_graphs (heap s) h \<and> same_types (heap s) h) \<or>
    (\<exists>n sp g d ok. p = Handle (SubflowC n sp g) d \<and> p' = Defer (SubflowC n sp g) d ok)"
  using assms
proof cases
  case (a_gsetup g zs k)
  then show ?thesis
    using same_graphs_trans [OF same_graphs_setup [of "heap s" g] same_graphs_ops(5)]
      same_types_trans [OF graph_setup_types(1) [of "heap s" g] same_types_ops(7)] by simp
next
  case (a_defer_sub n q g sp ok)
  then show ?thesis
    using same_graphs_trans [OF same_graphs_ops(4) same_graphs_ops(4), of "heap s" g "graph_of s n"]
      same_types_trans [OF same_types_ops(6) same_types_ops(6), of "heap s" g "graph_of s n"] by simp
qed auto

text \<open>Edges and branches stay inside their graph.\<close>

lemma step_inside:
  assumes st: "step s (i, ch, now) = Some t" and e: "event_ok s (i, ch, now)" "instantiates_inside s (threads s ! i) ch"
    and wt: "well_typed s" and ac: "acts s i p' t es sg" and inside: "edges_inside (heap s)"
  shows "edges_inside (heap t)"
proof -
  have i: "i < length (threads s)" and p: "pc_step s i (threads s ! i) ch now = Some t" using st by (auto split: if_splits)
  from ac have "act s (threads s ! i) p' (heap t) (items (wq t)) (pool_items (epool t)) es sg" by (simp add: acts_def)
  from act_same_graphs [OF this] show ?thesis
  proof (elim disjE exE conjE)
    assume "same_graphs (heap s) (heap t)" "same_types (heap s) (heap t)"
    from same_graphs_types [OF this inside] show ?thesis .
  next
    fix n q g d ok
    assume h: "threads s ! i = Handle (SubflowC n q g) d"
    have hs: "handle_step s i (SubflowC n q g) d ch = Some t" using p h by simp
    have ty: "typed (heap s)" using wt by (simp add: well_typed_def)
    have st: "edges_inside h' \<Longrightarrow> edges_inside (set_state k m h')"
      "edges_inside h' \<Longrightarrow> edges_inside (upd_graph g (\<lambda>x. x\<lparr>instantiated := True\<rparr>) h')" for k m h'
      by (rule same_graphs_types; simp)+
    show ?thesis
    proof (cases "instantiated (hgraph (heap s) g)")
      case True
      with hs inside st show ?thesis by (auto split: choice.splits)
    next
      case False
      with hs obtain cs b where ch: "ch = Instantiate cs b" by (cases ch) auto
      have "edges_inside (fold (subflow_call g) cs (heap s))"
        by (rule subflow_calls_inside [OF ty _ _ inside]) (use e h i ch in auto)
      with hs False ch st show ?thesis by (auto simp: Let_def split: if_splits)
    qed
  qed
qed

lemma act_builds:
  assumes "act s p p' h q l es sg" "list_all (cl_ok (heap s)) (pc_closures p)"
  shows "builds_on (heap s) h"
  using act_same_graphs [OF assms(1)]
proof (elim disjE exE conjE)
  fix n sp g d ok
  assume p: "p = Handle (SubflowC n sp g) d" "p' = Defer (SubflowC n sp g) d ok"
  have g: "g < gnext (heap s)" using assms(2) p by simp
  from assms(1) show ?thesis
  proof cases
    case (a_build g' n' q' sp' cs)
    with p have "g' = g" by simp
    with a_build subflow_calls_build [OF g, of cs] show ?thesis
      by (simp add: builds_on_trans [OF builds_on_trans [OF _ same_graphs_builds [OF same_graphs_ops(6)]] same_graphs_builds [OF same_graphs_ops(1)]])
  next
    case (a_build_panic g' n' q' sp' cs)
    with p subflow_calls_build [OF g, of cs] show ?thesis by simp
  qed (use p in \<open>auto intro: same_graphs_builds\<close>)
qed (rule same_graphs_builds)

text \<open>The transition of a goroutine that fits leaves it where it fits.\<close>

lemma all_in_simps [simp]:
  "all_in h g []" "all_in h g (n # ns) \<longleftrightarrow> ngraph (hnode h n) = g \<and> all_in h g ns"
  "all_in h g (ms @ ns) \<longleftrightarrow> all_in h g ms \<and> all_in h g ns"
  by (auto simp: all_in_def)

lemma after_schedule_fits: "sk_ok k \<Longrightarrow> list_all (sub_ok h) (sk_closures k) \<Longrightarrow> pc_fits h (after_schedule k)"
  by (cases k) (auto simp: pc_fits_def)

lemma sort_in: "is_sort h xs ys \<Longrightarrow> all_in h' g xs \<Longrightarrow> all_in h' g ys"
  by (metis all_in_def is_sort_def set_mset_mset)

lemma make_closure_fits: "make_closure h n sp = Some c \<Longrightarrow> cnode c = n \<and> sub_ok h c"
  by (auto simp: make_closure_def split: node_ptr.splits)

lemma successors_in: "edges_inside h \<Longrightarrow> all_in h (ngraph (hnode h n)) (successors (hnode h n))"
  by (simp add: edges_inside_def all_in_def)

lemma act_fits:
  assumes "act s p p' h q l es sg" "pc_fits (heap s) p" "list_all (sub_ok (heap s)) (pool_items (epool s))"
    and "edges_inside (heap s)" "layered (heap s)"
  shows "pc_fits (heap s) p' \<and> list_all (sub_ok (heap s)) l"
  using assms(1)
proof cases
  case (a_gsetup g zs k)
  have "all_in (heap s) g (entries (hgraph (graph_setup g (heap s)) g))"
    using graph_setup_types(2) [of g "heap s"] assms(5) by (auto simp: all_in_def layered_def)
  from sort_in [OF a_gsetup(8) this] show ?thesis using a_gsetup assms(2,3) by (simp add: pc_fits_def)
next
  case (a_sched_done k)
  have "pc_fits (heap s) (after_schedule k)"
    by (rule after_schedule_fits) (use assms(2) a_sched_done in \<open>simp_all add: pc_fits_def\<close>)
  with a_sched_done assms(3) show ?thesis by simp
next
  case (a_sched_skip n ns k)
  have "pc_fits (heap s) (after_schedule k)"
    by (rule after_schedule_fits) (use assms(2) a_sched_skip in \<open>simp_all add: pc_fits_def\<close>)
  with a_sched_skip assms(3) show ?thesis by simp
next
  case (a_choose n m v u q' sp)
  then have "ngraph (hnode (heap s) u) = ngraph (hnode (heap s) n)"
    using assms(4) by (force simp: edges_inside_def dest: map_of_SomeD)
  with a_choose show ?thesis using assms(2,3) by (simp add: pc_fits_def)
next
  case (a_nsetup cs zs c)
  then have "all_in (heap s) (ngraph (hnode (heap s) (cnode c))) zs" using sort_in assms(2) by (auto simp: pc_fits_def)
  then show ?thesis using a_nsetup assms(2,3) by (simp add: pc_fits_def)
qed (use assms(2-4) successors_in make_closure_fits in \<open>auto simp: pc_fits_def\<close>)

section \<open>The balance of the nodes in flight\<close>

text \<open>The reference a goroutine at \<open>p\<close> is about to take for a node of \<open>g\<close>, or to give back.\<close>

fun taken :: "heap \<Rightarrow> gid \<Rightarrow> pc \<Rightarrow> nat" where
  "taken h g (PRef n ns k) = of_bool (ngraph (hnode h n) = g)"
| "taken h g _ = 0"

fun gone :: "heap \<Rightarrow> gid \<Rightarrow> pc \<Rightarrow> nat" where
  "gone h g (Deref c) = of_bool (ngraph (hnode h (cnode c)) = g)"
| "gone h g _ = 0"

lemma after_schedule_carries [simp]: "pc_closures (after_schedule k) = sk_closures k" "pc_carried (after_schedule k) = []"
  by (cases k; simp)+

lemma act_refs:
  assumes "act s p p' h q l es sg" "\<not> is_crashed p'"
  shows "pc_refs (heap s) g p' + nodes_of (heap s) g (q @ map cnode l) + gone (heap s) g p =
    pc_refs (heap s) g p + queued (heap s) g s + taken (heap s) g p"
  using assms by cases (auto simp: pc_refs_def queued_def dest: make_closure_fits)

lemma act_loops:
  assumes "act s p p' h q l es sg" "\<not> is_crashed p'"
  shows "loops g p' = loops g p \<or> (\<exists>k. p = GSetup g k \<and> loops g p' = 1 \<and> loops g p = 0) \<or>
    (\<exists>k. p = LPop g k \<and> p' = LLeave g k \<and> (graph_recyclable (heap s) g \<or> is_canceled s g))"
  using assms by cases auto

lemma act_queue:
  assumes "act s p p' h q l es sg"
  shows "set q \<subseteq> set (items (wq s)) \<or> (\<exists>n ns k. p = PPut n ns k \<and> set q \<subseteq> insert n (set (items (wq s))) \<and> sg = Some (graph_of s n))"
    and "(\<exists>g k. p = LPop g k) \<or> items (wq s) = [] \<or> q \<noteq> []"
  using assms by (cases; auto)+

section \<open>The flow of a run\<close>

abbreviation popping :: "pc \<Rightarrow> nat" where
  "popping p \<equiv> of_bool (holds_mu p)"

definition flowing :: "sys \<Rightarrow> bool" where
  "flowing s \<longleftrightarrow> fits s \<and> (\<forall>g. total (loops g) s \<le> 1) \<and> 
     (\<forall>g. 0 < inflight g s \<longrightarrow> total (loops g) s = 1 \<or> is_canceled s g) \<and> total popping s \<le> 1 \<and>
     (\<forall>g k. LWait g k \<in> set (threads s) \<longrightarrow> 0 < inflight g s \<and> (\<forall>n \<in> set (items (wq s)). graph_of s n \<noteq> g)) \<and>
     (\<forall>g k. LPop g k \<in> set (threads s) \<longrightarrow> 0 < inflight g s \<longrightarrow> items (wq s) \<noteq> [] \<or> is_canceled s g)"

lemma flowingD:
  assumes "flowing s"
  shows "fits s" "total (loops g) s \<le> 1" "0 < inflight g s \<Longrightarrow> total (loops g) s = 1 \<or> is_canceled s g" "total popping s \<le> 1"
    "LWait g k \<in> set (threads s) \<Longrightarrow> 0 < inflight g s"
    "LWait g k \<in> set (threads s) \<Longrightarrow> n \<in> set (items (wq s)) \<Longrightarrow> graph_of s n \<noteq> g"
    "LPop g k \<in> set (threads s) \<Longrightarrow> 0 < inflight g s \<Longrightarrow> items (wq s) \<noteq> [] \<or> is_canceled s g"
  using assms unfolding flowing_def by blast+

definition poised :: "sys \<Rightarrow> bool" where
  "poised s \<longleftrightarrow> join_inv s \<and> well_typed s \<and> accounts s \<and> \<not> crashed s \<and> edges_inside (heap s) \<and> small s"

lemma poisedD:
  assumes "poised s"
  shows "join_inv s" "well_typed s" "accounts s" "\<not> crashed s" "edges_inside (heap s)"
    "graph_recyclable (heap s) g \<longleftrightarrow> inflight g s = 0"
proof -
  show j: "join_inv s" "well_typed s" "accounts s" "\<not> crashed s" "edges_inside (heap s)"
    using assms unfolding poised_def by blast+
  have "inflight g s < 2 ^ 32" using assms unfolding poised_def small_def by blast
  from of_nat_int32_eq_0 [OF this] j(1) show "graph_recyclable (heap s) g \<longleftrightarrow> inflight g s = 0"
    by (auto simp: graph_recyclable_def join_inv_def)
qed

lemma total_two:
  assumes "i < length (threads s)" "j < length (threads s)" "i \<noteq> j"
  shows "f (threads s ! i) + f (threads s ! j) \<le> total f s"
proof -
  have "f (threads s ! i) + f (threads s ! j) = (\<Sum>l \<in> {i, j}. f (threads s ! l))" using assms(3) by simp
  also have "\<dots> \<le> (\<Sum>l \<in> {0..<length (threads s)}. f (threads s ! l))" by (rule sum_mono2) (use assms in auto)
  finally show ?thesis by (simp add: total_def sum_list_sum_nth)
qed

lemma total_one: "i < length (threads s) \<Longrightarrow> f (threads s ! i) \<le> total f s"
  using elem_le_sum_list [of i "map f (threads s)"] by (simp add: total_def)

lemma closure_inflight: "p \<in> set (threads s) \<Longrightarrow> c \<in> set (pc_closures p) \<Longrightarrow> 0 < inflight (graph_of s (cnode c)) s"
  using inflight_0(3) [of "graph_of s (cnode c)" s] by blast

text \<open>A transition in a poised state that flows.\<close>

definition advances :: "sys \<Rightarrow> nat \<Rightarrow> pc \<Rightarrow> sys \<Rightarrow> hevent list \<Rightarrow> gid option \<Rightarrow> bool" where
  "advances s i p' t es sg \<longleftrightarrow> poised s \<and> flowing s \<and> i < length (threads s) \<and> acts s i p' t es sg \<and> settles s i p' t \<and>
     \<not> is_crashed p' \<and> (\<forall>g k. threads s ! i = GSetup g k \<longrightarrow> total (loops g) s = 0)"

lemma advancesD:
  assumes "advances s i p' t es sg"
  shows "poised s" "flowing s" "i < length (threads s)" "acts s i p' t es sg" "settles s i p' t" "\<not> is_crashed p'"
    "threads s ! i = GSetup g k \<Longrightarrow> total (loops g) s = 0"
    "act s (threads s ! i) p' (heap t) (items (wq t)) (pool_items (epool t)) es sg"
    "builds_on (heap s) (heap t)"
proof -
  show g: "poised s" "flowing s" "i < length (threads s)" "acts s i p' t es sg" "settles s i p' t" "\<not> is_crashed p'"
    "threads s ! i = GSetup g k \<Longrightarrow> total (loops g) s = 0"
    using assms unfolding advances_def by blast+
  from g(4) show a: "act s (threads s ! i) p' (heap t) (items (wq t)) (pool_items (epool t)) es sg" by (simp add: acts_def)
  have "list_all (cl_ok (heap s)) (pc_closures (threads s ! i))" using poisedD(1) [OF g(1)] g(3) by (simp add: join_inv_def)
  then show "builds_on (heap s) (heap t)" by (rule act_builds [OF a])
qed

lemma no_crash:
  assumes c: "poised s" and f: "flowing s" and i: "i < length (threads s)" and a: "acts s i p' t es sg"
  shows "\<not> is_crashed p'"
proof -
  have p: "threads s ! i \<in> set (threads s)" using i by simp
  have ty: "pc_typed (heap s) (threads s ! i)" "typed (heap s)" using poisedD(2) [OF c] p unfolding well_typed_def by blast+
  from a have "act s (threads s ! i) p' (heap t) (items (wq t)) (pool_items (epool t)) es sg" by (simp add: acts_def)
  then show ?thesis
  proof cases
    case (a_sched_done k)
    then show ?thesis by simp
  next
    case (a_pop_empty g k e)
    with p have "LPop g k \<in> set (threads s)" by simp
    with flowingD(7) [OF f this] a_pop_empty have "inflight g s = 0" by auto
    with poisedD(6) [OF c, of g] a_pop_empty show ?thesis by blast
  next
    case (a_invoke_bad n k g e)
    with typedD(1) [OF ty(2), of n] ty(1) show ?thesis by (auto simp: make_closure_def split: node_ptr.splits)
  qed auto
qed

lemma advances_balance:
  assumes "advances s i p' t es sg"
  shows "inflight g t + gone (heap s) g (threads s ! i) = inflight g s + taken (heap s) g (threads s ! i)"
proof -
  note G = advancesD [OF assms]
  from act_refs [OF G(8,6), of g] settles_inflight [OF poisedD(1,2) [OF G(1)] G(3,5), of g]
  show ?thesis by (simp add: queued_def)
qed

lemma taken_inflight:
  assumes f: "flowing s" and i: "i < length (threads s)" and t: "0 < taken (heap s) g (threads s ! i)"
  shows "0 < inflight g s \<or> loops g (threads s ! i) = 1"
proof -
  have p: "threads s ! i \<in> set (threads s)" using i by simp
  from t obtain n ns k where k: "threads s ! i = PRef n ns k" "ngraph (hnode (heap s) n) = g"
    by (cases "threads s ! i") (auto split: if_splits)
  have "pc_fits (heap s) (threads s ! i)" using flowingD(1) [OF f] p unfolding fits_def by blast
  with k have g: "sk_graph (heap s) k = g" by (simp add: pc_fits_def)
  show ?thesis
  proof (cases k)
    case (KLoop g' k')
    with k g show ?thesis by simp
  next
    case (KSucc c)
    with closure_inflight [OF p, of c] k g show ?thesis by (simp add: graph_of_def)
  next
    case (KCond c sp)
    with closure_inflight [OF p, of c] k g show ?thesis by (simp add: graph_of_def)
  qed
qed

lemma inflight_graph:
  assumes "grounded (heap s)" "0 < inflight g s \<or> 0 < taken (heap s) g p"
  shows "g < gnext (heap s)"
proof -
  have n: "g < gnext (heap s)" if "0 < nodes_of (heap s) g ns" for ns
  proof -
    from that have "filter (\<lambda>n. ngraph (hnode (heap s) n) = g) ns \<noteq> []" by (auto simp: nodes_of_def)
    then obtain n where "ngraph (hnode (heap s) n) = g" by (auto simp: filter_empty_conv)
    with assms(1) show ?thesis by (auto simp: grounded_def)
  qed
  from assms(2) show ?thesis
  proof
    assume "0 < inflight g s"
    then consider "total (pc_refs (heap s) g) s \<noteq> 0" | "0 < queued (heap s) g s" unfolding inflight_def by linarith
    then show ?thesis by cases (auto simp: total_0 queued_def pc_refs_def intro: n)
  next
    assume "0 < taken (heap s) g p"
    with assms(1) show ?thesis by (cases p) (auto simp: grounded_def split: if_splits)
  qed
qed

text \<open>No graph that exists is un-canceled.\<close>

lemma subflow_call_keeps:
  "gnext h \<le> gnext (subflow_call g c h) \<and> (g' < gnext h \<longrightarrow> canceled (hgraph h g') \<longrightarrow> canceled (hgraph (subflow_call g c h) g'))"
proof -
  have e: "hgraph (fold (precede u) ts h') = hgraph h'" "hgraph (fold (\<lambda>v. precede v u) ts h') = hgraph h'"
    "hgraph (fold (\<lambda>v. upd_node u (\<lambda>x. x\<lparr>ptr := branch_put v (ptr x)\<rparr>)) ts h') = hgraph h'"
    "gnext (fold (precede u) ts h') = gnext h'" "gnext (fold (\<lambda>v. precede v u) ts h') = gnext h'"
    "gnext (fold (\<lambda>v. upd_node u (\<lambda>x. x\<lparr>ptr := branch_put v (ptr x)\<rparr>)) ts h') = gnext h'" for u ts h'
    by (induction ts arbitrary: h') auto
  show ?thesis
    by (cases c) (auto simp: Task_Precede_def Task_Succeed_def Task_Priority_def e Let_def case_prod_unfold NewStatic_def NewSubflow_def
        NewCondition_def newNode_def newGraph_def graph_push_def nil_graph_def split: node_ptr.splits)
qed

lemma subflow_calls_keep: "g' < gnext h \<Longrightarrow> canceled (hgraph h g') \<Longrightarrow> canceled (hgraph (fold (subflow_call g) cs h) g')"
proof (induction cs arbitrary: h)
  case (Cons c cs)
  from Cons.IH [of "subflow_call g c h"] Cons.prems subflow_call_keeps [of h g c g'] show ?case by simp
qed simp

lemma graph_setup_canceled: "canceled (hgraph (graph_setup g h) g') \<longleftrightarrow> canceled (hgraph h g')"
proof -
  have one: "canceled (hgraph (setup_one g n h) g') \<longleftrightarrow> canceled (hgraph h g')" for n h
    by (simp add: setup_one_def Let_def node_setup_eq)
  have "canceled (hgraph (fold (setup_one g) ns h) g') \<longleftrightarrow> canceled (hgraph h g')" for ns h
    by (induction ns arbitrary: h) (simp_all add: one)
  then show ?thesis by (simp add: graph_setup_def Let_def graph_reset_eq)
qed

lemma act_keeps_canceled:
  assumes "act s p p' h q l es sg" "g < gnext (heap s)" "is_canceled s g"
  shows "canceled (hgraph h g)"
  using assms(1)
proof cases
  case (a_build g' n q' sp cs)
  with subflow_calls_keep [OF assms(2), of g' cs] assms(3) show ?thesis by (auto simp: is_canceled_def set_state_def)
next
  case (a_build_panic g' n q' sp cs)
  with subflow_calls_keep [OF assms(2), of g' cs] assms(3) show ?thesis by (simp add: is_canceled_def)
qed (use assms(3) in \<open>auto simp: is_canceled_def graph_setup_canceled set_state_def drop_one_def node_deref_def node_setup_eq
    graph_ref_def graph_deref_def graph_cancel_def\<close>)

lemma advances_canceled:
  assumes g: "advances s i p' t es sg" and "is_canceled s g" "0 < inflight g s \<or> 0 < taken (heap s) g (threads s ! i)"
  shows "is_canceled t g"
proof -
  note G = advancesD [OF g]
  have "grounded (heap s)" using poisedD(1) [OF G(1)] by (simp add: join_inv_def)
  from act_keeps_canceled [OF G(8) inflight_graph [OF this assms(3)] assms(2)] show ?thesis by (simp add: is_canceled_def)
qed

lemma advances_loops:
  assumes "advances s i p' t es sg"
  shows "total (loops g) t \<le> 1" "0 < inflight g t \<Longrightarrow> total (loops g) t = 1 \<or> is_canceled t g"
proof -
  note G = advancesD [OF assms]
  have tot: "total (loops g) t + loops g (threads s ! i) = total (loops g) s + loops g p'"
    by (rule acts_total_0 [OF G(4,3)]) simp_all
  consider (same) "loops g p' = loops g (threads s ! i)"
    | (enter) k where "threads s ! i = GSetup g k" "loops g p' = 1" "loops g (threads s ! i) = 0"
    | (leave) k where "threads s ! i = LPop g k" "p' = LLeave g k" "graph_recyclable (heap s) g \<or> is_canceled s g"
    using act_loops [OF G(8,6), of g] by blast
  note C = this
  from C show le: "total (loops g) t \<le> 1"
  proof cases
    case same
    with tot flowingD(2) [OF G(2), of g] show ?thesis by linarith
  next
    case enter
    with tot G(7) show ?thesis by simp
  next
    case leave
    with tot flowingD(2) [OF G(2), of g] show ?thesis by simp
  qed
  assume pos: "0 < inflight g t"
  have live: "0 < inflight g s \<or> 0 < taken (heap s) g (threads s ! i)" using advances_balance [OF assms, of g] pos by linarith
  with taken_inflight [OF G(2,3)] have "0 < inflight g s \<or> loops g (threads s ! i) = 1" by blast
  then have "total (loops g) s = 1 \<or> is_canceled s g"
    using flowingD(2,3) [OF G(2), of g] total_one [OF G(3), of "loops g"] by linarith
  then show "total (loops g) t = 1 \<or> is_canceled t g"
  proof
    assume "is_canceled s g"
    from advances_canceled [OF assms this live] show ?thesis ..
  next
    assume one: "total (loops g) s = 1"
    from C show ?thesis
    proof cases
      case same
      with tot one show ?thesis by simp
    next
      case enter
      with G(7) one show ?thesis by simp
    next
      case leave
      from leave(3) have "is_canceled s g"
      proof
        assume "graph_recyclable (heap s) g"
        with poisedD(6) [OF G(1)] have "inflight g s = 0" by blast
        with advances_balance [OF assms, of g] leave(1) pos show ?thesis by simp
      qed
      from advances_canceled [OF assms this live] show ?thesis ..
    qed
  qed
qed

lemma after_schedule_not [simp]: "after_schedule k \<noteq> LPop g k'" "LPop g k' \<noteq> after_schedule k"
  "after_schedule k \<noteq> LWait g k'" "LWait g k' \<noteq> after_schedule k"
  by (cases k; simp)+

lemma advances_mu:
  assumes "advances s i p' t es sg"
  shows "total popping t \<le> 1"
proof -
  note G = advancesD [OF assms]
  have tot: "total popping t + popping (threads s ! i) = total popping s + popping p'"
    by (rule acts_total_0 [OF G(4,3)]) (simp_all add: wait_blind_def)
  show ?thesis
  proof (cases "holds_mu p'")
    case True
    then obtain g k where p': "p' = LPop g k" by (cases p') auto
    from G(8) have "mu_free s" by cases (use p' in \<open>auto split: if_splits\<close>)
    then have "total popping s = 0" by (auto simp: total_0 mu_free_def list_ex_iff)
    with tot p' show ?thesis by simp
  next
    case False
    with tot flowingD(4) [OF G(2)] show ?thesis by simp
  qed
qed

text \<open>A node keeps its graph.\<close>

lemma advances_graph:
  assumes "advances s i p' t es sg" "allocated (heap s) n"
  shows "graph_of t n = graph_of s n"
  using advancesD(9) [OF assms(1)] assms(2) by (simp add: builds_on_def graph_of_def)

lemma advances_sleep:
  assumes g: "advances s i p' t es sg" and w: "LWait g k \<in> set (threads t)"
  shows "0 < inflight g t" "n \<in> set (items (wq t)) \<Longrightarrow> graph_of t n \<noteq> g"
proof -
  note G = advancesD [OF g]
  have al: "list_all (allocated (heap s)) (items (wq t))" using G(5) by (simp add: settles_def)
  consider (new) "LWait g k = p'"
    | (old) j where "j < length (threads s)" "j \<noteq> i" "LWait g k = threads s ! j"
        "sg = Some g \<Longrightarrow> \<exists>l < length (threads s). l \<noteq> j \<and> (\<exists>k'. threads s ! l = LWait g k')"
    using acts_other [OF G(4) w] by fastforce
  then have "0 < inflight g t \<and> (\<forall>n \<in> set (items (wq t)). graph_of s n \<noteq> g)"
  proof cases
    case new
    from G(8) have "\<not> graph_recyclable (heap s) g \<and> items (wq s) = [] \<and> threads s ! i = LCheck g k \<and> items (wq t) = []"
      by cases (use new in \<open>auto split: if_splits\<close>)
    with advances_balance [OF g, of g] poisedD(6) [OF G(1), of g] show ?thesis by simp
  next
    case (old j)
    have W: "LWait g k \<in> set (threads s)" using old by simp
    have no: "sg \<noteq> Some g"
    proof
      assume "sg = Some g"
      then obtain l k' where l: "l < length (threads s)" "l \<noteq> j" "threads s ! l = LWait g k'" using old(4) by blast
      from total_two [OF l(1) old(1) l(2), of "loops g"] flowingD(2) [OF G(2), of g] l(3) old(3) [symmetric] show False by simp
    qed
    have "gone (heap s) g (threads s ! i) = 0"
      using G(8) by cases (use no in \<open>auto simp: graph_of_def\<close>)
    then have "0 < inflight g t" using advances_balance [OF g, of g] flowingD(5) [OF G(2) W] by simp
    with act_queue(1) [OF G(8)] no flowingD(6) [OF G(2) W] show ?thesis by blast
  qed
  then show "0 < inflight g t" "n \<in> set (items (wq t)) \<Longrightarrow> graph_of t n \<noteq> g"
    using advances_graph [OF g, of n] al by (auto simp: list_all_iff)
qed

lemma advances_pop:
  assumes g: "advances s i p' t es sg" and w: "LPop g k \<in> set (threads t)" and pos: "0 < inflight g t"
  shows "items (wq t) \<noteq> [] \<or> is_canceled t g"
proof -
  note G = advancesD [OF g]
  consider (new) "LPop g k = p'" | (old) j where "j < length (threads s)" "j \<noteq> i" "LPop g k = threads s ! j"
    using acts_other [OF G(4) w] by fastforce
  then show ?thesis
  proof cases
    case new
    from G(8) have "(graph_recyclable (heap s) g \<or> items (wq s) \<noteq> [] \<or> is_canceled s g) \<and> threads s ! i = LCheck g k \<and>
        items (wq t) = items (wq s)"
      by cases (use new in \<open>auto split: if_splits\<close>)
    with advances_balance [OF g, of g] poisedD(6) [OF G(1), of g] pos advances_canceled [OF g, of g] show ?thesis by auto
  next
    case (old j)
    have W: "LPop g k \<in> set (threads s)" using old by simp
    have live: "0 < inflight g s"
    proof (rule ccontr)
      assume z: "\<not> 0 < inflight g s"
      then have "0 < taken (heap s) g (threads s ! i)" using advances_balance [OF g, of g] pos by linarith
      with taken_inflight [OF G(2,3), of g] z have "loops g (threads s ! i) = 1" by blast
      with total_two [OF G(3) old(1) old(2) [symmetric], of "loops g"] flowingD(2) [OF G(2), of g] old(3) [symmetric]
      show False by simp
    qed
    then have "items (wq s) \<noteq> [] \<or> is_canceled s g" using flowingD(7) [OF G(2) W] by blast
    moreover have "threads s ! i \<noteq> LPop g' k'" for g' k'
      using total_two [OF G(3) old(1) old(2) [symmetric], of popping] flowingD(4) [OF G(2)] old(3) [symmetric] by auto
    ultimately show ?thesis using act_queue(2) [OF G(8)] advances_canceled [OF g] live by blast
  qed
qed

lemma advances_fits:
  assumes "advances s i p' t es sg"
  shows "fits t"
proof -
  note G = advancesD [OF assms]
  have f: "layered (heap s)" "\<forall>p \<in> set (threads s). pc_fits (heap s) p" "list_all (sub_ok (heap s)) (pool_items (epool s))"
    using flowingD(1) [OF G(2)] unfolding fits_def by blast+
  have old: "pc_fits (heap t) p" if "p \<in> set (threads s)" for p
    using pc_fits_builds [OF G(9), of p] poisedD(1,2) [OF G(1)] f(2) that unfolding well_typed_def join_inv_def by blast
  have N: "pc_fits (heap s) p'" "list_all (sub_ok (heap s)) (pool_items (epool t))"
    using act_fits [OF G(8)] f G(3) poisedD(5) [OF G(1)] by simp_all
  have cl: "list_all (cl_ok (heap s)) (pc_closures p' @ pool_items (epool t))" using G(5) by (simp add: settles_def)
  have new: "pc_fits (heap t) p'"
    using act_same_graphs [OF G(8)]
  proof (elim disjE exE conjE)
    assume "same_graphs (heap s) (heap t)"
    from pc_fits_same [OF this] N(1) show ?thesis by blast
  next
    fix n sp g d ok
    assume "p' = Defer (SubflowC n sp g) d ok"
    with N(1) cl sub_ok_builds [OF G(9), of "SubflowC n sp g"] show ?thesis by (simp add: pc_fits_def)
  qed
  have "pc_fits (heap t) p" if p: "p \<in> set (threads t)" for p
    using acts_other [OF G(4) p]
  proof (elim disjE exE conjE)
    fix j g k
    assume "j < length (threads s)" "p = LCheck g k" "threads s ! j = LWait g k"
    with old [of "LWait g k"] show ?thesis by (auto simp: pc_fits_def dest!: nth_mem)
  qed (use new old in \<open>auto simp: pc_fits_def\<close>)
  moreover have "list_all (sub_ok (heap t)) (pool_items (epool t))"
    using N(2) cl sub_ok_builds [OF G(9)] by (auto simp: list_all_iff)
  moreover have "layered (heap t)" using G(9) f(1) by (simp add: builds_on_def)
  ultimately show ?thesis by (simp add: fits_def)
qed

lemma advances_flowing:
  assumes "advances s i p' t es sg"
  shows "flowing t"
  unfolding flowing_def
  using advances_fits [OF assms] advances_loops [OF assms] advances_mu [OF assms] advances_sleep [OF assms] advances_pop [OF assms] by blast

section \<open>Tidy runs flow\<close>

lemma subflow_calls_canceled: "canceled (hgraph (fold (subflow_call g) cs h) g') \<Longrightarrow> canceled (hgraph h g')"
  by (induction cs arbitrary: h) (auto dest: subflow_call_canceled)

text \<open>Only a panic cancels.\<close>

lemma act_cancels:
  assumes "act s p p' h q l es sg" "\<forall>n. HPanic n \<notin> set es" "\<forall>c sp. p \<noteq> Defer c sp False" "\<forall>g. \<not> is_canceled s g"
  shows "(\<forall>g. \<not> canceled (hgraph h g)) \<and> (\<forall>c sp. p' \<noteq> Defer c sp False)"
  using assms(1)
proof cases
  case (a_sched_done k)
  with assms show ?thesis by (cases k) (auto simp: is_canceled_def)
next
  case (a_sched_skip n ns k)
  with assms show ?thesis by blast
qed (use assms(2-4) in \<open>auto simp: is_canceled_def graph_setup_canceled set_state_def drop_one_def node_deref_def node_setup_eq
    graph_ref_def graph_deref_def dest: subflow_calls_canceled\<close>)

lemma acts_no_crash:
  assumes "acts s i p' t es sg" "\<not> is_crashed p'" "\<not> crashed s"
  shows "\<not> crashed t"
  using acts_other [OF assms(1)] assms(2,3) unfolding crashed_def list_ex_iff by (metis is_crashed.simps nth_mem)

text \<open>The next transition of a tidy run.\<close>

lemma tidy_advances:
  assumes "tidy s0 s" "fresh_executor s0" "poised s" "flowing s" "event_ok s (i, ch, now)" "step s (i, ch, now) = Some t"
    and fresh: "\<And>g k. threads s ! i = GSetup g k \<Longrightarrow> total (loops g) s = 0 \<and> inflight g s = 0"
  obtains p' es sg where "advances s i p' t es sg" "hist t = hist s @ es" "\<not> crashed t"
proof -
  have i: "i < length (threads s)" using assms(6) by (auto split: if_splits)
  obtain p' es sg where ac: "acts s i p' t es sg" by (rule step_acts [OF poisedD(3) [OF assms(3)] assms(6)])
  have nc: "\<not> is_crashed p'" by (rule no_crash [OF assms(3,4) i ac])
  have ncr: "\<not> crashed t" by (rule acts_no_crash [OF ac nc]) (use poisedD(4) [OF assms(3)] in blast)
  obtain p'' where se: "settles s i p'' t"
    using step_settled [OF poisedD(1,2,3) [OF assms(3)] assms(6) ncr] fresh by blast
  then have "p'' = p'" using acts_at [OF ac i] lands_at [OF _ i] by (auto simp: settles_def)
  with se assms(3,4) i ac nc fresh have "advances s i p' t es sg" unfolding advances_def by blast
  with that ac ncr show thesis by (auto simp: acts_def)
qed

lemma tidy_flows:
  assumes "NewExecutor c opts now h clients = Inr s0" "built h" "tidy s0 s" "edges_inside h"
  shows "poised s \<and> flowing s"
  using assms(3)
proof (induction rule: tidy.induct)
  case start
  have s: "threads s0 = map Client clients" "heap s0 = h" "items (wq s0) = []" "pool_items (epool s0) = []"
    using assms(1) by (auto simp: NewExecutor_def NewCopool_def comp_def NewQueue_inv split: if_splits)
  have fr: "fresh_executor s0" using assms(1) unfolding fresh_executor_def by blast
  have z: "inflight g s0 = 0" "total (loops g) s0 = 0" "total popping s0 = 0" for g
    by (auto simp: inflight_def queued_def total_0 pc_refs_def s)
  have "join_inv s0" using s z(1) built_grounded [OF assms(2)] by (auto simp: join_inv_def)
  moreover have "well_typed s0" by (rule reach_well_typed [OF assms(1,2) reach_ok.start])
  ultimately have "poised s0"
    using assms(4) fresh_accounts [OF fr] z(1) by (simp add: poised_def small_def s(2))
  moreover have "flowing s0" using z s built_layered [OF assms(2)] by (auto simp: flowing_def fits_def pc_fits_def)
  ultimately show ?case by blast
next
  case (step s i ch now' t)
  have fr: "fresh_executor s0" using assms(1) unfolding fresh_executor_def by blast
  have P: "poised s" "flowing s" using step.IH by blast+
  obtain p' es sg where a: "advances s i p' t es sg" "\<not> crashed t"
    by (rule tidy_advances [OF step.hyps(1) fr P step.hyps(2,4,5)])
  note G = advancesD [OF a(1)]
  have "reach s0 t" by (rule reach_ok_reach [OF reach_ok.step [OF tidy_reach_ok [OF step.hyps(1)] step.hyps(2,4)]])
  then have "accounts t" using reach_accounts [OF _ fr] a(2) by blast
  moreover have "small t" using step.hyps(6) inflight_load [of _ t] unfolding small_def by (meson le_less_trans)
  ultimately have "poised t"
    using settles_inv [OF poisedD(1,2) [OF P(1)] G(3,5)] step_well_typed [OF poisedD(2,3) [OF P(1)] step.hyps(2,4)] a(2)
      step_inside [OF step.hyps(4,2,3) poisedD(2) [OF P(1)] G(4) poisedD(5) [OF P(1)]]
    by (simp add: poised_def)
  with advances_flowing [OF a(1)] show ?case by blast
qed

lemma tidy_panics:
  assumes "NewExecutor c opts now h clients = Inr s0" "built h" "tidy s0 s" "\<forall>n. HPanic n \<notin> set (hist s)"
  shows "(\<forall>g. \<not> is_canceled s g) \<and> (\<forall>c sp. Defer c sp False \<notin> set (threads s))"
  using assms(3,4)
proof (induction rule: tidy.induct)
  case start
  have "threads s0 = map Client clients" "heap s0 = h" using assms(1) by (auto simp: NewExecutor_def split: if_splits)
  with built_layered [OF assms(2)] show ?case by (auto simp: is_canceled_def)
next
  case (step s i ch now' t)
  have fr: "fresh_executor s0" using assms(1) unfolding fresh_executor_def by blast
  have i: "i < length (threads s)" using step.hyps(4) by (auto split: if_splits)
  have "accounts s"
    using reach_accounts [OF reach_ok_reach [OF tidy_reach_ok [OF step.hyps(1)]] fr] crashed_stuck step.hyps(4) by fastforce
  then obtain p' es sg where ac: "acts s i p' t es sg" using step_acts [OF _ step.hyps(4)] by blast
  then have mv: "act s (threads s ! i) p' (heap t) (items (wq t)) (pool_items (epool t)) es sg" "hist t = hist s @ es"
    by (simp_all add: acts_def)
  have IH: "\<forall>g. \<not> is_canceled s g" "\<forall>c sp. Defer c sp False \<notin> set (threads s)" using step.IH step.prems mv(2) by auto
  have no: "Defer c sp False \<noteq> threads s ! j" if "j < length (threads s)" for j c sp using IH(2) that by (metis nth_mem)
  have un: "(\<forall>g. \<not> canceled (hgraph (heap t) g)) \<and> (\<forall>c sp. p' \<noteq> Defer c sp False)"
    using act_cancels [OF mv(1)] step.prems mv(2) IH(1) no [OF i, THEN not_sym] by auto
  have "Defer c sp False \<notin> set (threads t)" for c sp
  proof
    assume "Defer c sp False \<in> set (threads t)"
    from acts_other [OF ac this] un no show False by auto
  qed
  with un show ?case by (simp add: is_canceled_def)
qed

section \<open>Completion\<close>

definition is_sub :: "heap \<Rightarrow> nid \<Rightarrow> bool" where
  "is_sub h n = (case ptr (hnode h n) of PSubflow g \<Rightarrow> True | _ \<Rightarrow> False)"

text \<open>The number of subflows made so far.\<close>

definition num_subflows :: "heap \<Rightarrow> nat" where
  "num_subflows h = length (filter (is_sub h) [0..<nnext h])"

lemma in_subflow_ends:
  assumes "flowing s" "join_inv s" "i < length (threads s)" "in_subflow (threads s ! i)"
  obtains n p g sp where "threads s ! i = LWait g (GSub (SubflowC n p g) sp)" "ptr (hnode (heap s) n) = PSubflow g" "n < nnext (heap s)"
proof -
  obtain g c sp where w: "threads s ! i = LWait g (GSub c sp)" using assms(4) by (auto elim: in_subflow.elims)
  have p: "threads s ! i \<in> set (threads s)" using assms(3) by simp
  then have "pc_fits (heap s) (threads s ! i)" "list_all (cl_ok (heap s)) (pc_closures (threads s ! i))"
    using flowingD(1) [OF assms(1)] assms(2) unfolding fits_def join_inv_def by blast+
  with w that show thesis by (auto simp: pc_fits_def allocated_def)
qed

text \<open>Goroutines asleep inside subflows are inside different subflows.\<close>

lemma sleepers_bound:
  assumes f: "flowing s" and j: "join_inv s"
  shows "length (filter in_subflow (threads s)) \<le> num_subflows (heap s)"
proof -
  let ?I = "{i. i < length (threads s) \<and> in_subflow (threads s ! i)}" and ?f = "\<lambda>i. cnode (hd (pc_closures (threads s ! i)))"
  have sub: "?f ` ?I \<subseteq> {n. n < nnext (heap s) \<and> is_sub (heap s) n}"
  proof (clarify)
    fix i
    assume i: "i < length (threads s)" "in_subflow (threads s ! i)"
    show "?f i < nnext (heap s) \<and> is_sub (heap s) (?f i)"
      by (rule in_subflow_ends [OF f j i]) (simp add: is_sub_def)
  qed
  have "inj_on ?f ?I"
  proof (rule inj_onI, rule ccontr)
    fix i l
    assume a: "i \<in> ?I" "l \<in> ?I" "?f i = ?f l" "i \<noteq> l"
    have I: "i < length (threads s)" "l < length (threads s)" and S: "in_subflow (threads s ! i)" "in_subflow (threads s ! l)"
      using a(1,2) by simp_all
    obtain n p g sp where x: "threads s ! i = LWait g (GSub (SubflowC n p g) sp)" "ptr (hnode (heap s) n) = PSubflow g"
      by (rule in_subflow_ends [OF f j I(1) S(1)])
    obtain n' p' g' sp' where y: "threads s ! l = LWait g' (GSub (SubflowC n' p' g') sp')" "ptr (hnode (heap s) n') = PSubflow g'"
      by (rule in_subflow_ends [OF f j I(2) S(2)])
    from x y a(3) have "g' = g" by simp
    then have "loops g (threads s ! i) = 1" "loops g (threads s ! l) = 1" by (simp_all add: x(1) y(1))
    with total_two [OF I a(4), of "loops g"] flowingD(2) [OF f, of g] show False by linarith
  qed
  then have "card ?I \<le> card {n. n < nnext (heap s) \<and> is_sub (heap s) n}" by (rule card_inj_on_le [OF _ sub]) simp
  also have "{n. n < nnext (heap s) \<and> is_sub (heap s) n} = set (filter (is_sub (heap s)) [0..<nnext (heap s)])" by auto
  also have "card \<dots> = num_subflows (heap s)" unfolding num_subflows_def by (rule distinct_card) simp
  finally show ?thesis by (simp add: length_filter_conv_card)
qed

text \<open>When no task is in the pool, a goroutine asleep waits for one asleep in a graph nested deeper.\<close>

lemma sleeper_deeper:
  assumes c: "poised s" and f: "flowing s" and po: "pool_items (epool s) = []" and w: "LWait g k \<in> set (threads s)"
    and r: "\<And>p. p \<in> set (threads s) \<Longrightarrow> (\<exists>cs. p = Client cs) \<or> (\<exists>g k. p = LWait g k) \<or> p = WGone"
  shows "\<exists>g' k'. LWait g' k' \<in> set (threads s) \<and> g < g'"
proof -
  have "nodes_of (heap s) g (items (wq s)) = 0"
    using flowingD(6) [OF f w] by (auto simp: nodes_of_def graph_of_def filter_empty_conv)
  then have "queued (heap s) g s = 0" using po by (simp add: queued_def)
  with flowingD(5) [OF f w] have "total (pc_refs (heap s) g) s \<noteq> 0" by (simp add: inflight_def)
  then obtain p where p: "p \<in> set (threads s)" "pc_refs (heap s) g p \<noteq> 0" by (auto simp: total_0)
  from r [OF p(1)] p(2) obtain g' k' where p': "p = LWait g' k'" by (auto simp: pc_refs_def)
  with p(2) obtain d sp where k': "k' = GSub d sp" "ngraph (hnode (heap s) (cnode d)) = g"
    by (cases k') (auto simp: pc_refs_def split: if_splits)
  have F: "pc_fits (heap s) p" "layered (heap s)" using flowingD(1) [OF f] p(1) unfolding fits_def by blast+
  then obtain n q where "d = SubflowC n q g'" "ptr (hnode (heap s) n) = PSubflow g'" by (auto simp: p' k' pc_fits_def)
  then have "g < g'" using F(2) k'(2) by (auto simp: layered_def)
  with p(1) p' show ?thesis by blast
qed

lemma no_sleeper:
  assumes "poised s" "flowing s" "pool_items (epool s) = []"
    and r: "\<And>p. p \<in> set (threads s) \<Longrightarrow> (\<exists>cs. p = Client cs) \<or> (\<exists>g k. p = LWait g k) \<or> p = WGone"
  shows "LWait g k \<notin> set (threads s)"
proof
  assume w: "LWait g k \<in> set (threads s)"
  let ?G = "{g. \<exists>k. LWait g k \<in> set (threads s)}"
  have "?G \<subseteq> (\<lambda>p. case p of LWait g k \<Rightarrow> g | _ \<Rightarrow> 0) ` set (threads s)" by force
  then have fin: "finite ?G" by (rule finite_subset) simp
  moreover have "?G \<noteq> {}" using w by blast
  ultimately obtain k' where "LWait (Max ?G) k' \<in> set (threads s)" using Max_in [OF fin] by blast
  from sleeper_deeper [OF assms(1-3) this r] obtain g' k'' where "LWait g' k'' \<in> set (threads s)" "Max ?G < g'" by blast
  with Max_ge [OF fin, of g'] show False by auto
qed

lemma tidy_concurrency:
  assumes "tidy s0 s"
  shows "concurrency s = concurrency s0"
  using assms by (induction rule: tidy.induct) (metis step_concurrency)+

lemma runs_stop:
  assumes "NewExecutor c opts now h clients = Inr s0" "built h" "tidy s0 s" "stuck s" "edges_inside h" "num_subflows (heap s) < c"
  shows "\<not> crashed s" "p \<in> set (threads s) \<Longrightarrow> p = Client [] \<or> (\<exists>cs. p = Client (Wait # cs) \<and> wg s \<noteq> 0) \<or> p = WGone"
    "pool_items (epool s) = []" "wg s = int (length (items (wq s)))" "n \<in> set (items (wq s)) \<Longrightarrow> is_canceled s (graph_of s n)"
proof -
  have fr: "fresh_executor s0" using assms(1) unfolding fresh_executor_def by blast
  have C: "poised s" "flowing s" using tidy_flows [OF assms(1-3,5)] by blast+
  note nc = poisedD(4) [OF C(1)]
  have rs: "reach s0 s" by (rule reach_ok_reach [OF tidy_reach_ok [OF assms(3)]])
  have "concurrency s = c" using tidy_concurrency [OF assms(3)] assms(1) by (auto simp: NewExecutor_def split: if_splits)
  with stuck_served [OF fr rs assms(4) nc] sleepers_bound [OF C(2) poisedD(1) [OF C(1)]] assms(6)
  have po: "pool_items (epool s) = []" by linarith
  note r = stuck_pc [OF assms(4) nc]
  have "(\<exists>cs. p = Client cs) \<or> (\<exists>g k. p = LWait g k) \<or> p = WGone" if "p \<in> set (threads s)" for p using r [OF that] by blast
  from no_sleeper [OF C po this] r
  have t: "p = Client [] \<or> (\<exists>cs. p = Client (Wait # cs) \<and> wg s \<noteq> 0) \<or> p = WGone" if "p \<in> set (threads s)" for p
    using that by blast
  have "total in_closure s = 0" "total carries s = 0" using t by (force simp: total_0)+
  then have "wg s = int (length (items (wq s)))" using poisedD(3) [OF C(1)] po by (simp add: accounts_def)
  with nc po show "\<not> crashed s" "pool_items (epool s) = []" "wg s = int (length (items (wq s)))" by blast+
  show "p = Client [] \<or> (\<exists>cs. p = Client (Wait # cs) \<and> wg s \<noteq> 0) \<or> p = WGone" if "p \<in> set (threads s)" using t that by blast
  have z: "total (loops g) s = 0" for g using t by (force simp: total_0)
  assume "n \<in> set (items (wq s))"
  then have "0 < inflight (graph_of s n) s" using inflight_0(1) [of "graph_of s n" s] by blast
  with flowingD(3) [OF C(2), of "graph_of s n"] z [of "graph_of s n"] show "is_canceled s (graph_of s n)" by simp
qed

lemma everything_ended:
  assumes "NewExecutor c opts now h clients = Inr s0" "built h" "tidy s0 s" "stuck s" "edges_inside h"
    and "\<forall>n. HPanic n \<notin> set (hist s)" "num_subflows (heap s) < c"
  shows "\<not> crashed s \<and> (\<forall>p \<in> set (threads s). p = Client [] \<or> p = WGone) \<and> items (wq s) = [] \<and>
    pool_items (epool s) = [] \<and> wg s = 0"
proof -
  note r = runs_stop [OF assms(1-5,7)]
  have "items (wq s) = []" using r(5) tidy_panics [OF assms(1-3,6)] by (cases "items (wq s)") auto
  with r(1-4) show ?thesis by auto
qed



text \<open>Checking that a run is tidy, and a run of a subflow of one task on two workers to the end.\<close>

fun setup_alone :: "sys \<Rightarrow> pc \<Rightarrow> bool" where
  "setup_alone s (GSetup g k) \<longleftrightarrow> total (loops g) s = 0 \<and> inflight g s = 0"
| "setup_alone s _ \<longleftrightarrow> True"

fun tidy_run :: "sys \<Rightarrow> event list \<Rightarrow> sys option" where
  "tidy_run s [] = Some s"
| "tidy_run s ((i, ch, now) # es) =
     (if setup_alone s (threads s ! i) \<and> instantiates_ok s (threads s ! i) ch \<and> instantiates_inside s (threads s ! i) ch
      then (case step s (i, ch, now) of None \<Rightarrow> None | Some t \<Rightarrow> if load t < 20 then tidy_run t es else None) else None)"

lemma tidy_run_tidy: "tidy_run s es = Some t \<Longrightarrow> tidy s0 s \<Longrightarrow> tidy s0 t"
proof (induction es arbitrary: s)
  case (Cons e es)
  obtain i ch now where e: "e = (i, ch, now)" by (cases e) auto
  obtain u where u: "setup_alone s (threads s ! i)" "instantiates_ok s (threads s ! i) ch" "instantiates_inside s (threads s ! i) ch"
    "step s e = Some u" "load u < 20" "tidy_run u es = Some t"
    using Cons.prems(1) unfolding e tidy_run.simps by (auto split: if_splits option.splits)
  have "event_ok s e" using u(2) e by (cases ch) auto
  moreover have "load u < 2 ^ 32" using u(5) by simp
  ultimately have "tidy s0 u" using u(1,3,4) e by (intro tidy.step [OF Cons.prems(2), of i ch now]) auto
  with Cons.IH [OF u(6)] show ?case .
qed simp

definition complete_trace :: "event list" where
  "complete_trace = join_trace @ events (steps 1 4 @ [(1, Sorted [])] @ steps 1 4 @ steps 2 2 @ steps 0 4)"

lemma sub_flow_inside: "edges_inside sub_flow"
  by (simp add: edges_inside_def sub_flow_def NewTaskFlow_def newGraph_def empty_heap_def Let_def NewSubflow_def newNode_def
      graph_push_def nil_node_def)


lemma three_tasks_built: "built three_tasks"
  unfolding three_tasks_def fold.simps comp_def id_def
  by (intro built.sf_call flow_started) (simp_all add: NewTaskFlow_def newGraph_def empty_heap_def Let_def NewStatic_def newNode_def
      graph_push_def)

lemma three_tasks_inside: "edges_inside three_tasks"
  by (simp add: edges_inside_def three_tasks_def NewTaskFlow_def newGraph_def empty_heap_def Let_def NewStatic_def newNode_def
      graph_push_def nil_node_def)


end
