(* ===== verification/Nested_Flows.thy ===== *)
theory Nested_Flows
  imports Completion
begin

text \<open>
  Programs of flows without conditions: static tasks and subflows, nested to any depth, that several
  clients run on one executor, each client its own flows and any number of times. In such a program no
  node is executed by two goroutines at once and no graph is set up while it is being run, so the
  conditions of \<open>Completion\<close> on the run hold by themselves: the program completes.
\<close>

section \<open>Flows without conditions\<close>

definition unconditional :: "heap \<Rightarrow> bool" where
  "unconditional h \<longleftrightarrow> (\<forall>n m. ptr (hnode h n) \<noteq> PCondition m)"

text \<open>A successor has a dependent; a subflow's graph belongs to one node and is not the graph of a flow.\<close>

definition forest :: "heap \<Rightarrow> bool" where
  "forest h \<longleftrightarrow> (\<forall>u. \<forall>v \<in> set (successors (hnode h u)). dependents (hnode h v) \<noteq> []) \<and>
     (\<forall>g. distinct (gnodes (hgraph h g))) \<and>
     (\<forall>n m g. ptr (hnode h n) = PSubflow g \<longrightarrow> ptr (hnode h m) = PSubflow g \<longrightarrow> n = m) \<and>
     (\<forall>t. graph (hflow h t) < gnext h \<and> (\<forall>n. ptr (hnode h n) \<noteq> PSubflow (graph (hflow h t))))"

lemma forestD:
  assumes "forest h"
  shows "v \<in> set (successors (hnode h u)) \<Longrightarrow> dependents (hnode h v) \<noteq> []" "distinct (gnodes (hgraph h g))"
    "ptr (hnode h n) = PSubflow g \<Longrightarrow> ptr (hnode h m) = PSubflow g \<Longrightarrow> n = m"
    "ptr (hnode h n) \<noteq> PSubflow (graph (hflow h t))" "graph (hflow h t) < gnext h"
  using assms unfolding forest_def by blast+

text \<open>What the operations of a run keep besides.\<close>

definition same_links :: "heap \<Rightarrow> heap \<Rightarrow> bool" where
  "same_links h h' \<longleftrightarrow> (\<forall>n. dependents (hnode h' n) = dependents (hnode h n)) \<and> (\<forall>t. graph (hflow h' t) = graph (hflow h t))"

lemma same_links_refl [simp]: "same_links h h"
  by (simp add: same_links_def)

lemma same_links_trans: "same_links h1 h2 \<Longrightarrow> same_links h2 h3 \<Longrightarrow> same_links h1 h3"
  by (simp add: same_links_def)

lemma same_links_ops [simp]:
  "same_links h (set_state st n h)" "same_links h (node_setup n h)" "same_links h (drop_one n v h)" "same_links h (graph_cancel g h)"
  "same_links h (upd_graph g (\<lambda>x. x\<lparr>entries := es\<rparr>) h)" "same_links h (upd_graph g (\<lambda>x. x\<lparr>instantiated := b\<rparr>) h)"
  "same_links h (graph_ref g h)" "same_links h (graph_deref g h)" "same_links h (Task_Priority n p h)"
  "(\<And>t. graph (f t) = graph (hflow h t)) \<Longrightarrow> same_links h (h\<lparr>hflow := f\<rparr>)"
  by (auto simp: same_links_def set_state_def node_setup_eq drop_one_def node_deref_def graph_cancel_def graph_ref_def
      graph_deref_def Task_Priority_def)

lemma same_links_setup: "same_links h (graph_setup g h)"
proof -
  have one: "same_links h (setup_one g n h)" for h n
    by (auto simp: setup_one_def Let_def same_links_def node_setup_eq)
  have "same_links h (fold (setup_one g) ns h)" for ns h
    by (induction ns arbitrary: h) (use one same_links_trans in \<open>simp, fastforce\<close>)
  moreover have "hflow (fold (\<lambda>n. upd_node n (\<lambda>x. x\<lparr>njoin := 0\<rparr>)) ns k) = hflow k" for ns k
    by (induction ns arbitrary: k) simp_all
  then have "same_links h (graph_reset g h)" by (simp add: same_links_def graph_reset_eq) (simp add: graph_reset_def)
  ultimately show ?thesis unfolding graph_setup_def Let_def using same_links_trans by blast
qed

lemma forest_same: "same_graphs h h' \<Longrightarrow> same_types h h' \<Longrightarrow> same_links h h' \<Longrightarrow> forest h \<Longrightarrow> forest h'"
  by (simp add: same_graphs_def same_types_def same_links_def forest_def)

lemma unconditional_same: "same_types h h' \<Longrightarrow> unconditional h \<Longrightarrow> unconditional h'"
  by (simp add: same_types_def unconditional_def)

lemma act_same_links:
  assumes "act s p p' h q l es sg"
  shows "(same_graphs (heap s) h \<and> same_types (heap s) h \<and> same_links (heap s) h) \<or>
    (\<exists>n sp g d ok. p = Handle (SubflowC n sp g) d \<and> p' = Defer (SubflowC n sp g) d ok)"
proof -
  have "same_links (heap s) h \<or> (\<exists>n sp g d ok. p = Handle (SubflowC n sp g) d \<and> p' = Defer (SubflowC n sp g) d ok)"
    using assms
  proof cases
    case (a_gsetup g zs k)
    then show ?thesis using same_links_trans [OF same_links_setup [of "heap s" g] same_links_ops(5)] by simp
  next
    case (a_defer_sub n q g sp ok)
    then show ?thesis using same_links_trans [OF same_links_ops(4) same_links_ops(4), of "heap s" g "graph_of s n"] by simp
  qed auto
  with act_same_graphs [OF assms] show ?thesis by blast
qed

section \<open>Building keeps the forest\<close>

lemma forest_precede: "forest h \<Longrightarrow> forest (precede u v h)"
  by (auto simp: forest_def)

lemma forest_branch: "forest h \<Longrightarrow> forest (upd_node u (\<lambda>x. x\<lparr>ptr := branch_put v (ptr x)\<rparr>) h)"
proof -
  have "ptr (hnode (upd_node u (\<lambda>x. x\<lparr>ptr := branch_put v (ptr x)\<rparr>) h) m) = PSubflow g \<longleftrightarrow> ptr (hnode h m) = PSubflow g" for m g
    by (auto simp: branch_put_def split: node_ptr.splits)
  then show "forest h \<Longrightarrow> ?thesis" by (auto simp: forest_def)
qed

lemma forest_fold: "(\<And>v h. forest h \<Longrightarrow> forest (f v h)) \<Longrightarrow> forest h \<Longrightarrow> forest (fold f vs h)"
  by (induction vs arbitrary: h) auto

lemma subflow_call_forest:
  assumes f: "forest h" and t: "typed h" and l: "layered h" and g: "g < gnext h"
  shows "forest (subflow_call g c h)"
proof (cases c)
  case (BPrecede u ts)
  let ?h = "fold (\<lambda>v. upd_node u (\<lambda>x. x\<lparr>ptr := branch_put v (ptr x)\<rparr>)) ts h"
  have b: "forest ?h" by (rule forest_fold [OF forest_branch f])
  have "forest (fold (precede u) ts ?h)" by (rule forest_fold [OF forest_precede b])
  moreover have "forest (fold (precede u) ts h)" by (rule forest_fold [OF forest_precede f])
  ultimately show ?thesis using BPrecede by (simp add: Task_Precede_def Let_def split: node_ptr.splits)
next
  case (BSucceed u ts)
  have "forest (fold (\<lambda>v. precede v u) ts h)" by (rule forest_fold [OF forest_precede f])
  with BSucceed show ?thesis by (simp add: Task_Succeed_def)
next
  case (BPriority u p)
  with f show ?thesis by (auto simp: forest_def Task_Priority_def)
next
  case (BTask name ns)
  have new: "v \<in> set (successors (hnode h u)) \<Longrightarrow> v < nnext h" "n \<in> set (gnodes (hgraph h g)) \<Longrightarrow> n < nnext h" for u v n g
    using typedD(2,3) [OF t] by (auto simp: allocated_def)
  with f BTask show ?thesis
    by (fastforce simp: forest_def case_prod_unfold Let_def NewStatic_def newNode_def graph_push_def nil_node_def)
next
  case (BCondition name ns)
  have new: "v \<in> set (successors (hnode h u)) \<Longrightarrow> v < nnext h" "n \<in> set (gnodes (hgraph h g)) \<Longrightarrow> n < nnext h" for u v n g
    using typedD(2,3) [OF t] by (auto simp: allocated_def)
  with f BCondition show ?thesis
    by (fastforce simp: forest_def case_prod_unfold Let_def NewCondition_def newNode_def graph_push_def nil_node_def)
next
  case (BSubflow name ns)
  have new: "v \<in> set (successors (hnode h u)) \<Longrightarrow> v < nnext h" "n \<in> set (gnodes (hgraph h g)) \<Longrightarrow> n < nnext h" for u v n g
    using typedD(2,3) [OF t] by (auto simp: allocated_def)
  moreover have "ptr (hnode h n) = PSubflow k \<Longrightarrow> k < gnext h" for n k using l by (auto simp: layered_def grounded_def)
  ultimately show ?thesis using f g BSubflow
    by (fastforce simp: forest_def case_prod_unfold Let_def NewSubflow_def newNode_def newGraph_def graph_push_def nil_node_def
        nil_graph_def less_SucI)
qed

lemma built_forest: "built h \<Longrightarrow> forest h"
proof (induction rule: built.induct)
  case empty
  show ?case by (simp add: forest_def empty_heap_def nil_node_def nil_graph_def)
next
  case (flow h name t h')
  then have h': "h' = snd (NewTaskFlow name h)" by simp
  have "ptr (hnode h n) = PSubflow k \<Longrightarrow> k < gnext h" for n k
    using built_layered [OF flow.hyps(1)] by (auto simp: layered_def grounded_def)
  with flow.IH h' show ?case
    by (fastforce simp: forest_def NewTaskFlow_def newGraph_def Let_def nil_graph_def less_SucI)
next
  case (reset h t)
  then show ?case by (auto simp: forest_def TaskFlow_Reset_def)
next
  case (tf_call h t c h')
  then have "h' = subflow_call (graph (hflow h t)) c h" using taskflow_call_Inr by blast
  with subflow_call_forest [OF tf_call.IH built_typed built_layered [THEN conjunct1] tf_call.hyps(3)] tf_call.hyps(1) show ?case by simp
next
  case (sf_call h g c)
  then show ?case using subflow_call_forest [OF sf_call.IH built_typed built_layered [THEN conjunct1] sf_call.hyps(3)] by simp
qed

section \<open>Subflow functions that use their own subflow\<close>

text \<open>The function of a subflow adds tasks and subflows to its subflow and links tasks of its own.\<close>

fun own_build :: "heap \<Rightarrow> gid \<Rightarrow> build \<Rightarrow> bool" where
  "own_build h g (BPrecede u ts) = list_all (\<lambda>v. ngraph (hnode h v) = g) (u # ts)"
| "own_build h g (BSucceed u ts) = list_all (\<lambda>v. ngraph (hnode h v) = g) (u # ts)"
| "own_build h g (BCondition name ns) = False"
| "own_build h g _ = True"

fun own_builds :: "heap \<Rightarrow> gid \<Rightarrow> build list \<Rightarrow> bool" where
  "own_builds h g [] = True"
| "own_builds h g (c # cs) = (own_build h g c \<and> own_builds (subflow_call g c h) g cs)"

fun instantiates_own :: "sys \<Rightarrow> pc \<Rightarrow> choice \<Rightarrow> bool" where
  "instantiates_own s (Handle (SubflowC n p g) sp) (Instantiate cs ok) = own_builds (heap s) g cs"
| "instantiates_own s p ch = True"

lemma own_inside: "own_builds h g cs \<Longrightarrow> builds_inside h g cs"
proof (induction cs arbitrary: h)
  case (Cons c cs)
  then show ?case by (cases c) (auto simp: list_all_iff)
qed simp

lemma instantiates_own_inside: "instantiates_own s p ch \<Longrightarrow> instantiates_inside s p ch"
  by (cases "(s, p, ch)" rule: instantiates_own.cases) (auto simp: own_inside)

text \<open>What it leaves alone: the states of all nodes, and the dependents of those of other graphs.\<close>

definition builds_own :: "gid \<Rightarrow> heap \<Rightarrow> heap \<Rightarrow> bool" where
  "builds_own g h h' \<longleftrightarrow> nnext h \<le> nnext h' \<and> unconditional h' \<and>
     (\<forall>n. allocated h n \<longrightarrow> ngraph (hnode h' n) = ngraph (hnode h n) \<and> nstate (hnode h' n) = nstate (hnode h n) \<and>
        njoin (hnode h' n) = njoin (hnode h n) \<and> ptr (hnode h' n) = ptr (hnode h n) \<and>
        (dependents (hnode h n) \<noteq> [] \<longrightarrow> dependents (hnode h' n) \<noteq> []) \<and>
        (ngraph (hnode h n) \<noteq> g \<longrightarrow> dependents (hnode h' n) = dependents (hnode h n) \<and>
          successors (hnode h' n) = successors (hnode h n))) \<and>
     (\<forall>t. graph (hflow h' t) = graph (hflow h t)) \<and> (\<forall>k. instantiated (hgraph h' k) \<longrightarrow> instantiated (hgraph h k))"

lemma builds_own_trans:
  assumes "builds_own g h1 h2" "builds_own g h2 h3"
  shows "builds_own g h1 h3"
proof -
  have "allocated h2 n" if "allocated h1 n" for n
    using that assms(1) allocated_mono [of h1 h2 n] by (simp add: builds_own_def)
  with assms show ?thesis unfolding builds_own_def by (auto intro: le_trans)
qed

lemma precede_counters [simp]:
  "nstate (hnode (precede u v h) n) = nstate (hnode h n)" "njoin (hnode (precede u v h) n) = njoin (hnode h n)"
  by (simp_all add: precede_def)

lemma fold_precede_own:
  "nnext (fold (precede u) ts h) = nnext h \<and> hflow (fold (precede u) ts h) = hflow h \<and> hgraph (fold (precede u) ts h) = hgraph h \<and>
   njoin (hnode (fold (precede u) ts h) n) = njoin (hnode h n) \<and>
   (n \<noteq> u \<longrightarrow> successors (hnode (fold (precede u) ts h) n) = successors (hnode h n)) \<and>
   ptr (hnode (fold (precede u) ts h) n) = ptr (hnode h n) \<and>
   ngraph (hnode (fold (precede u) ts h) n) = ngraph (hnode h n) \<and> nstate (hnode (fold (precede u) ts h) n) = nstate (hnode h n) \<and>
   (dependents (hnode h n) \<noteq> [] \<longrightarrow> dependents (hnode (fold (precede u) ts h) n) \<noteq> []) \<and>
   (n \<notin> set ts \<longrightarrow> dependents (hnode (fold (precede u) ts h) n) = dependents (hnode h n))"
proof (induction ts arbitrary: h)
  case (Cons v ts)
  from Cons.IH [of "precede u v h"] show ?case by auto
qed simp

lemma fold_succeed_own:
  "nnext (fold (\<lambda>v. precede v u) ts h) = nnext h \<and> hflow (fold (\<lambda>v. precede v u) ts h) = hflow h \<and>
   hgraph (fold (\<lambda>v. precede v u) ts h) = hgraph h \<and> njoin (hnode (fold (\<lambda>v. precede v u) ts h) n) = njoin (hnode h n) \<and>
   (n \<notin> set ts \<longrightarrow> successors (hnode (fold (\<lambda>v. precede v u) ts h) n) = successors (hnode h n)) \<and>
   ptr (hnode (fold (\<lambda>v. precede v u) ts h) n) = ptr (hnode h n) \<and>
   ngraph (hnode (fold (\<lambda>v. precede v u) ts h) n) = ngraph (hnode h n) \<and> nstate (hnode (fold (\<lambda>v. precede v u) ts h) n) = nstate (hnode h n) \<and>
   (dependents (hnode h n) \<noteq> [] \<longrightarrow> dependents (hnode (fold (\<lambda>v. precede v u) ts h) n) \<noteq> []) \<and>
   (n \<noteq> u \<longrightarrow> dependents (hnode (fold (\<lambda>v. precede v u) ts h) n) = dependents (hnode h n))"
proof (induction ts arbitrary: h)
  case (Cons v ts)
  from Cons.IH [of "precede v u h"] show ?case by auto
qed simp

lemma subflow_call_own:
  assumes u: "unconditional h" and o: "own_build h g c"
  shows "builds_own g h (subflow_call g c h)"
proof (cases c)
  case (BPrecede u ts)
  have "ptr (hnode h u) \<noteq> PCondition m" for m using u by (simp add: unconditional_def)
  then have h': "subflow_call g c h = fold (precede u) ts h" using BPrecede by (auto simp: Task_Precede_def Let_def split: node_ptr.splits)
  have "n \<notin> set ts \<and> n \<noteq> u" if "ngraph (hnode h n) \<noteq> g" for n using o BPrecede that by (auto simp: list_all_iff)
  then show ?thesis unfolding h' builds_own_def unconditional_def
    using u by (simp add: fold_precede_own unconditional_def)
next
  case (BSucceed u ts)
  then have h': "subflow_call g c h = fold (\<lambda>v. precede v u) ts h" by (simp add: Task_Succeed_def)
  have "n \<notin> set ts \<and> n \<noteq> u" if "ngraph (hnode h n) \<noteq> g" for n using o BSucceed that by (auto simp: list_all_iff)
  then show ?thesis unfolding h' builds_own_def unconditional_def
    using u by (simp add: fold_succeed_own unconditional_def)
next
  case (BTask name ns)
  with u show ?thesis
    by (auto simp: builds_own_def unconditional_def allocated_def case_prod_unfold Let_def NewStatic_def newNode_def graph_push_def nil_node_def)
next
  case (BSubflow name ns)
  with u show ?thesis
    by (auto simp: builds_own_def unconditional_def allocated_def case_prod_unfold Let_def NewSubflow_def newNode_def newGraph_def
        graph_push_def nil_node_def nil_graph_def split: if_splits)
next
  case (BPriority u p)
  with u show ?thesis by (auto simp: builds_own_def unconditional_def Task_Priority_def)
qed (use o in simp)

lemma subflow_calls_own: "unconditional h \<Longrightarrow> own_builds h g cs \<Longrightarrow> builds_own g h (fold (subflow_call g) cs h)"
proof (induction cs arbitrary: h)
  case (Cons c cs)
  have o: "builds_own g h (subflow_call g c h)" using subflow_call_own Cons.prems by simp
  moreover from this have "unconditional (subflow_call g c h)" by (simp add: builds_own_def)
  ultimately show ?case using Cons.IH [of "subflow_call g c h"] Cons.prems(2) builds_own_trans by auto
qed (simp add: builds_own_def)

lemma subflow_calls_forest:
  "forest h \<Longrightarrow> typed h \<Longrightarrow> layered h \<Longrightarrow> g < gnext h \<Longrightarrow> builds_ok h g cs \<Longrightarrow> forest (fold (subflow_call g) cs h)"
proof (induction cs arbitrary: h)
  case (Cons c cs)
  have b: "builds_on h (subflow_call g c h)" by (rule subflow_call_builds [OF Cons.prems(4)])
  have "forest (subflow_call g c h)" by (rule subflow_call_forest [OF Cons.prems(1-4)])
  moreover have "typed (subflow_call g c h)" using subflow_call_typed Cons.prems(2,5) by simp
  ultimately show ?case using Cons.IH [of "subflow_call g c h"] Cons.prems b by (simp add: builds_on_def)
qed simp

section \<open>Nodes on their way\<close>

text \<open>How often a node is on its way at a goroutine: from the moment it is chosen to be scheduled until the
  one who executes it sets it up again.\<close>

fun gk_ahead :: "nid \<Rightarrow> gkont \<Rightarrow> nat" where
  "gk_ahead n (GMain cs) = 0"
| "gk_ahead n (GSub c sp) = of_bool (cnode c = n)"

fun sk_ahead :: "nid \<Rightarrow> skont \<Rightarrow> nat" where
  "sk_ahead n (KLoop g k) = gk_ahead n k"
| "sk_ahead n (KSucc c) = 0"
| "sk_ahead n (KCond c sp) = of_bool (cnode c = n)"

fun ahead :: "nid \<Rightarrow> pc \<Rightarrow> nat" where
  "ahead n (GSetup g k) = gk_ahead n k"
| "ahead n (Schedule ns k) = count_list ns n + sk_ahead n k"
| "ahead n (PRef m ns k) = count_list (m # ns) n + sk_ahead n k"
| "ahead n (PPut m ns k) = count_list (m # ns) n + sk_ahead n k"
| "ahead n (LCheck g k) = gk_ahead n k"
| "ahead n (LWait g k) = gk_ahead n k"
| "ahead n (LPop g k) = gk_ahead n k"
| "ahead n (LInvoke m g k) = of_bool (m = n) + gk_ahead n k"
| "ahead n (LLeave g k) = gk_ahead n k"
| "ahead n (Body c) = of_bool (cnode c = n)"
| "ahead n (Handle c sp) = of_bool (cnode c = n)"
| "ahead n (Defer c sp ok) = of_bool (cnode c = n)"
| "ahead n (Drop c vs) = of_bool (cnode c = n)"
| "ahead n (Succs c vs cs) = of_bool (cnode c = n) + count_list cs n"
| "ahead n (NSetup c cs) = of_bool (cnode c = n) + count_list cs n"
| "ahead n p = 0"

definition queued_ahead :: "nid \<Rightarrow> nid list \<Rightarrow> closure list \<Rightarrow> nat" where
  "queued_ahead n q l = count_list q n + count_list (map cnode l) n"

definition all_ahead :: "nid \<Rightarrow> sys \<Rightarrow> nat" where
  "all_ahead n s = total (ahead n) s + queued_ahead n (items (wq s)) (pool_items (epool s))"

lemma wait_blind_ahead [simp]: "wait_blind (ahead n)"
  by (simp add: wait_blind_def)

lemma after_schedule_ahead: "ahead n (after_schedule k) \<le> sk_ahead n k"
  by (cases k) auto

lemma distinct_count_1: "distinct xs \<Longrightarrow> count_list xs n \<le> 1"
  by (induction xs) auto

lemma count_list_perm: "mset xs = mset ys \<Longrightarrow> count_list xs n = count_list ys n"
  by (metis count_mset)

lemma act_ahead:
  assumes "act s p p' h q l es sg" "\<not> is_crashed p'" "unconditional (heap s)"
  shows "(\<forall>g k. p \<noteq> GSetup g k) \<and> (\<forall>c cs. p = NSetup c cs \<longrightarrow> cnode c = n \<longrightarrow>
        ahead n p' + queued_ahead n q l < ahead n p + queued_ahead n (items (wq s)) (pool_items (epool s))) \<and>
      ahead n p' + queued_ahead n q l \<le> ahead n p + queued_ahead n (items (wq s)) (pool_items (epool s)) \<or>
    (\<exists>g k zs. p = GSetup g k \<and> p' = Schedule zs (KLoop g k) \<and> q = items (wq s) \<and> l = pool_items (epool s) \<and>
        is_sort (graph_setup g (heap s)) (entries (hgraph (graph_setup g (heap s)) g)) zs) \<or>
    (\<exists>c vs cs. p = Succs c (n # vs) cs \<and> p' = Succs c vs (cs @ [n]) \<and> nstate (hnode (heap s) n) = kNodeStateIdle \<and>
        q = items (wq s) \<and> l = pool_items (epool s) \<and> h = set_state kNodeStateWaiting n (heap s))"
  using assms(1)
proof cases
  case (a_choose m v u c p sp)
  with assms(3) show ?thesis by (auto simp: unconditional_def)
next
  case (a_invoke m k c g)
  then show ?thesis using make_closure_fits [of "heap s" m "kont_span k" c] by (auto simp: queued_ahead_def)
next
  case (a_nsetup cs zs c)
  then have "count_list zs n = count_list cs n" by (intro count_list_perm) (simp add: is_sort_def)
  with a_nsetup show ?thesis by (auto simp: queued_ahead_def)
next
  case (a_sched_done k)
  then show ?thesis using after_schedule_ahead [of n k] by (auto simp: queued_ahead_def)
next
  case (a_sched_skip m ns k)
  then show ?thesis using after_schedule_ahead [of n k] by (auto simp: queued_ahead_def)
next
  case (a_cand v c vs cs)
  then show ?thesis by (cases "v = n") (auto simp: queued_ahead_def)
qed (use assms(2) in \<open>auto simp: queued_ahead_def\<close>)

text \<open>Graphs of the flows a goroutine runs or will run.\<close>

fun call_graphs :: "heap \<Rightarrow> call list \<Rightarrow> gid list" where
  "call_graphs h [] = []"
| "call_graphs h (Run tf # cs) = graph (hflow h tf) # call_graphs h cs"
| "call_graphs h (Wait # cs) = call_graphs h cs"

fun gk_graphs :: "heap \<Rightarrow> gid \<Rightarrow> gkont \<Rightarrow> gid list" where
  "gk_graphs h g (GMain cs) = g # call_graphs h cs"
| "gk_graphs h g (GSub c sp) = []"

fun sk_graphs :: "heap \<Rightarrow> skont \<Rightarrow> gid list" where
  "sk_graphs h (KLoop g k) = gk_graphs h g k"
| "sk_graphs h k = []"

fun main_graphs :: "heap \<Rightarrow> pc \<Rightarrow> gid list" where
  "main_graphs h (Client cs) = call_graphs h cs"
| "main_graphs h (GSetup g k) = gk_graphs h g k"
| "main_graphs h (Schedule ns k) = sk_graphs h k"
| "main_graphs h (PRef n ns k) = sk_graphs h k"
| "main_graphs h (PPut n ns k) = sk_graphs h k"
| "main_graphs h (LCheck g k) = gk_graphs h g k"
| "main_graphs h (LWait g k) = gk_graphs h g k"
| "main_graphs h (LPop g k) = gk_graphs h g k"
| "main_graphs h (LInvoke n g k) = gk_graphs h g k"
| "main_graphs h (LLeave g k) = gk_graphs h g k"
| "main_graphs h p = []"

definition mains :: "heap \<Rightarrow> gid \<Rightarrow> pc \<Rightarrow> nat" where
  "mains h g p = of_bool (g \<in> set (main_graphs h p))"

lemma wait_blind_mains [simp]: "wait_blind (mains h g)"
  by (simp add: wait_blind_def mains_def)

lemma after_schedule_graphs [simp]: "main_graphs h (after_schedule k) = sk_graphs h k"
  by (cases k) auto

lemma act_mains:
  assumes "act s p p' h q l es sg"
  shows "set (main_graphs (heap s) p') \<subseteq> set (main_graphs (heap s) p)"
  using assms by cases auto

text \<open>No goroutine is inside a condition.\<close>

fun plain_pc :: "pc \<Rightarrow> bool" where
  "plain_pc (CSetup c) = False"
| "plain_pc p = list_all (\<lambda>c. \<not> is_condition c) (pc_closures p)"

lemma make_closure_plain: "unconditional h \<Longrightarrow> make_closure h n sp = Some c \<Longrightarrow> \<not> is_condition c"
  by (auto simp: make_closure_def unconditional_def split: node_ptr.splits)

lemma plain_pc_closures: "plain_pc p \<Longrightarrow> list_all (\<lambda>c. \<not> is_condition c) (pc_closures p)"
  by (cases p) auto

lemma act_plain:
  assumes "act s p p' h q l es sg" "plain_pc p" "list_all (\<lambda>c. \<not> is_condition c) (pool_items (epool s))" "unconditional (heap s)"
  shows "plain_pc p' \<and> list_all (\<lambda>c. \<not> is_condition c) l"
  using assms(1)
proof cases
  case (a_sched_done k)
  with assms(2,3) show ?thesis by (cases k) auto
next
  case (a_sched_skip n ns k)
  with assms(2,3) show ?thesis by (cases k) auto
next
  case (a_invoke n k c g)
  with assms(2,3) make_closure_plain [OF assms(4)] show ?thesis by auto
qed (use assms(2,3) in auto)

text \<open>The nodes a goroutine may still schedule as successors have dependents.\<close>

fun awaited :: "heap \<Rightarrow> pc \<Rightarrow> bool" where
  "awaited h (Succs c vs cs) = (\<forall>v \<in> set vs. dependents (hnode h v) \<noteq> [])"
| "awaited h p = True"

lemma act_awaited:
  assumes "act s p p' h q l es sg" "awaited (heap s) p" "forest (heap s)"
  shows "awaited (heap s) p'"
  using assms(1)
proof cases
  case (a_sched_done k)
  with assms(2) show ?thesis by (cases k) auto
next
  case (a_sched_skip n ns k)
  with assms(2) show ?thesis by (cases k) auto
qed (use assms(2) forestD(1) [OF assms(3)] in auto)

text \<open>A transition makes a node idle only when the node or its graph is set up.\<close>

lemma act_state:
  assumes "act s p p' h q l es sg"
  shows "nstate (hnode h n) = nstate (hnode (heap s) n) \<or> nstate (hnode h n) \<noteq> kNodeStateIdle \<or>
    (\<exists>c cs. p = NSetup c cs \<and> cnode c = n) \<or> (\<exists>c. p = CSetup c) \<or> (\<exists>g k. p = GSetup g k) \<or>
    (\<exists>m q g sp. p = Handle (SubflowC m q g) sp)"
  using assms by cases (auto simp: set_state_def drop_one_def node_deref_def node_setup_eq graph_ref_def graph_deref_def graph_cancel_def
      kNodeState_distinct)

section \<open>Once at a time\<close>

definition flow_graphs :: "heap \<Rightarrow> pc \<Rightarrow> bool" where
  "flow_graphs h p \<longleftrightarrow> (\<forall>g \<in> set (main_graphs h p). \<exists>t. graph (hflow h t) = g)"

definition once :: "sys \<Rightarrow> bool" where
  "once s \<longleftrightarrow> forest (heap s) \<and> unconditional (heap s) \<and>
     (\<forall>p \<in> set (threads s). awaited (heap s) p \<and> plain_pc p \<and> flow_graphs (heap s) p) \<and>
     list_all (\<lambda>c. \<not> is_condition c) (pool_items (epool s)) \<and> (\<forall>g. total (mains (heap s) g) s \<le> 1) \<and>
     (\<forall>n. all_ahead n s \<le> 1) \<and>
     (\<forall>n. 0 < all_ahead n s \<longrightarrow> nstate (hnode (heap s) n) \<noteq> kNodeStateIdle \<or> dependents (hnode (heap s) n) = [])"

lemma onceD:
  assumes "once s"
  shows "forest (heap s)" "unconditional (heap s)" "p \<in> set (threads s) \<Longrightarrow> awaited (heap s) p"
    "p \<in> set (threads s) \<Longrightarrow> plain_pc p" "p \<in> set (threads s) \<Longrightarrow> flow_graphs (heap s) p"
    "list_all (\<lambda>c. \<not> is_condition c) (pool_items (epool s))" "total (mains (heap s) g) s \<le> 1" "all_ahead n s \<le> 1"
    "0 < all_ahead n s \<Longrightarrow> nstate (hnode (heap s) n) \<noteq> kNodeStateIdle \<or> dependents (hnode (heap s) n) = []"
  using assms unfolding once_def by blast+

text \<open>Who runs the loop of a graph: a client of its flow, or the one inside its subflow.\<close>

lemma gk_loops: "gk_ok g k \<Longrightarrow> g \<in> set (gk_graphs h g k) \<or> (\<exists>n q. k = GSub (SubflowC n q g) (kont_span k))"
  by (cases k) auto

lemma loops_by:
  assumes "kont_ok p" "0 < loops g p"
  shows "g \<in> set (main_graphs h p) \<or> (\<exists>n q. SubflowC n q g \<in> set (pc_closures p) \<and> 0 < ahead n p)"
proof (cases p)
  case (Schedule ns k)
  with assms obtain k' where k: "k = KLoop g k'" by (cases k) (auto split: if_splits)
  with assms Schedule gk_loops [of g k' h] show ?thesis by (cases k') auto
next
  case (PRef n ns k)
  with assms obtain k' where k: "k = KLoop g k'" by (cases k) (auto split: if_splits)
  with assms PRef gk_loops [of g k' h] show ?thesis by (cases k') auto
next
  case (PPut n ns k)
  with assms obtain k' where k: "k = KLoop g k'" by (cases k) (auto split: if_splits)
  with assms PPut gk_loops [of g k' h] show ?thesis by (cases k') auto
next
  case (LCheck g' k)
  with assms show ?thesis by (cases k) (auto split: if_splits)
next
  case (LWait g' k)
  with assms show ?thesis by (cases k) (auto split: if_splits)
next
  case (LPop g' k)
  with assms show ?thesis by (cases k) (auto split: if_splits)
next
  case (LInvoke n g' k)
  with assms show ?thesis by (cases k) (auto split: if_splits)
qed (use assms in auto)

text \<open>A node on its way is in flight, or its graph is being run.\<close>

lemma ahead_live:
  assumes "pc_fits h p" "0 < ahead n p"
  shows "0 < loops (ngraph (hnode h n)) p \<or>
    (\<exists>m \<in> set (pc_carried p @ map cnode (pc_closures p)). ngraph (hnode h m) = ngraph (hnode h n))"
proof -
  have ns: "n \<in> set ns" if "0 < count_list ns n" for ns using that by (metis count_notin less_irrefl)
  have gk: "n \<in> set (map cnode (gk_closures k))" if "0 < gk_ahead n k" for k using that by (cases k) (auto split: if_splits)
  have sk: "n \<in> set (map cnode (sk_closures k))" if "0 < sk_ahead n k" for k using that gk by (cases k) (auto split: if_splits)
  have sched: "0 < sk_loops (ngraph (hnode h n)) k \<or> (\<exists>m \<in> set (map cnode (sk_closures k)). ngraph (hnode h m) = ngraph (hnode h n))"
    if "n \<in> set ns" "all_in h (sk_graph h k) ns" for ns k
    using that by (cases k) (auto simp: all_in_def)
  show ?thesis
  proof (cases p)
    case (Schedule ns k)
    then have "n \<in> set ns \<or> 0 < sk_ahead n k" using assms(2) ns by fastforce
    with Schedule assms(1) sched [of ns k] sk [of k] show ?thesis by (fastforce simp: pc_fits_def)
  next
    case (PRef m ns k)
    then have "n \<in> set (m # ns) \<or> 0 < sk_ahead n k" using assms(2) ns [of ns] by (auto split: if_splits)
    with PRef assms(1) sched [of "m # ns" k] sk [of k] show ?thesis by (fastforce simp: pc_fits_def)
  next
    case (PPut m ns k)
    then have "n \<in> set (m # ns) \<or> 0 < sk_ahead n k" using assms(2) ns [of ns] by (auto split: if_splits)
    with PPut assms(1) sched [of "m # ns" k] sk [of k] show ?thesis by (fastforce simp: pc_fits_def)
  next
    case (Succs c vs cs)
    then have "n = cnode c \<or> n \<in> set cs" using assms(2) ns [of cs] by (auto split: if_splits)
    with Succs assms(1) show ?thesis by (auto simp: pc_fits_def all_in_def)
  next
    case (NSetup c cs)
    then have "n = cnode c \<or> n \<in> set cs" using assms(2) ns [of cs] by (auto split: if_splits)
    with NSetup assms(1) show ?thesis by (auto simp: pc_fits_def all_in_def)
  next
    case (LInvoke m g k)
    then have "n = m \<or> 0 < gk_ahead n k" using assms(2) by (auto split: if_splits)
    with LInvoke gk [of k] show ?thesis by force
  qed (use assms(2) gk in \<open>force split: if_splits\<close>)+
qed

lemma all_ahead_live:
  assumes "fits s" "0 < all_ahead n s"
  shows "0 < total (loops (graph_of s n)) s \<or> 0 < inflight (graph_of s n) s"
proof (rule ccontr)
  assume "\<not> ?thesis"
  then have z: "total (loops (graph_of s n)) s = 0" "inflight (graph_of s n) s = 0" by simp_all
  note i = inflight_0 [OF z(2)]
  have "ahead n p = 0" if p: "p \<in> set (threads s)" for p
  proof (rule ccontr)
    assume "ahead n p \<noteq> 0"
    moreover have "pc_fits (heap s) p" using assms(1) p unfolding fits_def by blast
    moreover have "loops (graph_of s n) p = 0" using z(1) p by (auto simp: total_0)
    ultimately obtain m where "m \<in> set (pc_carried p @ map cnode (pc_closures p))" "graph_of s m = graph_of s n"
      using ahead_live [of "heap s" p n] by (auto simp: graph_of_def)
    with i(3) p show False by auto
  qed
  then have "total (ahead n) s = 0" by (simp add: total_0)
  moreover have "count_list (items (wq s)) n = 0" using i(1) by (metis count_notin)
  moreover have "n \<notin> set (map cnode (pool_items (epool s)))" using i(2) by auto
  then have "count_list (map cnode (pool_items (epool s))) n = 0" by (rule count_notin)
  ultimately show False using assms(2) by (simp add: all_ahead_def queued_ahead_def)
qed

text \<open>The graph that a goroutine sets up, or whose subflow function it calls, is quiet.\<close>

lemma quiet_graph:
  assumes o: "once s" and f: "flowing s" and un: "\<forall>g. \<not> is_canceled s g" and i: "i < length (threads s)"
    and p: "threads s ! i = GSetup g k \<or> threads s ! i = Handle (SubflowC n q g) sp"
  shows "total (loops g) s = 0 \<and> inflight g s = 0 \<and> (\<forall>m. graph_of s m = g \<longrightarrow> all_ahead m s = 0)"
proof -
  have mem: "threads s ! i \<in> set (threads s)" using i by simp
  have fit: "pc_fits (heap s) x" if "x \<in> set (threads s)" for x using flowingD(1) [OF f] that unfolding fits_def by blast
  have me: "g \<in> set (main_graphs (heap s) (threads s ! i)) \<or>
      (\<exists>m. ptr (hnode (heap s) m) = PSubflow g \<and> 0 < ahead m (threads s ! i))"
    using p
  proof
    assume h: "threads s ! i = Handle (SubflowC n q g) sp"
    with fit [OF mem] show ?thesis by (auto simp: pc_fits_def)
  next
    assume h: "threads s ! i = GSetup g k"
    with fit [OF mem] show ?thesis by (cases k) (auto simp: pc_fits_def)
  qed
  have z: "total (loops g) s = 0"
  proof (rule ccontr)
    assume "total (loops g) s \<noteq> 0"
    then obtain j where j: "j < length (threads s)" "0 < loops g (threads s ! j)" by (auto simp: total_0 in_set_conv_nth)
    have ij: "i \<noteq> j" using j(2) p by auto
    have jm: "threads s ! j \<in> set (threads s)" using j(1) by simp
    have F: "\<exists>t. graph (hflow (heap s) t) = g" if "g \<in> set (main_graphs (heap s) x)" "x \<in> set (threads s)" for x
      using onceD(5) [OF o that(2)] that(1) by (auto simp: flow_graphs_def)
    have you: "g \<in> set (main_graphs (heap s) (threads s ! j)) \<or>
        (\<exists>m. ptr (hnode (heap s) m) = PSubflow g \<and> 0 < ahead m (threads s ! j))"
      using loops_by [OF _ j(2), of "heap s"] fit [OF jm] by (fastforce simp: pc_fits_def list_all_iff)
    show False
    proof (cases "g \<in> set (main_graphs (heap s) (threads s ! i))")
      case True
      then obtain t where "graph (hflow (heap s) t) = g" using F mem by blast
      then have "g \<in> set (main_graphs (heap s) (threads s ! j))" using you forestD(4) [OF onceD(1) [OF o]] by blast
      with True total_two [OF i j(1) ij, of "mains (heap s) g"] onceD(7) [OF o, of g] show False by (simp add: mains_def)
    next
      case False
      then obtain m where m: "ptr (hnode (heap s) m) = PSubflow g" "0 < ahead m (threads s ! i)" using me by blast
      then have "g \<notin> set (main_graphs (heap s) (threads s ! j))" using F jm forestD(4) [OF onceD(1) [OF o]] by blast
      then obtain m' where m': "ptr (hnode (heap s) m') = PSubflow g" "0 < ahead m' (threads s ! j)" using you by blast
      have "m' = m" by (rule forestD(3) [OF onceD(1) [OF o] m'(1) m(1)])
      with total_two [OF i j(1) ij, of "ahead m"] m(2) m'(2) onceD(8) [OF o, of m] show False by (simp add: all_ahead_def)
    qed
  qed
  moreover from this have fl: "inflight g s = 0" using flowingD(3) [OF f, of g] un by (cases "inflight g s = 0") auto
  moreover have "all_ahead m s = 0" if "graph_of s m = g" for m
    using all_ahead_live [OF flowingD(1) [OF f], of m] z fl that by (cases "all_ahead m s = 0") auto
  ultimately show ?thesis by blast
qed

section \<open>Every step keeps each node once\<close>

text \<open>What a step does to the nodes that exist.\<close>

definition step_nodes :: "sys \<Rightarrow> nat \<Rightarrow> sys \<Rightarrow> bool" where
  "step_nodes s i t \<longleftrightarrow> forest (heap t) \<and> unconditional (heap t) \<and> (\<forall>f. graph (hflow (heap t) f) = graph (hflow (heap s) f)) \<and>
     (\<forall>n. allocated (heap s) n \<longrightarrow> graph_of t n = graph_of s n \<and>
        (dependents (hnode (heap s) n) \<noteq> [] \<longrightarrow> dependents (hnode (heap t) n) \<noteq> []) \<and>
        ptr (hnode (heap t) n) = ptr (hnode (heap s) n) \<and>
        (dependents (hnode (heap t) n) = dependents (hnode (heap s) n) \<and> successors (hnode (heap t) n) = successors (hnode (heap s) n) \<or>
          (\<exists>m q sp. threads s ! i = Handle (SubflowC m q (graph_of s n)) sp)) \<and>
        ((\<exists>c sp. threads s ! i = Handle c sp) \<longrightarrow> njoin (hnode (heap t) n) = njoin (hnode (heap s) n) \<and>
          (nstate (hnode (heap t) n) = nstate (hnode (heap s) n) \<or>
            nstate (hnode (heap t) n) \<noteq> kNodeStateIdle \<and> (\<exists>c sp. threads s ! i = Handle c sp \<and> cnode c = n)))) \<and>
     (\<forall>k. instantiated (hgraph (heap t) k) \<longrightarrow> instantiated (hgraph (heap s) k) \<or>
        (\<exists>m q sp. threads s ! i = Handle (SubflowC m q k) sp))"

lemma set_state_nodes [simp]:
  "dependents (hnode (set_state k m h) n) = dependents (hnode h n)" "ngraph (hnode (set_state k m h) n) = ngraph (hnode h n)"
  "ptr (hnode (set_state k m h) n) = ptr (hnode h n)" "nstate (hnode (set_state k m h) n) = (if n = m then k else nstate (hnode h n))"
  "njoin (hnode (set_state k m h) n) = njoin (hnode h n)" "successors (hnode (set_state k m h) n) = successors (hnode h n)"
  "hflow (set_state k m h) = hflow h" "hgraph (set_state k m h) = hgraph h"
  by (auto simp: set_state_def)

lemma build_step_nodes:
  assumes h: "threads s ! i = Handle (SubflowC m q g) sp" and i: "i < length (threads s)"
    and st: "handle_step s i (SubflowC m q g) sp ch = Some t" and e: "event_ok s (i, ch, now)"
    and own: "instantiates_own s (threads s ! i) ch" and wt: "well_typed s" and g: "g < gnext (heap s)"
    and l: "layered (heap s)" and f: "forest (heap s)" and u: "unconditional (heap s)"
  shows "step_nodes s i t"
proof -
  let ?set = "set_state kNodeStateFinished m" and ?inst = "upd_graph g (\<lambda>x. x\<lparr>instantiated := True\<rparr>)"
  have ty: "typed (heap s)" using wt by (simp add: well_typed_def)
  have ops': "forest h' \<Longrightarrow> forest (?set h')" "forest h' \<Longrightarrow> forest (?inst h')" for h'
    by (rule forest_same; simp)+
  show ?thesis
  proof (cases "instantiated (hgraph (heap s) g)")
    case True
    with st have "heap t = ?set (heap s)" by (auto split: choice.splits)
    with f u h ops'(1) show ?thesis
      by (auto simp: step_nodes_def unconditional_def graph_of_def kNodeState_distinct)
  next
    case False
    with st obtain cs b where ch: "ch = Instantiate cs b" by (cases ch) auto
    let ?h = "fold (subflow_call g) cs (heap s)"
    have b: "builds_own g (heap s) ?h" by (rule subflow_calls_own [OF u]) (use own h ch in simp)
    have fo: "forest ?h" by (rule subflow_calls_forest [OF f ty l g]) (use e h i ch in auto)
    from st False ch consider "heap t = ?set (?inst ?h)" | "heap t = ?h" by (auto simp: Let_def split: if_splits)
    then show ?thesis
    proof cases
      case 1
      with b fo h ops' show ?thesis
        by (auto simp: step_nodes_def builds_own_def unconditional_def graph_of_def kNodeState_distinct)
    next
      case 2
      with b fo h show ?thesis by (auto simp: step_nodes_def builds_own_def graph_of_def)
    qed
  qed
qed

lemma act_handle:
  assumes "act s p p' h q l es sg" "p = Handle c sp" "\<not> is_subflow c"
  shows "njoin (hnode h n) = njoin (hnode (heap s) n) \<and> (nstate (hnode h n) = nstate (hnode (heap s) n) \<or>
    nstate (hnode h n) \<noteq> kNodeStateIdle \<and> cnode c = n)"
  using assms by cases (auto simp: kNodeState_distinct)

lemma graph_setup_instantiated: "instantiated (hgraph (graph_setup g h) g') \<longleftrightarrow> instantiated (hgraph h g')"
proof -
  have one: "instantiated (hgraph (setup_one g n h) g') \<longleftrightarrow> instantiated (hgraph h g')" for n h
    by (simp add: setup_one_def Let_def node_setup_eq)
  have "instantiated (hgraph (fold (setup_one g) ns h) g') \<longleftrightarrow> instantiated (hgraph h g')" for ns h
    by (induction ns arbitrary: h) (simp_all add: one)
  then show ?thesis by (simp add: graph_setup_def Let_def graph_reset_eq)
qed

lemma act_instantiated:
  assumes "act s p p' h q l es sg" "\<And>m q g sp. p \<noteq> Handle (SubflowC m q g) sp" "instantiated (hgraph h k)"
  shows "instantiated (hgraph (heap s) k)"
  using assms by cases (auto simp: graph_setup_instantiated drop_one_def node_deref_def node_setup_eq graph_ref_def graph_deref_def
      graph_cancel_def split: if_splits)

lemma step_step_nodes:
  assumes ad: "advances s i p' t es sg" and o: "once s" and st: "step s (i, ch, now) = Some t" and e: "event_ok s (i, ch, now)"
    and own: "instantiates_own s (threads s ! i) ch"
  shows "step_nodes s i t"
proof -
  note G = advancesD [OF ad]
  have p: "pc_step s i (threads s ! i) ch now = Some t" using st by (auto split: if_splits)
  show ?thesis
  proof (cases "\<exists>m q g sp. threads s ! i = Handle (SubflowC m q g) sp")
    case True
    then obtain m q g sp where h: "threads s ! i = Handle (SubflowC m q g) sp" by blast
    have "list_all (cl_ok (heap s)) (pc_closures (threads s ! i))" using poisedD(1) [OF G(1)] G(3) by (simp add: join_inv_def)
    then have g: "g < gnext (heap s)" using h by simp
    have l: "layered (heap s)" using flowingD(1) [OF G(2)] by (simp add: fits_def)
    show ?thesis by (rule build_step_nodes [OF h G(3) _ e own poisedD(2) [OF G(1)] g l onceD(1,2) [OF o]]) (use p h in simp)
  next
    case False
    with act_same_links [OF G(8)] have s: "same_graphs (heap s) (heap t)" "same_types (heap s) (heap t)" "same_links (heap s) (heap t)"
      by blast+
    have ha: "njoin (hnode (heap t) n) = njoin (hnode (heap s) n) \<and> (nstate (hnode (heap t) n) = nstate (hnode (heap s) n) \<or>
        nstate (hnode (heap t) n) \<noteq> kNodeStateIdle \<and> (\<exists>c sp. threads s ! i = Handle c sp \<and> cnode c = n))"
      if "threads s ! i = Handle c sp" for n c sp
    proof -
      have "\<not> is_subflow c" using that False by (cases c) auto
      from act_handle [OF G(8) that this, of n] that show ?thesis by auto
    qed
    have "instantiated (hgraph (heap s) k)" if "instantiated (hgraph (heap t) k)" for k
      using act_instantiated [OF G(8) _ that] False by blast
    moreover have "successors (hnode (heap t) n) = successors (hnode (heap s) n)" for n using s(2) by (simp add: same_types_def)
    ultimately show ?thesis
      using forest_same [OF s onceD(1) [OF o]] unconditional_same [OF s(2) onceD(2) [OF o]] s(1,3) ha unfolding step_nodes_def
      by (simp add: graph_of_def same_graphs_def same_links_def) blast
  qed
qed

lemma ahead_allocated:
  assumes "join_inv s" "well_typed s" "0 < all_ahead n s"
  shows "allocated (heap s) n"
proof -
  have ns: "n \<in> set ns" if "0 < count_list ns n" for ns using that by (metis count_notin less_irrefl)
  have gk: "n \<in> set (map cnode (gk_closures k))" if "0 < gk_ahead n k" for k using that by (cases k) (auto split: if_splits)
  have sk: "n \<in> set (map cnode (sk_closures k))" if "0 < sk_ahead n k" for k using that gk by (cases k) (auto split: if_splits)
  have cl: "allocated (heap s) m" if "list_all (cl_ok (heap s)) cs" "m \<in> set (map cnode cs)" for cs m
    using that cl_ok_allocated by (auto simp: list_all_iff)
  have "allocated (heap s) n" if p: "p \<in> set (threads s)" "0 < ahead n p" for p
  proof -
    have ty: "pc_typed (heap s) p" "list_all (cl_ok (heap s)) (pc_closures p)" using assms(1,2) p(1) by (auto simp: well_typed_def join_inv_def)
    show ?thesis
    proof (cases p)
      case (Schedule ms k)
      then have "n \<in> set ms \<or> 0 < sk_ahead n k" using p(2) ns by fastforce
      with Schedule ty sk [of k] cl [of "sk_closures k" n] show ?thesis by (auto simp: list_all_iff)
    next
      case (PRef m ms k)
      then have "n \<in> set (m # ms) \<or> 0 < sk_ahead n k" using p(2) ns [of ms] by (auto split: if_splits)
      with PRef ty sk [of k] cl [of "sk_closures k" n] show ?thesis by (auto simp: list_all_iff)
    next
      case (PPut m ms k)
      then have "n \<in> set (m # ms) \<or> 0 < sk_ahead n k" using p(2) ns [of ms] by (auto split: if_splits)
      with PPut ty sk [of k] cl [of "sk_closures k" n] show ?thesis by (auto simp: list_all_iff)
    next
      case (Succs c vs cs)
      then have "n = cnode c \<or> n \<in> set cs" using p(2) ns [of cs] by (auto split: if_splits)
      with Succs ty cl_ok_allocated show ?thesis by (auto simp: list_all_iff)
    next
      case (NSetup c cs)
      then have "n = cnode c \<or> n \<in> set cs" using p(2) ns [of cs] by (auto split: if_splits)
      with NSetup ty cl_ok_allocated show ?thesis by (auto simp: list_all_iff)
    next
      case (LInvoke m g k)
      then have "n = m \<or> 0 < gk_ahead n k" using p(2) by (auto split: if_splits)
      with LInvoke ty gk [of k] cl [of "gk_closures k" n] show ?thesis by auto
    qed (use p(2) ty gk cl [of _ n] cl_ok_allocated in \<open>fastforce split: if_splits\<close>)+
  qed
  moreover have "allocated (heap s) n" if "0 < queued_ahead n (items (wq s)) (pool_items (epool s))"
  proof -
    from that have "n \<in> set (items (wq s)) \<or> n \<in> set (map cnode (pool_items (epool s)))" unfolding queued_ahead_def using ns by fastforce
    with assms(1,2) cl [of "pool_items (epool s)" n] show ?thesis by (auto simp: well_typed_def join_inv_def list_all_iff)
  qed
  moreover have "total (ahead n) s \<noteq> 0 \<or> 0 < queued_ahead n (items (wq s)) (pool_items (epool s))" using assms(3) by (auto simp: all_ahead_def)
  ultimately show ?thesis by (auto simp: total_0)
qed

text \<open>How the number of goroutines that have a node on its way changes.\<close>

lemma advances_ahead:
  assumes ad: "advances s i p' t es sg" and o: "once s" and un: "\<forall>g. \<not> is_canceled s g"
  shows "all_ahead n t \<le> all_ahead n s \<and> (\<forall>g k. threads s ! i \<noteq> GSetup g k) \<and>
      (\<forall>c cs. threads s ! i = NSetup c cs \<longrightarrow> cnode c = n \<longrightarrow> all_ahead n t < all_ahead n s) \<or>
    (\<exists>g k. threads s ! i = GSetup g k \<and> (if graph_of s n = g then all_ahead n s = 0 \<and> all_ahead n t \<le> 1 \<and>
        (0 < all_ahead n t \<longrightarrow> dependents (hnode (heap s) n) = []) else all_ahead n t = all_ahead n s)) \<or>
    (\<exists>c vs cs. threads s ! i = Succs c (n # vs) cs \<and> all_ahead n s = 0 \<and> all_ahead n t = 1 \<and>
        nstate (hnode (heap t) n) \<noteq> kNodeStateIdle)"
proof -
  note G = advancesD [OF ad]
  have mem: "threads s ! i \<in> set (threads s)" using G(3) by simp
  have tot: "total (ahead n) t + ahead n (threads s ! i) = total (ahead n) s + ahead n p'"
    by (rule acts_total_0 [OF G(4,3)]) simp_all
  from act_ahead [OF G(8,6) onceD(2) [OF o], of n]
  consider (less) "\<forall>g k. threads s ! i \<noteq> GSetup g k"
      "\<forall>c cs. threads s ! i = NSetup c cs \<longrightarrow> cnode c = n \<longrightarrow> ahead n p' + queued_ahead n (items (wq t)) (pool_items (epool t)) <
         ahead n (threads s ! i) + queued_ahead n (items (wq s)) (pool_items (epool s))"
      "ahead n p' + queued_ahead n (items (wq t)) (pool_items (epool t)) \<le>
         ahead n (threads s ! i) + queued_ahead n (items (wq s)) (pool_items (epool s))"
    | (enter) g k zs where "threads s ! i = GSetup g k" "p' = Schedule zs (KLoop g k)" "items (wq t) = items (wq s)"
        "pool_items (epool t) = pool_items (epool s)" "is_sort (graph_setup g (heap s)) (entries (hgraph (graph_setup g (heap s)) g)) zs"
    | (cand) c vs cs where "threads s ! i = Succs c (n # vs) cs" "p' = Succs c vs (cs @ [n])"
        "nstate (hnode (heap s) n) = kNodeStateIdle" "items (wq t) = items (wq s)" "pool_items (epool t) = pool_items (epool s)"
        "heap t = set_state kNodeStateWaiting n (heap s)"
    by blast
  then show ?thesis
  proof cases
    case less
    have "all_ahead n t \<le> all_ahead n s" using tot less(3) unfolding all_ahead_def by linarith
    moreover have "all_ahead n t < all_ahead n s" if "threads s ! i = NSetup c cs" "cnode c = n" for c cs
      using tot less(2) that unfolding all_ahead_def by fastforce
    ultimately show ?thesis using less(1) by blast
  next
    case enter
    have eq: "all_ahead n t = all_ahead n s + count_list zs n" using tot enter(1-4) by (simp add: all_ahead_def)
    have d: "distinct (gnodes (hgraph (heap s) g))" using forestD(2) [OF onceD(1) [OF o]] .
    let ?es = "filter (\<lambda>n. dependents (hnode (heap s) n) = []) (gnodes (hgraph (heap s) g))"
    have "mset zs = mset ?es" using enter(5) by (simp add: is_sort_def graph_setup_hgraph [OF d])
    then have c: "count_list zs n = count_list ?es n" by (rule count_list_perm)
    have le: "count_list ?es n \<le> 1" using d by (intro distinct_count_1) simp
    show ?thesis
    proof (cases "graph_of s n = g")
      case True
      with quiet_graph [OF o G(2) un G(3) disjI1 [OF enter(1)]] have z: "all_ahead n s = 0" by blast
      have "dependents (hnode (heap s) n) = []" if "0 < all_ahead n t"
      proof -
        from that eq z c have "n \<in> set ?es" by (metis add_0 count_notin less_irrefl)
        then show ?thesis by simp
      qed
      with True z eq c le enter(1) show ?thesis by auto
    next
      case False
      have "n \<notin> set (gnodes (hgraph (heap s) g))" using flowingD(1) [OF G(2)] False by (auto simp: fits_def layered_def graph_of_def)
      then have "n \<notin> set ?es" by simp
      then have "count_list ?es n = 0" by (rule count_notin)
      with eq c False enter(1) show ?thesis by auto
    qed
  next
    case cand
    have "dependents (hnode (heap s) n) \<noteq> []" using onceD(3) [OF o mem] cand(1) by simp
    with onceD(9) [OF o, of n] cand(3) have "all_ahead n s = 0" by auto
    moreover have "all_ahead n t = all_ahead n s + 1" using tot cand(1,2,4,5) by (simp add: all_ahead_def)
    moreover have "nstate (hnode (heap t) n) \<noteq> kNodeStateIdle" by (simp add: cand(6) kNodeState_distinct)
    ultimately show ?thesis using cand(1) by auto
  qed
qed

lemma after_schedule_Succs [simp]: "after_schedule k \<noteq> Succs c vs cs" "Succs c vs cs \<noteq> after_schedule k"
  by (cases k; simp)+

lemma advances_once:
  assumes ad: "advances s i p' t es sg" and o: "once s" and un: "\<forall>g. \<not> is_canceled s g"
    and sn: "step_nodes s i t"
  shows "once t"
proof -
  note G = advancesD [OF ad]
  have mem: "threads s ! i \<in> set (threads s)" using G(3) by simp
  have J: "join_inv s" "well_typed s" using poisedD(1,2) [OF G(1)] .
  have H: "forest (heap t)" "unconditional (heap t)" "\<And>f. graph (hflow (heap t) f) = graph (hflow (heap s) f)"
    using sn by (simp_all add: step_nodes_def)
  have dep: "dependents (hnode (heap t) v) \<noteq> []" if "allocated (heap s) v" "dependents (hnode (heap s) v) \<noteq> []" for v
    using sn that by (simp add: step_nodes_def)
  have cg: "call_graphs (heap t) cs = call_graphs (heap s) cs" for cs
  proof (induction cs)
    case (Cons c cs)
    then show ?case by (cases c) (simp_all add: H(3))
  qed simp
  have gg: "gk_graphs (heap t) g k = gk_graphs (heap s) g k" for g k by (cases k) (simp_all add: cg)
  have sk: "sk_graphs (heap t) k = sk_graphs (heap s) k" for k by (cases k) (simp_all add: gg)
  have mg: "main_graphs (heap t) p = main_graphs (heap s) p" for p by (cases p) (simp_all add: cg gg sk)
  have fg: "flow_graphs (heap t) p = flow_graphs (heap s) p" for p by (simp add: flow_graphs_def mg H(3))
  have aw: "awaited (heap t) p" if "awaited (heap s) p" "pc_typed (heap s) p" for p
    using that dep by (cases p) (auto simp: list_all_iff)
  have new: "awaited (heap s) p'" "plain_pc p' \<and> list_all (\<lambda>c. \<not> is_condition c) (pool_items (epool t))" "flow_graphs (heap s) p'"
    using act_awaited [OF G(8) onceD(3) [OF o mem] onceD(1) [OF o]] act_plain [OF G(8) onceD(4) [OF o mem] onceD(6,2) [OF o]]
      onceD(5) [OF o mem] act_mains [OF G(8)] unfolding flow_graphs_def by blast+
  have ok: "awaited (heap t) p \<and> plain_pc p \<and> flow_graphs (heap t) p" if p: "p \<in> set (threads t)" for p
  proof -
    have old: "awaited (heap t) q \<and> plain_pc q \<and> flow_graphs (heap t) q" if "q \<in> set (threads s)" for q
      using aw [OF onceD(3) [OF o that]] onceD(4,5) [OF o that] J(2) that by (simp add: fg well_typed_def)
    have "awaited (heap t) p'"
    proof (cases "\<exists>c vs cs. p' = Succs c vs cs")
      case True
      then obtain c vs cs where p': "p' = Succs c vs cs" by blast
      have "typed (heap s)" using J(2) by (simp add: well_typed_def)
      then have "list_all (allocated (heap s)) vs"
      proof -
        have "set vs \<subseteq> set (successors (hnode (heap s) (cnode c))) \<or> (\<exists>v vs' cs'. threads s ! i = Succs c vs' cs' \<and> set vs \<subseteq> set vs')"
          using G(8) by cases (use p' in \<open>auto split: if_splits\<close>)
        moreover have "pc_typed (heap s) (threads s ! i)" using J(2) mem by (simp add: well_typed_def)
        ultimately show ?thesis using typedD(3) [OF \<open>typed (heap s)\<close>] by (fastforce simp: list_all_iff)
      qed
      with new(1) p' dep show ?thesis by (auto simp: list_all_iff)
    next
      case False
      then show ?thesis by (cases p') auto
    qed
    with new have here: "awaited (heap t) p' \<and> plain_pc p' \<and> flow_graphs (heap t) p'" by (simp add: fg)
    have poll: "flow_graphs (heap t) WPoll" by (simp add: flow_graphs_def)
    from acts_other [OF G(4) p] show ?thesis
    proof (elim disjE exE conjE)
      fix j g k
      assume "j < length (threads s)" "p = LCheck g k" "threads s ! j = LWait g k"
      with old [of "LWait g k"] show ?thesis by (auto simp: flow_graphs_def dest!: nth_mem)
    qed (use old here poll in auto)
  qed
  have "total (mains (heap t) g) t \<le> 1" for g
  proof -
    have e: "mains (heap t) g = mains (heap s) g" by (rule ext) (simp add: mains_def mg)
    have "total (mains (heap s) g) t + mains (heap s) g (threads s ! i) = total (mains (heap s) g) s + mains (heap s) g p'"
      by (rule acts_total_0 [OF G(4,3)]) (simp_all add: mains_def)
    moreover have "mains (heap s) g p' \<le> mains (heap s) g (threads s ! i)" using act_mains [OF G(8)] by (auto simp: mains_def)
    ultimately show ?thesis using onceD(7) [OF o, of g] unfolding e by linarith
  qed
  moreover have "all_ahead n t \<le> 1 \<and> (0 < all_ahead n t \<longrightarrow> nstate (hnode (heap t) n) \<noteq> kNodeStateIdle \<or> dependents (hnode (heap t) n) = [])" for n
    using advances_ahead [OF ad o un, of n]
  proof (elim disjE conjE exE)
    assume le: "all_ahead n t \<le> all_ahead n s" and ng: "\<forall>g k. threads s ! i \<noteq> GSetup g k"
      and ns: "\<forall>c cs. threads s ! i = NSetup c cs \<longrightarrow> cnode c = n \<longrightarrow> all_ahead n t < all_ahead n s"
    have le1: "all_ahead n t \<le> 1" using le onceD(8) [OF o, of n] by linarith
    show ?thesis
    proof (intro conjI le1 impI)
      assume pos: "0 < all_ahead n t"
      then have pos': "0 < all_ahead n s" using le by linarith
      have al: "allocated (heap s) n" by (rule ahead_allocated [OF J pos'])
      have no: "threads s ! i \<noteq> Handle (SubflowC m q (graph_of s n)) sp" for m q sp
      proof
        assume "threads s ! i = Handle (SubflowC m q (graph_of s n)) sp"
        with quiet_graph [OF o G(2) un G(3), of "graph_of s n" "GMain []" m q sp] pos' show False by auto
      qed
      have de: "dependents (hnode (heap t) n) = dependents (hnode (heap s) n)" using sn al no unfolding step_nodes_def by blast
      have "nstate (hnode (heap t) n) = nstate (hnode (heap s) n) \<or> nstate (hnode (heap t) n) \<noteq> kNodeStateIdle"
        using act_state [OF G(8), of n]
      proof (elim disjE exE conjE)
        fix c cs assume "threads s ! i = NSetup c cs" "cnode c = n"
        with ns pos onceD(8) [OF o, of n] show ?thesis by fastforce
      next
        fix c assume "threads s ! i = CSetup c"
        with onceD(4) [OF o mem] show ?thesis by simp
      next
        fix m q g sp assume "threads s ! i = Handle (SubflowC m q g) sp"
        with sn al show ?thesis by (auto simp: step_nodes_def)
      qed (use ng in auto)
      with de onceD(9) [OF o pos'] show "nstate (hnode (heap t) n) \<noteq> kNodeStateIdle \<or> dependents (hnode (heap t) n) = []" by auto
    qed
  next
    fix g k
    assume g: "threads s ! i = GSetup g k" and c: "if graph_of s n = g then all_ahead n s = 0 \<and> all_ahead n t \<le> 1 \<and>
        (0 < all_ahead n t \<longrightarrow> dependents (hnode (heap s) n) = []) else all_ahead n t = all_ahead n s"
    have s: "same_links (heap s) (heap t)" using act_same_links [OF G(8)] g by auto
    show ?thesis
    proof (cases "graph_of s n = g")
      case True
      with c s show ?thesis by (simp add: same_links_def)
    next
      case False
      have d: "distinct (gnodes (hgraph (heap s) g))" using forestD(2) [OF onceD(1) [OF o]] .
      have "n \<notin> set (gnodes (hgraph (heap s) g))" using flowingD(1) [OF G(2)] False by (auto simp: fits_def layered_def graph_of_def)
      with G(8) g have "nstate (hnode (heap t) n) = nstate (hnode (heap s) n)" by cases (auto simp: graph_setup_hnode [OF d])
      with False c s onceD(8,9) [OF o, of n] show ?thesis by (simp add: same_links_def)
    qed
  qed simp_all
  ultimately show ?thesis using H(1,2) ok new(2) unfolding once_def by blast
qed

section \<open>Nested flows complete\<close>

text \<open>No flow is run by two clients.\<close>

definition apart :: "heap \<Rightarrow> call list list \<Rightarrow> bool" where
  "apart h clients \<longleftrightarrow> (\<forall>g. length (filter (\<lambda>cs. g \<in> set (call_graphs h cs)) clients) \<le> 1)"

text \<open>Runs in which subflow functions use their own subflow, without conditions.\<close>

inductive forks :: "sys \<Rightarrow> sys \<Rightarrow> bool" for s0 where
  start: "forks s0 s0"
| step: "forks s0 s \<Longrightarrow> event_ok s (i, ch, now) \<Longrightarrow> instantiates_own s (threads s ! i) ch \<Longrightarrow> step s (i, ch, now) = Some t \<Longrightarrow>
    load t < 2 ^ 32 \<Longrightarrow> forks s0 t"

lemma forks_reach_ok: "forks s0 s \<Longrightarrow> reach_ok s0 s"
  by (induction rule: forks.induct) (auto intro: reach_ok.intros)

lemma start_once:
  assumes "NewExecutor c opts now h clients = Inr s0" "built h" "unconditional h" "apart h clients"
  shows "once s0"
proof -
  have s: "threads s0 = map Client clients" "heap s0 = h" "items (wq s0) = []" "pool_items (epool s0) = []"
    using assms(1) by (auto simp: NewExecutor_def NewCopool_def comp_def NewQueue_inv split: if_splits)
  have "total (mains h g) s0 = length (filter (\<lambda>cs. g \<in> set (call_graphs h cs)) clients)" for g
  proof -
    have "sum_list (map (\<lambda>cs. of_bool (g \<in> set (call_graphs h cs)) :: nat) cl) = length (filter (\<lambda>cs. g \<in> set (call_graphs h cs)) cl)" for cl
      by (induction cl) simp_all
    then show ?thesis by (simp add: total_def s(1) comp_def mains_def)
  qed
  moreover have "total (ahead n) s0 = 0" for n by (auto simp: total_0 s(1))
  moreover have "\<exists>t. graph (hflow h t) = g" if "g \<in> set (call_graphs h cs)" for g cs
    using that by (induction cs rule: call_graphs.induct [of _ h]) auto
  ultimately show ?thesis
    using assms(2-4) built_forest [OF assms(2)] by (auto simp: once_def apart_def s all_ahead_def queued_ahead_def flow_graphs_def)
qed

lemma forks_tidy:
  assumes new: "NewExecutor c opts now h clients = Inr s0" "built h" "edges_inside h" "unconditional h" "apart h clients"
    and "forks s0 s" "\<forall>n. HPanic n \<notin> set (hist s)"
  shows "tidy s0 s \<and> once s"
  using assms(6,7)
proof (induction rule: forks.induct)
  case start
  show ?case using start_once [OF new(1,2,4,5)] tidy.start by blast
next
  case (step s i ch now' t)
  have fr: "fresh_executor s0" using new(1) unfolding fresh_executor_def by blast
  have i: "i < length (threads s)" using step.hyps(4) by (auto split: if_splits)
  have "accounts s"
    using reach_accounts [OF reach_ok_reach [OF forks_reach_ok [OF step.hyps(1)]] fr] crashed_stuck step.hyps(4) by fastforce
  then obtain p' es sg where "acts s i p' t es sg" using step_acts [OF _ step.hyps(4)] by blast
  then have np: "\<forall>n. HPanic n \<notin> set (hist s)" using step.prems by (auto simp: acts_def)
  with step.IH have IH: "tidy s0 s" "once s" by blast+
  have C: "poised s" "flowing s" using tidy_flows [OF new(1,2) IH(1) new(3)] by blast+
  have un: "\<forall>g. \<not> is_canceled s g" using tidy_panics [OF new(1,2) IH(1) np] by blast
  have quiet: "total (loops g) s = 0 \<and> inflight g s = 0" if "threads s ! i = GSetup g k" for g k
    using quiet_graph [OF IH(2) C(2) un i disjI1 [OF that]] by blast
  obtain p' es sg where ad: "advances s i p' t es sg"
    by (rule tidy_advances [OF IH(1) fr C step.hyps(2,4) quiet])
  have "once t"
    by (rule advances_once [OF ad IH(2) un step_step_nodes [OF ad IH(2) step.hyps(4,2,3)]])
  moreover have "tidy s0 t"
    by (rule tidy.step [OF IH(1) step.hyps(2) instantiates_own_inside [OF step.hyps(3)] step.hyps(4) quiet step.hyps(5)])
  ultimately show ?case by blast
qed



text \<open>A subflow of one task on two workers.\<close>

fun forks_run :: "sys \<Rightarrow> event list \<Rightarrow> sys option" where
  "forks_run s [] = Some s"
| "forks_run s ((i, ch, now) # es) =
     (if instantiates_ok s (threads s ! i) ch \<and> instantiates_own s (threads s ! i) ch
      then (case step s (i, ch, now) of None \<Rightarrow> None | Some t \<Rightarrow> if load t < 20 then forks_run t es else None) else None)"

lemma forks_run_forks: "forks_run s es = Some t \<Longrightarrow> forks s0 s \<Longrightarrow> forks s0 t"
proof (induction es arbitrary: s)
  case (Cons e es)
  obtain i ch now where e: "e = (i, ch, now)" by (cases e) auto
  obtain u where u: "instantiates_ok s (threads s ! i) ch" "instantiates_own s (threads s ! i) ch" "step s e = Some u" "load u < 20"
    "forks_run u es = Some t"
    using Cons.prems(1) unfolding e forks_run.simps by (auto split: if_splits option.splits)
  have "event_ok s e" using u(1) e by (cases ch) auto
  moreover have "load u < 2 ^ 32" using u(4) by simp
  ultimately have "forks s0 u" using u(2,3) e by (intro forks.step [OF Cons.prems(2), of i ch now]) auto
  with Cons.IH [OF u(5)] show ?case .
qed simp

lemma sub_flow_forks:
  "NewExecutor 2 [] 0 sub_flow [[Run 1, Wait]] = Inr (demo 2 sub_flow [Run 1, Wait])" "unconditional sub_flow"
  "apart sub_flow [[Run 1, Wait]]"
proof -
  show "NewExecutor 2 [] 0 sub_flow [[Run 1, Wait]] = Inr (demo 2 sub_flow [Run 1, Wait])" by (simp add: demo_def NewExecutor_def)
  show "unconditional sub_flow"
    by (simp add: unconditional_def sub_flow_def NewTaskFlow_def newGraph_def empty_heap_def Let_def NewSubflow_def newNode_def
        graph_push_def nil_node_def)
  show "apart sub_flow [[Run 1, Wait]]" by (simp add: apart_def)
qed



end
