(* ===== verification/Static_Clients.thy ===== *)
theory Static_Clients
  imports Static_Termination Static_Trace
begin

text \<open>
  Programs that use the library: the flow a list of building calls makes, and what the user functions
  of its tasks compute together. A user function changes the variables it shares with the others at
  one moment between its call and its return; so the changes of a run are in an order that respects
  every return that precedes a call, and otherwise is open (\<open>effect_order\<close>). The lemmas say that in a
  completed run this is a topological order of all tasks, whatever the interleaving was.
\<close>

section \<open>Flows of static tasks, built by calls\<close>

fun plain :: "build \<Rightarrow> bool" where
  "plain (BSubflow name ns) = False"
| "plain (BCondition name ns) = False"
| "plain _ = True"

text \<open>Calls that name only tasks made before: \<open>k\<close> is the number of tasks so far.\<close>

fun calls_ok :: "nat \<Rightarrow> build list \<Rightarrow> bool" where
  "calls_ok k [] = True"
| "calls_ok k (BTask name ns # cs) = calls_ok (k + 1) cs"
| "calls_ok k (BPrecede t ts # cs) = (list_all (\<lambda>n. 0 < n \<and> n \<le> k) (t # ts) \<and> calls_ok k cs)"
| "calls_ok k (BSucceed t ts # cs) = (list_all (\<lambda>n. 0 < n \<and> n \<le> k) (t # ts) \<and> calls_ok k cs)"
| "calls_ok k (BPriority t p # cs) = (0 < t \<and> t \<le> k \<and> calls_ok k cs)"
| "calls_ok k (c # cs) = False"

fun tasks_of :: "build list \<Rightarrow> nat" where
  "tasks_of [] = 0"
| "tasks_of (BTask name ns # cs) = Suc (tasks_of cs)"
| "tasks_of (c # cs) = tasks_of cs"

fun edges_of :: "build list \<Rightarrow> (nid \<times> nid) list" where
  "edges_of [] = []"
| "edges_of (BPrecede t ts # cs) = map (\<lambda>v. (t, v)) ts @ edges_of cs"
| "edges_of (BSucceed t ts # cs) = map (\<lambda>v. (v, t)) ts @ edges_of cs"
| "edges_of (c # cs) = edges_of cs"

lemma calls_append:
  "tasks_of (xs @ ys) = tasks_of xs + tasks_of ys" "edges_of (xs @ ys) = edges_of xs @ edges_of ys"
  "calls_ok k (xs @ ys) \<longleftrightarrow> calls_ok k xs \<and> calls_ok (k + tasks_of xs) ys"
proof (induction xs arbitrary: k)
  case (Cons c cs)
  { case 1 show ?case using Cons by (cases c) auto next
    case 2 show ?case using Cons by (cases c) auto next
    case 3 show ?case using Cons by (cases c) auto }
qed simp_all

definition to_node :: "(nid \<times> nid) list \<Rightarrow> nid \<Rightarrow> nid list" where
  "to_node es m = map fst (filter (\<lambda>e. snd e = m) es)"

definition from_node :: "(nid \<times> nid) list \<Rightarrow> nid \<Rightarrow> nid list" where
  "from_node es n = map snd (filter (\<lambda>e. fst e = n) es)"

text \<open>The heap while a flow is built: \<open>k\<close> static tasks in graph 1 and the edges \<open>es\<close>.\<close>

definition plain_heap :: "heap \<Rightarrow> nat \<Rightarrow> (nid \<times> nid) list \<Rightarrow> bool" where
  "plain_heap h k es \<longleftrightarrow> built h \<and> nnext h = Suc k \<and> gnodes (hgraph h 1) = [1..<Suc k] \<and> gnext h = 2 \<and>
     graph (hflow h 1) = 1 \<and> \<not> frozen (hflow h 1) \<and> \<not> canceled (hgraph h 1) \<and>
     (\<forall>n. 0 < n \<and> n \<le> k \<longrightarrow> ptr (hnode h n) = PStatic) \<and>
     (\<forall>n. dependents (hnode h n) = to_node es n \<and> successors (hnode h n) = from_node es n)"

lemma plain_heap_new: "plain_heap (snd (NewTaskFlow name empty_heap)) 0 []"
  using flow_started [of name]
  by (auto simp: plain_heap_def NewTaskFlow_def newGraph_def empty_heap_def nil_node_def nil_graph_def
      to_node_def from_node_def)

lemma plain_heap_precede:
  assumes "plain_heap h k es" "0 < t" "t \<le> k" "list_all (\<lambda>n. 0 < n \<and> n \<le> k) ts"
  shows "plain_heap (fold (precede t) ts h) k (es @ map (\<lambda>v. (t, v)) ts)"
    and "plain_heap (fold (\<lambda>v. precede v t) ts h) k (es @ map (\<lambda>v. (v, t)) ts)"
proof -
  have e: "hgraph (fold (precede t) ts h) = hgraph h \<and> hflow (fold (precede t) ts h) = hflow h \<and>
      nnext (fold (precede t) ts h) = nnext h \<and> gnext (fold (precede t) ts h) = gnext h \<and>
      (\<forall>n. ptr (hnode (fold (precede t) ts h) n) = ptr (hnode h n) \<and>
        dependents (hnode (fold (precede t) ts h) n) = dependents (hnode h n) @ to_node (map (\<lambda>v. (t, v)) ts) n \<and>
        successors (hnode (fold (precede t) ts h) n) = successors (hnode h n) @ from_node (map (\<lambda>v. (t, v)) ts) n)" for ts h
    by (induction ts arbitrary: h) (simp_all add: to_node_def from_node_def)
  have f: "hgraph (fold (\<lambda>v. precede v t) ts h) = hgraph h \<and> hflow (fold (\<lambda>v. precede v t) ts h) = hflow h \<and>
      nnext (fold (\<lambda>v. precede v t) ts h) = nnext h \<and> gnext (fold (\<lambda>v. precede v t) ts h) = gnext h \<and>
      (\<forall>n. ptr (hnode (fold (\<lambda>v. precede v t) ts h) n) = ptr (hnode h n) \<and>
        dependents (hnode (fold (\<lambda>v. precede v t) ts h) n) = dependents (hnode h n) @ to_node (map (\<lambda>v. (v, t)) ts) n \<and>
        successors (hnode (fold (\<lambda>v. precede v t) ts h) n) = successors (hnode h n) @ from_node (map (\<lambda>v. (v, t)) ts) n)" for ts h
    by (induction ts arbitrary: h) (simp_all add: to_node_def from_node_def)
  have al: "allocated h t" "list_all (allocated h) ts"
    using assms by (auto simp: plain_heap_def allocated_def list_all_iff less_Suc_eq_le)
  have p: "ptr (hnode h t) = PStatic" using assms by (simp add: plain_heap_def)
  have "built (subflow_call 1 (BPrecede t ts) h)"
    using assms al by (intro built.sf_call) (simp_all add: plain_heap_def)
  then have b: "built (fold (precede t) ts h)" by (simp add: Task_Precede_def p)
  have "built (subflow_call 1 (BSucceed t ts) h)"
    using assms al by (intro built.sf_call) (simp_all add: plain_heap_def)
  then have b': "built (fold (\<lambda>v. precede v t) ts h)" by (simp add: Task_Succeed_def)
  show "plain_heap (fold (precede t) ts h) k (es @ map (\<lambda>v. (t, v)) ts)"
    using assms(1) b e [of ts h] unfolding plain_heap_def by (simp add: to_node_def from_node_def)
  show "plain_heap (fold (\<lambda>v. precede v t) ts h) k (es @ map (\<lambda>v. (v, t)) ts)"
    using assms(1) b' f [of ts h] unfolding plain_heap_def by (simp add: to_node_def from_node_def)
qed

lemma plain_heap_task:
  assumes "plain_heap h k es" "\<forall>(a, b) \<in> set es. a \<le> k \<and> b \<le> k"
  shows "\<exists>h'. taskflow_call 1 (BTask name ns) h = Inr h' \<and> plain_heap h' (Suc k) es"
proof -
  let ?h = "subflow_call 1 (BTask name ns) h"
  have "taskflow_call 1 (BTask name ns) h = Inr ?h"
    using assms(1) by (simp add: plain_heap_def TaskFlow_push_def case_prod_unfold Let_def NewStatic_def newNode_def)
  moreover have "built ?h" using assms(1) by (intro built.sf_call) (simp_all add: plain_heap_def)
  moreover have "to_node es (Suc k) = []" "from_node es (Suc k) = []"
    using assms(2) by (auto simp: to_node_def from_node_def filter_empty_conv)
  ultimately show ?thesis
    using assms(1) by (auto simp: plain_heap_def case_prod_unfold Let_def NewStatic_def newNode_def graph_push_def nil_node_def)
qed

lemma plain_heap_priority:
  assumes "plain_heap h k es" "0 < t" "t \<le> k"
  shows "plain_heap (Task_Priority t p h) k es"
proof -
  have "built (subflow_call 1 (BPriority t p) h)"
    using assms by (intro built.sf_call) (simp_all add: plain_heap_def allocated_def)
  with assms(1) show ?thesis by (auto simp: plain_heap_def Task_Priority_def)
qed

lemma plain_calls:
  "plain_heap h k es \<Longrightarrow> calls_ok k cs \<Longrightarrow> \<forall>(a, b) \<in> set es. a \<le> k \<and> b \<le> k \<Longrightarrow>
    \<exists>h'. taskflow_calls 1 cs h = Inr h' \<and> plain_heap h' (k + tasks_of cs) (es @ edges_of cs)"
proof (induction cs arbitrary: h k es)
  case (Cons c cs)
  show ?case
  proof (cases c)
    case (BTask name ns)
    obtain h1 where h1: "taskflow_call 1 (BTask name ns) h = Inr h1" "plain_heap h1 (Suc k) es"
      using plain_heap_task [OF Cons.prems(1,3)] by blast
    have "\<forall>(a, b) \<in> set es. a \<le> Suc k \<and> b \<le> Suc k" using Cons.prems(3) by auto
    with Cons.IH [OF h1(2) _ this] Cons.prems(2) BTask h1(1) show ?thesis by auto
  next
    case (BPrecede t ts)
    then have "plain_heap (Task_Precede t ts h) k (es @ map (\<lambda>v. (t, v)) ts)"
      using plain_heap_precede(1) [OF Cons.prems(1), of t ts] Cons.prems(1,2) by (simp add: Task_Precede_def plain_heap_def)
    from Cons.IH [OF this] Cons.prems(2,3) BPrecede show ?thesis by (auto simp: list_all_iff)
  next
    case (BSucceed t ts)
    then have "plain_heap (Task_Succeed t ts h) k (es @ map (\<lambda>v. (v, t)) ts)"
      using plain_heap_precede(2) [OF Cons.prems(1), of t ts] Cons.prems(2) by (simp add: Task_Succeed_def)
    from Cons.IH [OF this] Cons.prems(2,3) BSucceed show ?thesis by (auto simp: list_all_iff)
  next
    case (BPriority t p)
    with Cons.IH [OF plain_heap_priority [OF Cons.prems(1), of t p]] Cons.prems(2,3) show ?thesis by auto
  qed (use Cons.prems(2) in auto)
qed simp

text \<open>The flow a program builds: \<open>NewTaskFlow\<close> and the calls on it.\<close>

definition flow_heap :: "string \<Rightarrow> build list \<Rightarrow> heap" where
  "flow_heap name cs =
     (case taskflow_calls 1 cs (snd (NewTaskFlow name empty_heap)) of Inr h \<Rightarrow> h | Inl e \<Rightarrow> empty_heap)"

lemma flow_heap_plain:
  assumes "calls_ok 0 cs"
  shows "plain_heap (flow_heap name cs) (tasks_of cs) (edges_of cs)"
  using plain_calls [OF plain_heap_new assms, of name] by (auto simp: flow_heap_def)

lemma calls_ok_edges: "calls_ok k cs \<Longrightarrow> (a, b) \<in> set (edges_of cs) \<Longrightarrow> a \<in> {0<..k + tasks_of cs} \<and> b \<in> {0<..k + tasks_of cs}"
  by (induction k cs rule: calls_ok.induct) (auto simp: list_all_iff)

lemma flow_heap_static:
  assumes ok: "calls_ok 0 cs" and small: "tasks_of cs < 2 ^ 32" "length (edges_of cs) < 2 ^ 32"
  shows "static_flow (flow_heap name cs) 1"
proof -
  note p = flow_heap_plain [OF ok, of name, unfolded plain_heap_def]
  have "length (to_node es n) \<le> length es" for es n by (simp add: to_node_def)
  then have "length (to_node (edges_of cs) n) < 2 ^ 32" for n using small(2) order.strict_trans1 by blast
  moreover have "set (to_node (edges_of cs) n) \<subseteq> {0<..tasks_of cs}" "set (from_node (edges_of cs) n) \<subseteq> {0<..tasks_of cs}" for n
    using calls_ok_edges [OF ok] by (fastforce simp: to_node_def from_node_def)+
  moreover have "set (gnodes (hgraph (flow_heap name cs) 1)) = {0<..tasks_of cs}" "length (gnodes (hgraph (flow_heap name cs) 1)) = tasks_of cs"
    using p by (auto simp del: upt_Suc)
  moreover have "wf_heap (flow_heap name cs)" using p built_wf_heap by blast
  ultimately show ?thesis
    using p small(1) unfolding static_flow_def by (simp del: upt_Suc)
qed

text \<open>The edges have no cycle when a numbering of the tasks goes up along each of them.\<close>

lemma ranked_acyclic:
  assumes "\<And>a b. (a, b) \<in> r \<Longrightarrow> (f a :: nat) < f b"
  shows "acyclic r"
proof -
  have "r \<subseteq> measure f" using assms by auto
  then show ?thesis by (metis acyclic_subset wf_acyclic wf_measure)
qed

lemma flow_heap_acyclic:
  assumes "calls_ok 0 cs" "\<And>a b. (a, b) \<in> set (edges_of cs) \<Longrightarrow> (f a :: nat) < f b"
  shows "acyclic (edges (flow_heap name cs) 1)"
proof (rule ranked_acyclic)
  show "f a < f b" if "(a, b) \<in> edges (flow_heap name cs) 1" for a b
    using that flow_heap_plain [OF assms(1), of name] assms(2) [of a b]
    by (auto simp: edges_def plain_heap_def to_node_def)
qed

section \<open>What the tasks of a run compute\<close>

text \<open>The order in which the functions that have returned took effect: it agrees with the history
  wherever one function returned before another was called.\<close>

definition comes_before :: "nid list \<Rightarrow> nid \<Rightarrow> nid \<Rightarrow> bool" where
  "comes_before ns a b \<longleftrightarrow> (\<exists>j < length ns. ns ! j = b \<and> a \<in> set (take j ns))"

fun returned :: "hevent list \<Rightarrow> nid list" where
  "returned [] = []"
| "returned (HRet n # hs) = n # returned hs"
| "returned (e # hs) = returned hs"

lemma set_returned: "n \<in> set (returned hs) \<longleftrightarrow> HRet n \<in> set hs"
  by (induction hs rule: returned.induct) auto

text \<open>The nodes whose functions have been called, in the order of the calls.\<close>

fun called :: "hevent list \<Rightarrow> nid list" where
  "called [] = []"
| "called (HCall n # hs) = n # called hs"
| "called (e # hs) = called hs"

lemma called_append [simp]: "called (xs @ ys) = called xs @ called ys"
  by (induction xs rule: called.induct) auto

lemma called_iff: "n \<in> set (called hs) \<longleftrightarrow> HCall n \<in> set hs"
  by (induction hs rule: called.induct) auto

lemma count_called: "count_list (called hs) n = count_list hs (HCall n)"
  by (induction hs rule: called.induct) auto

definition effect_order :: "hevent list \<Rightarrow> nid list \<Rightarrow> bool" where
  "effect_order hs ns \<longleftrightarrow> distinct ns \<and> set ns = set (returned hs) \<and>
     (\<forall>i < length hs. \<forall>b \<in> set ns. hs ! i = HCall b \<longrightarrow> (\<forall>a \<in> set (returned (take i hs)). comes_before ns a b))"

text \<open>The effects of a list of functions on the shared variables; \<open>None\<close> is a panic.\<close>

fun perform :: "(nid \<Rightarrow> 'v \<Rightarrow> 'v option) \<Rightarrow> nid list \<Rightarrow> 'v \<Rightarrow> 'v option" where
  "perform act [] v = Some v"
| "perform act (n # ns) v = (case act n v of None \<Rightarrow> None | Some v' \<Rightarrow> perform act ns v')"

lemma perform_append:
  "perform act (ms @ ns) v = (case perform act ms v of None \<Rightarrow> None | Some v' \<Rightarrow> perform act ns v')"
  by (induction ms arbitrary: v) (auto split: option.splits)

lemma perform_topological:
  assumes "topological h ns" "distinct ns" "Inv {} v"
    and act: "\<And>D n v. Inv D v \<Longrightarrow> n \<in> set ns \<Longrightarrow> n \<notin> D \<Longrightarrow> D \<subseteq> set ns \<Longrightarrow> set (dependents (hnode h n)) \<subseteq> D \<Longrightarrow>
      \<exists>v'. act n v = Some v' \<and> Inv (insert n D) v'"
  shows "\<exists>v'. perform act ns v = Some v' \<and> Inv (set ns) v'"
proof -
  have "\<exists>v'. perform act (take j ns) v = Some v' \<and> Inv (set (take j ns)) v'" if "j \<le> length ns" for j
    using that
  proof (induction j)
    case (Suc j)
    then obtain v1 where v1: "perform act (take j ns) v = Some v1" "Inv (set (take j ns)) v1" by auto
    have j: "j < length ns" using Suc.prems by simp
    have "ns ! j \<notin> set (take j ns)"
      using assms(2) j by (metis distinct_take id_take_nth_drop not_distinct_conv_prefix)
    moreover have "set (dependents (hnode h (ns ! j))) \<subseteq> set (take j ns)"
      using assms(1) j by (simp add: topological_def)
    ultimately obtain v2 where "act (ns ! j) v1 = Some v2" "Inv (insert (ns ! j) (set (take j ns))) v2"
      using act [OF v1(2)] j by (metis nth_mem set_take_subset)
    with v1(1) j show ?case by (simp add: take_Suc_conv_app_nth perform_append)
  qed (simp add: assms(3))
  from this [of "length ns"] show ?thesis by simp
qed

lemma called_mem:
  assumes "roles h g s" "ends_in h g s" "told h g s" "HCall n \<in> set (hist s)"
  shows "n \<in> set (gnodes (hgraph h g))"
proof (cases "HEnd n \<in> set (hist s)")
  case True
  with assms(2) show ?thesis by (simp add: ends_in_def)
next
  case False
  have "0 < count_list (hist s) (HCall n)" using assms(4) by (simp add: count_list_0_iff flip: neq0_conv)
  moreover have "count_list (hist s) (HCall n) \<le> total (\<lambda>p. count_list (called_nodes p) n) s + count_list (hist s) (HEnd n)"
    using assms(3) unfolding told_def by blast
  ultimately have "0 < total (\<lambda>p. count_list (called_nodes p) n) s"
    using False count_notin [of "HEnd n" "hist s"] by simp
  then obtain p where p: "p \<in> set (threads s)" "count_list (called_nodes p) n \<noteq> 0" by (rule total_nonzero)
  then have "0 < count_list (pc_nodes p) n" using called_nodes_le [of p n] by simp
  then have "n \<in> set (pc_nodes p)" by (metis count_notin less_irrefl)
  with p(1) assms(1) show ?thesis by (auto simp: roles_def)
qed

lemma completed_effects:
  assumes "starts_flow h g s0" "\<not> canceled (hgraph h g)" "acyclic (edges h g)"
    and "reach s0 s" "stuck s" "\<And>n. HPanic n \<notin> set (hist s)" "effect_order (hist s) ns"
  shows "topological h ns" "set ns = set (gnodes (hgraph h g))"
proof -
  have l: "live_inv h g s" and a: "accounts s" using stuck_reach [OF assms(1,4,5,2)] by auto
  then have nc: "\<not> is_canceled s g" using assms(6) by (auto simp: live_inv_def panics_told_def)
  have t: "told h g s" and r: "roles h g s" "ends_in h g s"
    using l by (simp_all add: live_inv_def static_inv_def consistent_def)
  have ret_call: "HCall n \<in> set (hist s)" if "HRet n \<in> set (hist s)" for n
  proof -
    have "0 < count_list (hist s) (HRet n)" using that by (simp add: count_list_0_iff flip: neq0_conv)
    then have "count_list (hist s) (HCall n) \<noteq> 0" using t by (simp add: told_def)
    then show ?thesis by (simp add: count_list_0_iff)
  qed
  have ended: "HRet n \<in> set (hist s)" if "n \<in> set (gnodes (hgraph h g))" for n
    using stuck_all_ended [OF l assms(5) a nc assms(3) that] t nc by (simp add: told_def)
  note eo = assms(7) [unfolded effect_order_def set_eq_iff Ball_def set_returned]
  show "set ns = set (gnodes (hgraph h g))"
    using eo ended called_mem [OF r t ret_call] by auto
  show "topological h ns"
    unfolding topological_def
  proof (intro allI impI subsetI)
    fix j d
    assume j: "j < length ns" and d: "d \<in> set (dependents (hnode h (ns ! j)))"
    have m: "ns ! j \<in> set ns" using j by simp
    then have "HCall (ns ! j) \<in> set (hist s)" using eo ret_call by blast
    then obtain i where i: "i < length (hist s)" "hist s ! i = HCall (ns ! j)" by (auto simp: in_set_conv_nth)
    have "HRet d \<in> set (take i (hist s))" using t i d by (simp add: told_def ordered_def)
    then have "comes_before ns d (ns ! j)" using eo i m by blast
    then obtain k where "k < length ns" "ns ! k = ns ! j" "d \<in> set (take k ns)" by (auto simp: comes_before_def)
    moreover have "k = j" using calculation(1,2) j eo by (simp add: nth_eq_iff_index_eq)
    ultimately show "d \<in> set (take j ns)" by simp
  qed
qed

text \<open>A program that builds a flow of static tasks, runs it and waits: \<open>Inv D\<close> is what holds of the
  shared variables when the functions of the tasks \<open>D\<close> have taken effect.\<close>

lemma client_run:
  assumes flow: "calls_ok 0 cs" "tasks_of cs < 2 ^ 32" "length (edges_of cs) < 2 ^ 32"
      "\<And>a b. (a, b) \<in> set (edges_of cs) \<Longrightarrow> (rank a :: nat) < rank b"
    and run: "NewExecutor c opts now (flow_heap name cs) [[Run 1, Wait]] = Inr s0" "reach s0 s" "stuck s"
      "\<And>n. HPanic n \<notin> set (hist s)" "effect_order (hist s) ns"
    and Inv: "Inv {} v"
      "\<And>D n v. Inv D v \<Longrightarrow> n \<in> {0<..tasks_of cs} \<Longrightarrow> n \<notin> D \<Longrightarrow> D \<subseteq> {0<..tasks_of cs} \<Longrightarrow> set (to_node (edges_of cs) n) \<subseteq> D \<Longrightarrow>
        \<exists>v'. act n v = Some v' \<and> Inv (insert n D) v'"
  shows "\<exists>v'. perform act ns v = Some v' \<and> Inv {0<..tasks_of cs} v'"
proof -
  let ?h = "flow_heap name cs"
  note p = flow_heap_plain [OF flow(1), of name, unfolded plain_heap_def]
  have N: "set (gnodes (hgraph ?h 1)) = {0<..tasks_of cs}" using p by (auto simp del: upt_Suc)
  have "starts_flow ?h 1 s0"
    unfolding starts_flow_def using flow_heap_static [OF flow(1-3)] p run(1) by blast
  from completed_effects [OF this _ flow_heap_acyclic [OF flow(1,4)] run(2-5)] p N
  have e: "topological ?h ns" "set ns = {0<..tasks_of cs}" by simp_all
  have "distinct ns" using run(5) by (simp add: effect_order_def)
  from perform_topological [OF e(1) this, of Inv v act] Inv e(2) p show ?thesis by simp
qed

section \<open>There are such runs\<close>

text \<open>What a goroutine can choose when nothing goes wrong: every flow of static tasks has a completed run
  in which no function panics, and the order of the returns is one of its effect orders. So the
  hypotheses of the results on programs can be met for each of them.\<close>

definition sort_nodes :: "heap \<Rightarrow> nid list \<Rightarrow> nid list" where
  "sort_nodes h = sort_key (\<lambda>n. priority (hnode h n))"

fun usual_choice :: "sys \<Rightarrow> pc \<Rightarrow> choice" where
  "usual_choice s (Handle c sp) = Return"
| "usual_choice s (GSetup g k) = Sorted (sort_nodes (graph_setup g (heap s)) (entries (hgraph (graph_setup g (heap s)) g)))"
| "usual_choice s (NSetup c cs) = Sorted (sort_nodes (heap s) cs)"
| "usual_choice s p = Tau"

lemma is_sort_sort_nodes: "is_sort h es (sort_nodes h es)"
  by (simp add: is_sort_def sort_nodes_def)

definition static_handle :: "pc \<Rightarrow> bool" where
  "static_handle p \<longleftrightarrow> (\<forall>c sp. p = Handle c sp \<longrightarrow> is_static c)"

lemma usual_enabled:
  assumes "pc_step s i p ch now = Some t" "static_handle p"
  shows "\<exists>t'. pc_step s i p (usual_choice s p) 0 = Some t'"
proof (cases p)
  case (Handle c sp)
  then obtain n q where "c = StaticC n q" using assms(2) by (cases c) (auto simp: static_handle_def)
  with Handle show ?thesis by simp
next
  case (Body c)
  then show ?thesis by (simp add: body_step_def Let_def split: prod.split)
next
  case (Defer c sp ok)
  then show ?thesis by (cases c) (simp_all add: Let_def)
qed (use assms(1) in \<open>auto simp: gsetup_step_def nsetup_step_def is_sort_sort_nodes Let_def\<close>)

lemma static_step_hist:
  assumes "pc_step s i p ch now = Some t" "static_handle p"
  shows "hist t = hist s \<or> (\<exists>e. hist t = hist s @ [e])"
    and "ch = usual_choice s p \<Longrightarrow> HPanic n \<in> set (hist t) \<Longrightarrow> HPanic n \<in> set (hist s)"
proof -
  have "(hist t = hist s \<or> (\<exists>e. hist t = hist s @ [e])) \<and> (ch = usual_choice s p \<longrightarrow> HPanic n \<in> set (hist t) \<longrightarrow> HPanic n \<in> set (hist s))"
  proof (cases p)
    case (Handle c sp)
    then obtain m q where "c = StaticC m q" using assms(2) by (cases c) (auto simp: static_handle_def)
    with Handle assms(1) show ?thesis by (auto split: choice.splits)
  next
    case (Client cs)
    with assms(1) show ?thesis by (cases "(s, i, cs)" rule: client_step.cases) (auto split: if_splits)
  next
    case (Schedule ns k)
    with assms(1) show ?thesis by (cases ns) (auto split: if_splits)
  next
    case (LLeave g k)
    with assms(1) show ?thesis by (cases k) (auto simp: Let_def split: if_splits)
  next
    case (Defer c sp ok)
    with assms(1) show ?thesis by (cases c) (auto simp: Let_def split: if_splits)
  next
    case (Drop c vs)
    with assms(1) show ?thesis by (cases vs) auto
  next
    case (Succs c vs cs)
    with assms(1) show ?thesis by (cases vs) (auto split: if_splits)
  qed (use assms(1) in \<open>auto simp: gsetup_step_def pref_step_def pput_step_def lcheck_step_def lpop_step_def linvoke_step_def
      wpoll_step_def body_step_def nsetup_step_def deref_step_def csetup_step_def done_step_def Let_def
      split: choice.splits if_splits sum.splits option.splits prod.splits\<close>)
  then show "hist t = hist s \<or> (\<exists>e. hist t = hist s @ [e])"
    "ch = usual_choice s p \<Longrightarrow> HPanic n \<in> set (hist t) \<Longrightarrow> HPanic n \<in> set (hist s)" by blast+
qed

lemma handles_static:
  assumes "starts_flow h g s0" "reach s0 s" "p \<in> set (threads s)"
  shows "static_handle p"
  using reach_static [OF assms(2,1)]
proof
  assume "starting h g s"
  with assms(3) show ?thesis by (auto simp: starting_def static_handle_def)
next
  assume "static_inv h g s"
  then have r: "roles h g s" by (simp add: static_inv_def consistent_def)
  obtain i where i: "i < length (threads s)" "p = threads s ! i" using assms(3) by (auto simp: in_set_conv_nth)
  have "main_pc g p \<or> work_pc h p" using r i by (cases "i = 0") (auto simp: roles_def)
  then show ?thesis by (auto simp: static_handle_def)
qed

lemma quiet_step:
  assumes "starts_flow h g s0" "reach s0 s" "\<not> stuck s" "\<And>n. HPanic n \<notin> set (hist s)"
  shows "\<exists>e t. step s e = Some t \<and> (\<forall>n. HPanic n \<notin> set (hist t))"
proof -
  obtain i ch now t where "step s (i, ch, now) = Some t" using assms(3) by (force simp: stuck_def)
  then have i: "i < length (threads s)" "\<not> list_ex is_crashed (threads s)" and t: "pc_step s i (threads s ! i) ch now = Some t"
    by (auto split: if_splits)
  have h: "static_handle (threads s ! i)" using handles_static [OF assms(1,2)] i(1) by simp
  obtain u where u: "pc_step s i (threads s ! i) (usual_choice s (threads s ! i)) 0 = Some u"
    using usual_enabled [OF t h] by blast
  then have "step s (i, usual_choice s (threads s ! i), 0) = Some u" using i by simp
  moreover have "HPanic n \<notin> set (hist u)" for n using static_step_hist(2) [OF u h refl] assms(4) by blast
  ultimately show ?thesis by blast
qed

lemma run_append: "run s es = Some t \<Longrightarrow> run s (es @ fs) = run t fs"
  by (induction es arbitrary: s) (auto split: option.splits)

lemma completed_run_exists:
  assumes "starts_flow h g s0"
  shows "\<exists>s. reach s0 s \<and> stuck s \<and> (\<forall>n. HPanic n \<notin> set (hist s))"
proof (rule ccontr)
  assume none: "\<not> ?thesis"
  define M where "M = Max (insert 0 ((\<lambda>n. length (successors (hnode h n))) ` set (gnodes (hgraph h g))))"
  have M: "length (successors (hnode h n)) \<le> M" if "n \<in> set (gnodes (hgraph h g))" for n
    unfolding M_def using that by (intro Max_ge) auto
  have h0: "hist s0 = []" using assms by (auto simp: starts_flow_def NewExecutor_def split: if_splits)
  have "\<exists>es s. length es = k \<and> run s0 es = Some s \<and> (\<forall>n. HPanic n \<notin> set (hist s))" for k
  proof (induction k)
    case 0
    then show ?case using h0 by (intro exI [of _ "[]"]) simp
  next
    case (Suc k)
    then obtain es s where es: "length es = k" "run s0 es = Some s" "\<forall>n. HPanic n \<notin> set (hist s)" by blast
    have r: "reach s0 s" using run_reach [OF es(2) reach.start] .
    then obtain e t where t: "step s e = Some t" "\<forall>n. HPanic n \<notin> set (hist t)"
      using quiet_step [OF assms r] none es(3) by blast
    have "run s0 (es @ [e]) = Some t" using es(2) t(1) by (simp add: run_append)
    with es(1) t(2) show ?case by (intro exI [of _ "es @ [e]"] exI [of _ t]) simp
  qed
  then obtain es s where "length es = run_bound M (length (gnodes (hgraph h g))) + 1" "run s0 es = Some s" by blast
  with starting_bound(1) [OF assms M reach.start starts_starting [OF assms]] show False by fastforce
qed

lemma distinct_count_le: "(\<And>x. count_list xs x \<le> 1) \<Longrightarrow> distinct xs"
proof (induction xs)
  case (Cons y ys)
  have "count_list ys x \<le> 1" for x using Cons.prems [of x] by (simp split: if_splits)
  moreover have "count_list ys y = 0" using Cons.prems [of y] by simp
  ultimately show ?case using Cons.IH by (simp add: count_list_0_iff)
qed simp

text \<open>Every return comes after its call.\<close>

definition calls_first :: "hevent list \<Rightarrow> bool" where
  "calls_first hs \<longleftrightarrow> (\<forall>i n. count_list (take i hs) (HRet n) \<le> count_list (take i hs) (HCall n))"

lemma reach_calls_first:
  assumes "starts_flow h g s0" "reach s0 s"
  shows "calls_first (hist s)"
  using assms(2)
proof (induction rule: reach.induct)
  case start
  then show ?case using assms(1) by (auto simp: starts_flow_def NewExecutor_def calls_first_def split: if_splits)
next
  case (step s e t)
  obtain i ch now where e: "e = (i, ch, now)" by (cases e)
  then have i: "i < length (threads s)" and p: "pc_step s i (threads s ! i) ch now = Some t"
    using step.hyps(2) by (auto split: if_splits)
  have "static_handle (threads s ! i)" using handles_static [OF assms(1) step.hyps(1)] i by simp
  from static_step_hist(1) [OF p this] have n: "hist t = hist s \<or> (\<exists>e. hist t = hist s @ [e])" .
  have "count_list (hist t) (HRet n) \<le> count_list (hist t) (HCall n)" for n
    using reach_static [OF reach.step [OF step.hyps] assms(1)]
    by (auto simp: starting_def static_inv_def told_def)
  with n step.IH show ?case by (auto simp: calls_first_def take_Cons split: nat.splits)
qed

lemma returned_effect_order:
  assumes "starts_flow h g s0" "reach s0 s"
  shows "effect_order (hist s) (returned (hist s))"
proof -
  let ?hs = "hist s"
  have one: "count_list ?hs (HCall n) \<le> 1" for n by (rule called_once [OF assms])
  have cf: "count_list (take i ?hs) (HRet n) \<le> count_list (take i ?hs) (HCall n)" for i n
    using reach_calls_first [OF assms] by (simp add: calls_first_def)
  have rc: "count_list (returned hs) n = count_list hs (HRet n)" for hs n
    by (induction hs rule: returned.induct) auto
  have app: "returned (xs @ ys) = returned xs @ returned ys" for xs ys
    by (induction xs rule: returned.induct) auto
  have "count_list (returned ?hs) n \<le> 1" for n
    using one [of n] cf [of "length ?hs" n] by (simp add: rc)
  then have d: "distinct (returned ?hs)" by (rule distinct_count_le)
  have "comes_before (returned ?hs) a b"
    if i: "i < length ?hs" "?hs ! i = HCall b" and b: "b \<in> set (returned ?hs)" and a: "a \<in> set (returned (take i ?hs))" for i a b
  proof -
    have split: "?hs = take i ?hs @ HCall b # drop (Suc i) ?hs" using i by (metis id_take_nth_drop)
    then have "count_list ?hs (HCall b) = count_list (take i ?hs) (HCall b) + 1 + count_list (drop (Suc i) ?hs) (HCall b)"
      by (metis (no_types, lifting) count_list.simps(2) count_list_append group_cancel.add2 add.commute)
    then have "count_list (take i ?hs) (HCall b) = 0" using one [of b] by simp
    then have nb: "b \<notin> set (returned (take i ?hs))" using cf [of i b] by (simp add: set_returned count_list_0_iff flip: rc)
    have R: "returned ?hs = returned (take i ?hs) @ returned (drop (Suc i) ?hs)"
      using arg_cong [OF split, of returned] app by simp
    with nb b have "b \<in> set (returned (drop (Suc i) ?hs))" by auto
    then obtain us vs where "returned (drop (Suc i) ?hs) = us @ b # vs" by (auto simp: in_set_conv_decomp)
    then have "returned ?hs = (returned (take i ?hs) @ us) @ b # vs" using R by simp
    then show ?thesis
      unfolding comes_before_def using a by (intro exI [of _ "length (returned (take i ?hs) @ us)"]) (simp add: nth_append)
  qed
  with d show ?thesis by (simp add: effect_order_def)
qed

lemma client_run_exists:
  assumes "calls_ok 0 cs" "tasks_of cs < 2 ^ 32" "length (edges_of cs) < 2 ^ 32"
    and "NewExecutor c opts now (flow_heap name cs) [[Run 1, Wait]] = Inr s0"
  obtains s ns where "reach s0 s" "stuck s" "\<And>n. HPanic n \<notin> set (hist s)" "effect_order (hist s) ns"
proof -
  have "graph (hflow (flow_heap name cs) 1) = 1" using flow_heap_plain [OF assms(1), of name] by (simp add: plain_heap_def)
  then have st: "starts_flow (flow_heap name cs) 1 s0"
    unfolding starts_flow_def using flow_heap_static [OF assms(1-3)] assms(4) by blast
  from completed_run_exists [OF this] returned_effect_order [OF st] that show ?thesis by blast
qed

end
