(* ===== verification/One_Worker.thy ===== *)
theory One_Worker
  imports Static_Clients
begin

text \<open>
  One flow of static tasks on an executor with one worker. The order in which the tasks are called is
  then fixed up to tasks of equal priority that become ready together: it is the order of a sequential
  list scheduler (\<open>list_schedule\<close>) with a first-in-first-out queue, to which the entries of the graph and
  then, at the end of each task, the successors that have become ready are added in the order of
  their priorities. In particular, a flow without dependencies is called in the order of the priorities,
  and a task that becomes ready later never overtakes one that is queued, whatever their priorities.
\<close>

section \<open>The list scheduler\<close>

definition entry_nodes :: "heap \<Rightarrow> gid \<Rightarrow> nid list" where
  "entry_nodes h g = filter (\<lambda>n. dependents (hnode h n) = []) (gnodes (hgraph h g))"

text \<open>The successors of a task that are ready when the tasks \<open>cs\<close> have ended.\<close>

definition released :: "heap \<Rightarrow> nid list \<Rightarrow> nid \<Rightarrow> nid list" where
  "released h cs n = filter (\<lambda>v. set (dependents (hnode h v)) \<subseteq> set cs) (remdups (successors (hnode h n)))"

inductive list_schedule :: "heap \<Rightarrow> gid \<Rightarrow> nid list \<Rightarrow> nid list \<Rightarrow> bool" for h g where
  entries: "is_sort h (entry_nodes h g) q \<Longrightarrow> list_schedule h g [] q"
| take: "list_schedule h g cs (n # q) \<Longrightarrow> is_sort h (released h (cs @ [n]) n) es \<Longrightarrow>
    list_schedule h g (cs @ [n]) (q @ es)"

lemma schedule_deps:
  assumes "list_schedule h g cs q" "v \<in> set cs \<union> set q" "d \<in> set (dependents (hnode h v))"
  shows "d \<in> set cs"
  using assms
proof (induction arbitrary: v rule: list_schedule.induct)
  case (entries q)
  then have "set q = set (entry_nodes h g)" using mset_eq_setD unfolding is_sort_def by blast
  with entries.prems show ?case by (auto simp: entry_nodes_def)
next
  case (take cs n q es)
  have "set es = set (released h (cs @ [n]) n)" using take.hyps(2) mset_eq_setD by (auto simp: is_sort_def)
  with take.IH [of v] take.prems show ?case by (auto simp: released_def)
qed

text \<open>Without dependencies nothing is released, and the calls come in the order of the priorities.\<close>

lemma schedule_independent:
  assumes "list_schedule h g cs q" "wf_heap h" "\<forall>n \<in> set (gnodes (hgraph h g)). dependents (hnode h n) = []"
    and "\<forall>n \<in> set (gnodes (hgraph h g)). set (successors (hnode h n)) \<subseteq> set (gnodes (hgraph h g))"
  shows "is_sort h (gnodes (hgraph h g)) (cs @ q)"
  using assms(1)
proof (induction rule: list_schedule.induct)
  case (entries q)
  have "entry_nodes h g = gnodes (hgraph h g)" using assms(3) by (simp add: entry_nodes_def filter_id_conv)
  with entries show ?case by simp
next
  case (take cs n q es)
  have "set (cs @ n # q) = set (gnodes (hgraph h g))" using take.IH mset_eq_setD unfolding is_sort_def by blast
  then have n: "n \<in> set (gnodes (hgraph h g))" by auto
  have "successors (hnode h n) = []"
  proof (rule ccontr)
    assume "successors (hnode h n) \<noteq> []"
    then obtain v where v: "v \<in> set (successors (hnode h n))" by (cases "successors (hnode h n)") auto
    then have "count_list (dependents (hnode h v)) n \<noteq> 0"
      using assms(2) unfolding wf_heap_def edges_ok_def by (metis count_list_0_iff)
    moreover have "dependents (hnode h v) = []" using assms(3,4) n v by blast
    ultimately show False by simp
  qed
  then have "es = []" using take.hyps(2) by (simp add: released_def is_sort_def)
  with take.IH show ?case by simp
qed

section \<open>What is where\<close>

text \<open>The nodes a goroutine is going to put, carries to the pool, is about to call, has called and not
  expanded; and the candidates it has collected.\<close>

fun feed :: "pc \<Rightarrow> nid list" where
  "feed (Schedule ns k) = ns"
| "feed (PRef n ns k) = n # ns"
| "feed (PPut n ns k) = n # ns"
| "feed _ = []"

fun pend :: "pc \<Rightarrow> nid list" where
  "pend (LInvoke n g k) = [n]"
| "pend _ = []"

fun soon :: "pc \<Rightarrow> nid list" where
  "soon (Body c) = [cnode c]"
| "soon _ = []"

fun hand :: "pc \<Rightarrow> nid list" where
  "hand (Handle c sp) = [cnode c]"
| "hand (Defer c sp ok) = [cnode c]"
| "hand (Drop c vs) = [cnode c]"
| "hand (Succs c vs cs) = [cnode c]"
| "hand (NSetup c cs) = [cnode c]"
| "hand _ = []"

fun cand :: "pc \<Rightarrow> nid list" where
  "cand (Succs c vs cs) = cs"
| "cand (NSetup c cs) = cs"
| "cand _ = []"

definition cat :: "(pc \<Rightarrow> nid list) \<Rightarrow> sys \<Rightarrow> nid list" where
  "cat f s = concat (map f (threads s))"

definition fifo_nodes :: "sys \<Rightarrow> nid list" where
  "fifo_nodes s = cat soon s @ map cnode (pool_items (epool s)) @ cat pend s @ items (wq s) @ cat feed s"

definition blind :: "(pc \<Rightarrow> nid list) \<Rightarrow> bool" where
  "blind f \<longleftrightarrow> (\<forall>g k. f (LWait g k) = f (LCheck g k)) \<and> f WPoll = []"

lemma blind_simps [simp]: "blind feed" "blind pend" "blind soon" "blind hand" "blind cand"
  by (simp_all add: blind_def)

lemma cat_signal: "blind f \<Longrightarrow> map f (signal g ps) = map f ps"
  by (induction g ps rule: signal.induct) (auto simp: blind_def)

lemma goes_map:
  assumes "goes g s i p' w t" "blind f"
  obtains ps where "set ps \<subseteq> {WPoll}" "map f (threads t) = (map f (threads s))[i := f p'] @ map f ps"
proof -
  from assms(1) obtain ps where ps: "set ps \<subseteq> {WPoll}"
    "threads t = (if w then signal g (threads s) else threads s)[i := p'] @ ps" by (rule goes_append)
  show thesis by (rule that [OF ps(1)]) (simp add: ps(2) map_update cat_signal [OF assms(2)])
qed

lemma concat_WPoll: "set ps \<subseteq> {WPoll} \<Longrightarrow> blind f \<Longrightarrow> concat (map f ps) = []"
  by (auto simp: blind_def)

lemma cat_keep:
  assumes "goes g s i p' w t" "i < length (threads s)" "blind f" "f p' = f (threads s ! i)"
  shows "cat f t = cat f s"
proof -
  obtain ps where ps: "set ps \<subseteq> {WPoll}" "map f (threads t) = (map f (threads s))[i := f p'] @ map f ps"
    by (rule goes_map [OF assms(1,3)])
  have "(map f (threads s))[i := f p'] = map f (threads s)" using assms(2,4) by (metis list_update_id nth_map)
  with ps concat_WPoll [OF ps(1) assms(3)] show ?thesis by (simp add: cat_def)
qed

lemma concat_one:
  "i < length xs \<Longrightarrow> (\<And>j. j < length xs \<Longrightarrow> j \<noteq> i \<Longrightarrow> xs ! j = []) \<Longrightarrow> concat xs = xs ! i"
proof (induction xs arbitrary: i)
  case (Cons x xs)
  show ?case
  proof (cases i)
    case 0
    have "xs ! j = []" if "j < length xs" for j using Cons.prems(2) [of "Suc j"] 0 that by simp
    then have "concat xs = []" by (auto simp: in_set_conv_nth)
    with 0 show ?thesis by simp
  next
    case (Suc k)
    have "concat xs = xs ! k" using Suc Cons.prems(1) Cons.prems(2) [of "Suc j" for j] by (intro Cons.IH) auto
    with Cons.prems(2) [of 0] Suc show ?thesis by simp
  qed
qed simp

lemma cat_here:
  assumes "i < length (threads s)" "\<And>j. j < length (threads s) \<Longrightarrow> j \<noteq> i \<Longrightarrow> f (threads s ! j) = []"
  shows "cat f s = f (threads s ! i)"
  unfolding cat_def using concat_one [of i "map f (threads s)"] assms by simp

lemma cat_there:
  assumes "goes g s i p' w t" "i < length (threads s)" "blind f"
    "\<And>j. j < length (threads s) \<Longrightarrow> j \<noteq> i \<Longrightarrow> f (threads s ! j) = []"
  shows "cat f t = f p'"
proof -
  obtain ps where ps: "set ps \<subseteq> {WPoll}" "map f (threads t) = (map f (threads s))[i := f p'] @ map f ps"
    by (rule goes_map [OF assms(1,3)])
  have "concat ((map f (threads s))[i := f p']) = f p'"
    using concat_one [of i "(map f (threads s))[i := f p']"] assms(2,4) by simp
  with ps concat_WPoll [OF ps(1) assms(3)] show ?thesis by (simp add: cat_def)
qed

lemma cat_0: "cat f s = [] \<longleftrightarrow> (\<forall>p \<in> set (threads s). f p = [])"
  by (auto simp: cat_def)


section \<open>One closure at a time\<close>

fun cand_ok :: "heap \<Rightarrow> nid list \<Rightarrow> pc \<Rightarrow> bool" where
  "cand_ok h cs (Succs c vs us) \<longleftrightarrow> (\<exists>xs. successors (hnode h (cnode c)) = xs @ vs \<and> distinct us \<and>
     set us = {v \<in> set xs. set (dependents (hnode h v)) \<subseteq> set cs})"
| "cand_ok h cs (NSetup c us) \<longleftrightarrow> distinct us \<and>
     set us = {v \<in> set (successors (hnode h (cnode c))). set (dependents (hnode h v)) \<subseteq> set cs}"
| "cand_ok h cs _ \<longleftrightarrow> True"

lemma cand_ok_idle: "hand p = [] \<Longrightarrow> cand_ok h cs p"
  by (cases p) auto

definition one_worker :: "heap \<Rightarrow> sys \<Rightarrow> bool" where
  "one_worker h0 s \<longleftrightarrow> concurrency s = 1 \<and> (\<forall>n. priority (hnode (heap s) n) = priority (hnode h0 n)) \<and>
     (feed (threads s ! 0) \<noteq> [] \<longrightarrow> length (threads s) = 1)"

definition scheduled :: "heap \<Rightarrow> gid \<Rightarrow> sys \<Rightarrow> bool" where
  "scheduled h0 g s \<longleftrightarrow>
     (\<exists>cs. called (hist s) = cs @ cat hand s \<and> list_schedule h0 g cs (cat hand s @ fifo_nodes s)) \<and>
     (\<forall>p \<in> set (threads s). cand_ok h0 (called (hist s)) p)"

lemma idle_pc:
  assumes "main_pc g p \<or> work_pc h0 p" "in_closure p = 0"
  shows "soon p = []" "hand p = []" "cand p = []" "called_nodes p = []" "work_pc h0 p \<Longrightarrow> feed p = []"
proof -
  have k: "skont_nodes k = []" if "sk_closure k = 0" for k using that by (cases k) auto
  have w: "sk_closure k = 1" if "work_skont k" for k using that by (cases k) auto
  show "soon p = []" "hand p = []" "cand p = []" using assms(2) by (cases p; simp)+
  show "called_nodes p = []" using assms k by (cases p) auto
  show "feed p = []" if "work_pc h0 p" using that assms(2) w by (cases p) auto
qed

lemma main_pc_idle:
  assumes "main_pc g p"
  shows "in_closure p = 0" "p \<noteq> WPoll"
proof -
  have k: "gk_closure k = 0" if "main_kont g k" for k using that by (cases k) auto
  then have "sk_closure k = 0" if "main_skont g k" for k using that by (cases k) auto
  with assms k show "in_closure p = 0" by (cases p) auto
  show "p \<noteq> WPoll" using assms by auto
qed

lemma work_pc_pend: "work_pc h0 p \<Longrightarrow> pend p = []"
  by (cases p) auto

lemma two_threads_le:
  assumes "i < length (threads s)" "j < length (threads s)" "i \<noteq> j"
  shows "(f (threads s ! i) :: nat) + f (threads s ! j) \<le> total f s"
proof -
  have "total f (goto j WGone s) + f (threads s ! j) = total f s + f WGone" by (rule total_goto [OF assms(2)])
  moreover have "f (threads s ! i) + f WGone \<le> total f (goto j WGone s)"
  proof -
    let ?ps = "(threads s)[j := WGone]"
    have "sum (\<lambda>k. f (?ps ! k)) {i, j} \<le> sum (\<lambda>k. f (?ps ! k)) {..<length ?ps}"
      by (intro sum_mono2) (use assms in auto)
    then show ?thesis using assms by (simp add: total_def sum_list_sum_nth atLeast0LessThan)
  qed
  ultimately show ?thesis by linarith
qed

lemma alone:
  assumes "accounts s" "concurrency s = 1" "i < length (threads s)" "j < length (threads s)" "j \<noteq> i"
    and "in_closure (threads s ! i) = 1 \<or> threads s ! i = WPoll"
  shows "in_closure (threads s ! j) = 0 \<and> threads s ! j \<noteq> WPoll"
proof -
  let ?f = "\<lambda>p. in_closure p + polling p"
  have "total in_closure s + total polling s \<le> 1" using assms(1,2) by (simp add: accounts_def)
  moreover have "total ?f s = total in_closure s + total polling s" by (simp add: total_def sum_list_addf)
  ultimately have "?f (threads s ! i) + ?f (threads s ! j) \<le> 1" using two_threads_le [OF assms(3,4), of ?f] assms(5) by simp
  moreover have "1 \<le> ?f (threads s ! i)" using assms(6) by auto
  ultimately have "?f (threads s ! j) = 0" by simp
  then show ?thesis by (auto simp: polling_def)
qed

lemma solo:
  assumes r: "roles h0 g s" and a: "accounts s" and o: "one_worker h0 s" and i: "i < length (threads s)"
    and b: "in_closure (threads s ! i) = 1 \<or> threads s ! i = WPoll \<or> i = 0 \<and> feed (threads s ! 0) \<noteq> []"
    and j: "j < length (threads s)" "j \<noteq> i"
  shows "soon (threads s ! j) = []" "hand (threads s ! j) = []" "cand (threads s ! j) = []"
    "called_nodes (threads s ! j) = []" "feed (threads s ! j) = []"
proof -
  have "\<not> (i = 0 \<and> feed (threads s ! 0) \<noteq> [])" using o i j by (auto simp: one_worker_def)
  with b have b': "in_closure (threads s ! i) = 1 \<or> threads s ! i = WPoll" by blast
  have z: "in_closure (threads s ! j) = 0"
    using alone [OF a _ i j b'] o by (simp add: one_worker_def)
  have m: "main_pc g (threads s ! 0)" using r by (simp add: roles_def)
  have role: "main_pc g (threads s ! j) \<or> work_pc h0 (threads s ! j)" using r j by (cases "j = 0") (auto simp: roles_def)
  note q = idle_pc [OF role z]
  show "soon (threads s ! j) = []" "hand (threads s ! j) = []" "cand (threads s ! j) = []" "called_nodes (threads s ! j) = []"
    by (rule q)+
  show "feed (threads s ! j) = []"
  proof (cases "j = 0")
    case True
    with j i have "length (threads s) \<noteq> 1" by auto
    with o True show ?thesis by (auto simp: one_worker_def)
  next
    case False
    with q(5) r j show ?thesis by (auto simp: roles_def)
  qed
qed

text \<open>The nodes in the queues, when a goroutine that is alone moves.\<close>

lemma fifo_solo:
  assumes go: "goes g s i p' w t" and i: "i < length (threads s)"
    and s: "\<And>j. j < length (threads s) \<Longrightarrow> j \<noteq> i \<Longrightarrow> soon (threads s ! j) = [] \<and> feed (threads s ! j) = []"
    and pe: "pend p' = pend (threads s ! i)"
  shows "fifo_nodes s = soon (threads s ! i) @ map cnode (pool_items (epool s)) @ cat pend s @ items (wq s) @ feed (threads s ! i)"
    "fifo_nodes t = soon p' @ map cnode (pool_items (epool t)) @ cat pend s @ items (wq t) @ feed p'"
proof -
  have "cat soon s = soon (threads s ! i)" "cat feed s = feed (threads s ! i)" using s by (intro cat_here [OF i], blast)+
  then show "fifo_nodes s = soon (threads s ! i) @ map cnode (pool_items (epool s)) @ cat pend s @ items (wq s) @ feed (threads s ! i)"
    by (simp add: fifo_nodes_def)
  have "cat soon t = soon p'" "cat feed t = feed p'" using s by (intro cat_there [OF go i] blind_simps, blast)+
  moreover have "cat pend t = cat pend s" by (rule cat_keep [OF go i _ pe]) simp
  ultimately show "fifo_nodes t = soon p' @ map cnode (pool_items (epool t)) @ cat pend s @ items (wq t) @ feed p'"
    by (simp add: fifo_nodes_def)
qed

lemma scheduled_keep:
  assumes go: "goes g s i p' w t" and i: "i < length (threads s)" and sc: "scheduled h0 g s"
    and "called (hist t) = called (hist s)" "hand p' = hand (threads s ! i)" "fifo_nodes t = fifo_nodes s"
    and "cand_ok h0 (called (hist s)) p'"
  shows "scheduled h0 g t"
proof -
  have "cat hand t = cat hand s" using assms(5) by (intro cat_keep [OF go i]) simp_all
  moreover have "cand_ok h0 (called (hist s)) p" if "p \<in> set (threads t)" for p
    using goes_cases [OF go i that] assms(7) sc by (auto simp: scheduled_def)
  ultimately show ?thesis using sc assms(4,6) by (simp add: scheduled_def)
qed

lemma scheduled_solo:
  assumes go: "goes g s i p' w t" and i: "i < length (threads s)"
    and s: "\<And>j. j < length (threads s) \<Longrightarrow> j \<noteq> i \<Longrightarrow> hand (threads s ! j) = []"
    and "called (hist t) = cs @ hand p'" "list_schedule h0 g cs (hand p' @ fifo_nodes t)" "cand_ok h0 (called (hist t)) p'"
  shows "scheduled h0 g t"
proof -
  have "cat hand t = hand p'" using s by (intro cat_there [OF go i] blind_simps)
  moreover have "cand_ok h0 (called (hist t)) p" if "p \<in> set (threads t)" for p
  proof -
    from that obtain j where j: "j < length (threads t)" "p = threads t ! j" by (auto simp: in_set_conv_nth)
    show ?thesis
    proof (cases "j = i")
      case True
      with j goes_at [OF go i] assms(6) show ?thesis by simp
    next
      case False
      from goes_other [OF go j(1) False] s [of j] False j(2) have "hand p = []" by auto
      then show ?thesis by (rule cand_ok_idle)
    qed
  qed
  ultimately show ?thesis using assms(4,5) by (auto simp: scheduled_def)
qed


section \<open>The candidates are the released successors\<close>

lemma called_returned:
  assumes "told h0 g s" "HRet d \<in> set (hist s)"
  shows "d \<in> set (called (hist s))"
proof -
  have "count_list (hist s) (HRet d) \<noteq> 0" using assms(2) by (simp add: count_list_0_iff)
  moreover have "count_list (hist s) (HCall d) = count_list (hist s) (HRet d) + count_list (hist s) (HPanic d) + total (running d) s"
    using assms(1) by (simp add: told_def)
  ultimately have "count_list (hist s) (HCall d) \<noteq> 0" by linarith
  then show ?thesis by (simp add: called_iff count_list_0_iff)
qed

lemma called_over:
  assumes "told h0 g s" "\<not> is_canceled s g" "0 < over d s"
  shows "d \<in> set (called (hist s))"
  using over_returned [OF assms] called_returned [OF assms(1)] by blast

lemma late_past: "late n p \<le> count_list (past_nodes p) n"
proof -
  have "k_late n k \<le> count_list (skont_nodes k) n" for k by (cases k) auto
  then show ?thesis by (cases p) auto
qed

lemma early_lists: "early n p \<noteq> 0 \<Longrightarrow> n \<in> set (soon p @ feed p @ pend p @ hand p @ cand p)"
  by (cases p) (auto simp: count_list_0_iff split: if_splits simp flip: neq0_conv)

lemma in_cat: "p \<in> set (threads s) \<Longrightarrow> n \<in> set (f p) \<Longrightarrow> n \<in> set (cat f s)"
  by (auto simp: cat_def)

text \<open>A node that is somewhere is queued, has been called, or is a candidate.\<close>

lemma somewhere:
  assumes to: "told h0 g s" and nc: "\<not> is_canceled s g" and sc: "scheduled h0 g s"
    and v: "waiting v s + finished v s \<noteq> 0"
  shows "v \<in> set (called (hist s)) \<union> set (fifo_nodes s) \<union> set (cat cand s)"
proof (cases "finished v s = 0")
  case False
  have "total (late v) s \<le> sum_list (map (\<lambda>p. count_list (past_nodes p) v) (threads s))"
    unfolding total_def by (intro sum_list_mono late_past)
  moreover have "0 < total (late v) s + count_list (hist s) (HEnd v)" using False by (simp add: finished_def)
  ultimately have "0 < over v s" unfolding over_def by linarith
  from called_over [OF to nc this] show ?thesis by blast
next
  case True
  with v have "waiting v s \<noteq> 0" by simp
  then consider "total (early v) s \<noteq> 0" | "v \<in> set (items (wq s))" | "v \<in> set (map cnode (pool_items (epool s)))"
    unfolding waiting_def using count_list_0_iff by (metis add_is_0)
  then show ?thesis
  proof cases
    case 1
    then obtain p where p: "p \<in> set (threads s)" "early v p \<noteq> 0" unfolding total_0 by blast
    have h: "set (cat hand s) \<subseteq> set (called (hist s))" using sc by (auto simp: scheduled_def)
    from early_lists [OF p(2)] in_cat [OF p(1), of v] h show ?thesis by (auto simp: fifo_nodes_def)
  qed (simp_all add: fifo_nodes_def)
qed

text \<open>When all tasks a node depends on have been called and the last of them is dropping its edges, the
  node has lost all its edges.\<close>

lemma all_cut:
  assumes cn: "consistent h0 g s" and i: "i < length (threads s)" and p: "threads s ! i = Succs c vs us"
    and v: "v \<in> set (gnodes (hgraph h0 g))"
    and d: "\<And>d. d \<in> set (dependents (hnode h0 v)) \<Longrightarrow> HEnd d \<in> set (hist s) \<or> d = cnode c"
  shows "cuts h0 v s = length (dependents (hnode h0 v))"
proof (rule antisym)
  let ?N = "set (gnodes (hgraph h0 g))"
  let ?w = "\<lambda>d. count_list (successors (hnode h0 d)) v"
  note k = consistentD [OF cn]
  show "cuts h0 v s \<le> length (dependents (hnode h0 v))" by (rule cuts_le [OF k(1-4) v])
  have cN: "cnode c \<in> ?N" using k(9) [OF i] p by simp
  have "length (dependents (hnode h0 v)) = (\<Sum>d \<in> ?N. ?w d)" using sum_edges [OF k(1) v] by simp
  also have "\<dots> \<le> (\<Sum>d \<in> ?N. (count_list (hist s) (HEnd d) + of_bool (d = cnode c)) * ?w d)"
  proof (rule sum_mono)
    fix x
    show "?w x \<le> (count_list (hist s) (HEnd x) + of_bool (x = cnode c)) * ?w x"
    proof (cases "x \<in> set (dependents (hnode h0 v))")
      case True
      with d have "1 \<le> count_list (hist s) (HEnd x) + of_bool (x = cnode c)"
        using count_list_0_iff [of "hist s" "HEnd x"] by (cases "x = cnode c") auto
      then show ?thesis by simp
    next
      case False
      then have "?w x = 0" using edge_count [OF k(1), of x v] by (simp add: count_list_0_iff)
      then show ?thesis by simp
    qed
  qed
  also have "\<dots> = sum_list (map (hcut h0 v) (hist s)) + ?w (cnode c)"
    using sum_list_hcut [of ?N "hist s" h0 v] k(3) cN by (simp add: ends_in_def distrib_right sum.distrib of_bool_def
        if_distrib [of "\<lambda>b. b * _"] sum.delta cong: if_cong)
  also have "\<dots> \<le> cuts h0 v s"
    using sum_list_nth_le [OF i, of "cut h0 v"] p by (simp add: cuts_def total_def)
  finally show "length (dependents (hnode h0 v)) \<le> cuts h0 v s" .
qed


lemma called_distinct:
  assumes "consistent h0 g s" "told h0 g s"
  shows "distinct (called (hist s))"
proof -
  have "count_list (called (hist s)) n \<le> 1" for n
  proof -
    have "count_list (hist s) (HCall n) \<le> total (\<lambda>p. count_list (called_nodes p) n) s + count_list (hist s) (HEnd n)"
      using assms(2) unfolding told_def by blast
    also have "\<dots> \<le> waiting n s + finished n s"
      unfolding positions_eq total_def using sum_list_mono [of "threads s", OF called_nodes_le]
      by (simp add: trans_le_add1)
    also have "\<dots> \<le> 1" by (rule positions_le [OF assms(1)])
    finally show ?thesis by (simp add: count_called)
  qed
  then show ?thesis by (rule distinct_count_le)
qed

text \<open>What is needed of a state: the invariants of \<open>Static_Liveness\<close>, one worker, no panic.\<close>

definition calm :: "heap \<Rightarrow> gid \<Rightarrow> sys \<Rightarrow> bool" where
  "calm h0 g s \<longleftrightarrow> live_inv h0 g s \<and> accounts s \<and> one_worker h0 s \<and> (\<forall>n. HPanic n \<notin> set (hist s))"

lemma calmD:
  assumes "calm h0 g s"
  shows "consistent h0 g s" "told h0 g s" "loop_ok g s" "accounts s" "one_worker h0 s" "\<not> is_canceled s g"
    "Defer c sp False \<notin> set (threads s)" "n \<in> set (gnodes (hgraph h0 g)) \<Longrightarrow> remembered h0 s n" "roles h0 g s"
  using assms by (auto simp: calm_def live_inv_def static_inv_def panics_told_def all_remembered_def consistent_def)

lemma candidate_added:
  assumes c: "calm h0 g s" and i: "i < length (threads s)" and p: "threads s ! i = Succs c (v # vs) us"
    and r: "node_recyclable (heap s) v" "nstate (hnode (heap s) v) = kNodeStateIdle"
    and v: "v \<in> set (gnodes (hgraph h0 g))" "v \<in> set (successors (hnode h0 (cnode c)))"
  shows "v \<notin> set us" "set (dependents (hnode h0 v)) \<subseteq> set (called (hist s))"
proof -
  note d = calmD [OF c] and k = consistentD [OF calmD(1) [OF c]]
  have "count_list (dependents (hnode h0 v)) (cnode c) \<noteq> 0" using edge_count [OF k(1), of "cnode c" v] v(2) by (metis count_list_0_iff)
  then have "dependents (hnode h0 v) \<noteq> []" by auto
  with candidate_fresh [OF k(1-5) v(1)] r have f: "waiting v s = 0" "cuts h0 v s = length (dependents (hnode h0 v))"
    by (auto simp: node_recyclable_def)
  show "v \<notin> set us"
    using early_waiting [OF i, of v] f(1) p by (simp add: count_list_0_iff)
  show "set (dependents (hnode h0 v)) \<subseteq> set (called (hist s))"
    using called_over [OF d(2,6) all_cut_over [OF k(1-4) v(1) f(2)]] by blast
qed

lemma candidate_passed:
  assumes c: "calm h0 g s" and sc: "scheduled h0 g s" and i: "i < length (threads s)" and p: "threads s ! i = Succs c (v # vs) us"
    and r: "\<not> (node_recyclable (heap s) v \<and> nstate (hnode (heap s) v) = kNodeStateIdle)"
    and v: "v \<in> set (gnodes (hgraph h0 g))" "v \<in> set (successors (hnode h0 (cnode c)))"
    and dp: "set (dependents (hnode h0 v)) \<subseteq> set (called (hist s))"
  shows "v \<in> set us"
proof (rule ccontr)
  assume nu: "v \<notin> set us"
  note d = calmD [OF c] and k = consistentD [OF calmD(1) [OF c]]
  have so: "hand (threads s ! j) = [] \<and> cand (threads s ! j) = [] \<and> called_nodes (threads s ! j) = []"
    if "j < length (threads s)" "j \<noteq> i" for j
    using solo [OF d(9,4,5) i _ that] p by simp
  have cats: "cat hand s = [cnode c]" "cat cand s = us"
    using cat_here [OF i, of hand] cat_here [OF i, of cand] so p by auto
  obtain cs where cs: "called (hist s) = cs @ [cnode c]" "list_schedule h0 g cs (cnode c # fifo_nodes s)"
    using sc cats by (auto simp: scheduled_def)
  have "HEnd x \<in> set (hist s) \<or> x = cnode c" if x: "x \<in> set (dependents (hnode h0 v))" for x
  proof (rule ccontr)
    assume n: "\<not> (HEnd x \<in> set (hist s) \<or> x = cnode c)"
    have "count_list (hist s) (HCall x) \<le> total (\<lambda>p. count_list (called_nodes p) x) s + count_list (hist s) (HEnd x)"
      using d(2) unfolding told_def by blast
    moreover have "count_list (hist s) (HCall x) \<noteq> 0" using x dp by (auto simp: called_iff count_list_0_iff)
    moreover have "count_list (hist s) (HEnd x) = 0" using n by (simp add: count_list_0_iff)
    ultimately have "total (\<lambda>p. count_list (called_nodes p) x) s \<noteq> 0" by linarith
    then obtain q where q: "q \<in> set (threads s)" "x \<in> set (called_nodes q)" unfolding total_0 count_list_0_iff by blast
    then obtain j where j: "j < length (threads s)" "q = threads s ! j" by (auto simp: in_set_conv_nth)
    from q(2) so [OF j(1)] p n j(2) show False by (cases "j = i") auto
  qed
  from all_cut [OF d(1) i p v(1) this] have full: "cuts h0 v s = length (dependents (hnode h0 v))" .
  have "waiting v s + finished v s \<noteq> 0"
  proof
    assume z: "waiting v s + finished v s = 0"
    then have "nstate (hnode (heap s) v) = kNodeStateIdle" using d(8) [OF v(1)] by (simp add: remembered_def)
    moreover have "njoin (hnode (heap s) v) = 0" using counters_node(1) [OF k(5) v(1) refl] z full by simp
    ultimately show False using r by (simp add: node_recyclable_def)
  qed
  from somewhere [OF d(2,6) sc this] cats(2) nu have "v \<in> set cs \<union> set (cnode c # fifo_nodes s)" using cs(1) by auto
  moreover have "cnode c \<in> set (dependents (hnode h0 v))"
    using edge_count [OF k(1), of "cnode c" v] v(2) by (metis count_list_0_iff)
  ultimately have "cnode c \<in> set cs" by (rule schedule_deps [OF cs(2)])
  with called_distinct [OF d(1,2)] cs(1) show False by simp
qed


section \<open>Every step keeps the schedule\<close>

lemma released_sort:
  assumes "distinct us" "set us = {v \<in> set (successors (hnode h0 n)). set (dependents (hnode h0 v)) \<subseteq> set cs}"
  shows "mset us = mset (released h0 cs n)"
proof -
  have "distinct (released h0 cs n)" "set us = set (released h0 cs n)" using assms(2) by (auto simp: released_def)
  with assms(1) show ?thesis by (simp add: set_eq_iff_mset_eq_distinct)
qed

text \<open>The client's goroutine, when it has no node to put.\<close>

lemma main_scheduled:
  assumes c: "calm h0 g s" and sc: "scheduled h0 g s" and z: "0 < length (threads s)"
    and go: "goes g s 0 p' w t" and hs: "hist t = hist s @ es"
    and mv: "move g s (threads s ! 0) p' (heap t) (items (wq t)) (pool_items (epool t)) es w"
    and fe: "feed (threads s ! 0) = []" and cr: "\<not> is_crashed p'"
  shows "scheduled h0 g t"
proof -
  note d = calmD [OF c]
  have m: "main_pc g (threads s ! 0)" and pe: "pend (threads s ! j) = []" if "j < length (threads s)" "j \<noteq> 0" for j
    using d(9) that work_pc_pend by (auto simp: roles_def)
  have m: "main_pc g (threads s ! 0)" using d(9) by (simp add: roles_def)
  have pd: "cat pend s = pend (threads s ! 0)" "cat pend t = pend p'"
    using pe by (intro cat_here [OF z] cat_there [OF go z] blind_simps, blast)+
  have main: "after_schedule k = LCheck g (GMain [Wait])" if "main_skont g k" for k
    using that by (cases k; cases "case k of KLoop g' k' \<Rightarrow> k'") auto
  have q: "es = [] \<and> soon p' = [] \<and> feed p' = [] \<and> hand p' = [] \<and>
      map cnode (pool_items (epool t)) @ pend p' @ items (wq t) =
      map cnode (pool_items (epool s)) @ pend (threads s ! 0) @ items (wq s)"
    using mv m fe main cr by cases (auto simp: make_closure_node)
  moreover have "soon (threads s ! 0) = [] \<and> hand (threads s ! 0) = []" using m by (cases "threads s ! 0") auto
  ultimately have "cat soon t = cat soon s" "cat feed t = cat feed s" "hand p' = hand (threads s ! 0)"
    using fe by (auto intro!: cat_keep [OF go z])
  with q pd have "fifo_nodes t = fifo_nodes s" by (simp add: fifo_nodes_def)
  with q hs \<open>hand p' = _\<close> show ?thesis by (intro scheduled_keep [OF go z sc]) (auto intro!: cand_ok_idle)
qed

lemma step_scheduled:
  assumes c: "calm h0 g s" and sc: "scheduled h0 g s" and st: "step s (i, ch, now) = Some t"
    and np: "\<And>n. HPanic n \<notin> set (hist t)"
  shows "scheduled h0 g t"
proof -
  note d = calmD [OF c] and k = consistentD [OF calmD(1) [OF c]]
  have i: "i < length (threads s)" and pst: "pc_step s i (threads s ! i) ch now = Some t" using st by (auto split: if_splits)
  have m: "moves g s i t" by (rule step_move [OF k(1) d(9,4) st])
  obtain p' es w where go: "goes g s i p' w t" and hs: "hist t = hist s @ es"
    and mv: "move g s (threads s ! i) p' (heap t) (items (wq t)) (pool_items (epool t)) es w"
    and role: "main_pc g (threads s ! i) \<or> work_pc h0 (threads s ! i)"
    and N: "\<And>n. n \<in> set (pc_nodes (threads s ! i)) \<Longrightarrow> n \<in> set (gnodes (hgraph h0 g)) \<and> graph_of s n = g"
    by (rule movesE [OF d(1) i m]) (rule that)
  have cr: "\<not> is_crashed p'" by (rule moves_no_crash [OF d(1,3) i mv])
  show ?thesis
  proof (cases "i = 0 \<and> feed (threads s ! 0) = []")
    case True
    with main_scheduled [OF c sc _ _ hs _ _ cr] i go mv show ?thesis by auto
  next
    case nm: False
    show ?thesis
    proof (cases "threads s ! i = WGone")
      case True
      with pst show ?thesis by simp
    next
      case False
      have act: "in_closure (threads s ! i) = 1 \<or> threads s ! i = WPoll \<or> i = 0 \<and> feed (threads s ! 0) \<noteq> []"
      proof (cases "i = 0")
        case z: False
        then have "work_pc h0 (threads s ! i)" using d(9) i by (simp add: roles_def)
        moreover have "sk_closure k = 1" if "work_skont k" for k using that by (cases k) auto
        moreover have "\<not> is_crashed (threads s ! i)" using d(3) i by (simp add: loop_ok_def)
        ultimately show ?thesis using False by (cases "threads s ! i") auto
      qed (use nm in simp)
      note so = solo [OF d(9,4,5) i act]
      let ?p = "threads s ! i"
      have cats: "cat hand s = hand ?p" using so(2) by (intro cat_here [OF i])
      obtain cs where cs: "called (hist s) = cs @ hand ?p" "list_schedule h0 g cs (hand ?p @ fifo_nodes s)"
        using sc cats by (auto simp: scheduled_def)
      have ok: "cand_ok h0 (called (hist s)) ?p" using sc i by (simp add: scheduled_def)
      note I = scheduled_solo [OF go i so(2)]
      have gk: "gk_closure k = 0" if "main_kont g k" for k using that by (cases k) auto
      have sk: "pend (after_schedule k) = [] \<and> soon (after_schedule k) = [] \<and> feed (after_schedule k) = [] \<and> hand (after_schedule k) = [] \<and>
          cand_ok h0 cs (after_schedule k)"
        if "main_skont g k \<or> work_skont k" for k cs using that by (cases k) auto
      have pe: "pend p' = pend ?p"
        using mv act role sk by cases (auto simp: gk)
      have fs: "soon (threads s ! j) = [] \<and> feed (threads s ! j) = []" if "j < length (threads s)" "j \<noteq> i" for j
        using so(1,5) that by blast
      note F = fifo_solo [OF go i fs pe]
      show ?thesis
        using mv
      proof cases
        case (m_call cl sp)
        show ?thesis by (rule I [of cs]) (use m_call cs F hs in \<open>simp_all\<close>)
      next
        case (m_setup ys us cl)
        then obtain zs where us: "is_sort (heap s) us zs" "t = goto i (Schedule zs (KSucc cl)) (on_heap (node_setup (cnode cl)) s)"
          using pst by (auto simp: nsetup_step_def split: choice.splits if_splits)
        have "zs = ys" using us(2) m_setup goes_at [OF go i] i by simp
        moreover have "mset us = mset (released h0 (cs @ [cnode cl]) (cnode cl))"
          using ok cs(1) m_setup by (intro released_sort) auto
        ultimately have "is_sort h0 (released h0 (cs @ [cnode cl]) (cnode cl)) ys"
          using us(1) d(5) by (simp add: is_sort_def one_worker_def)
        from list_schedule.take [OF _ this, of g "fifo_nodes s"] cs(2) m_setup F have "list_schedule h0 g (cs @ [cnode cl]) (fifo_nodes t)" by simp
        then show ?thesis by (intro I [of "cs @ [cnode cl]"]) (use m_setup cs hs in \<open>simp_all\<close>)
      next
        case (m_cand v cl vs us)
        obtain xs where xs: "successors (hnode h0 (cnode cl)) = xs @ v # vs" "distinct us"
          "set us = {x \<in> set xs. set (dependents (hnode h0 x)) \<subseteq> set (called (hist s))}"
          using ok m_cand(1) by auto
        have v: "v \<in> set (successors (hnode h0 (cnode cl)))" using xs by simp
        have vN: "v \<in> set (gnodes (hgraph h0 g))" using v static_nodes(4) [OF k(1) frame_refl, of "cnode cl"] N [of "cnode cl"] m_cand(1) by auto
        note a = candidate_added [OF c i m_cand(1,8,9) vN v]
        have "cand_ok h0 (called (hist t)) p'"
          unfolding m_cand(2) cand_ok.simps by (rule exI [of _ "xs @ [v]"]) (use xs a hs m_cand(6) in auto)
        then show ?thesis by (intro I [of cs]) (use m_cand cs F hs in \<open>simp_all\<close>)
      next
        case (m_not_cand v cl vs us)
        obtain xs where xs: "successors (hnode h0 (cnode cl)) = xs @ v # vs" "distinct us"
          "set us = {x \<in> set xs. set (dependents (hnode h0 x)) \<subseteq> set (called (hist s))}"
          using ok m_not_cand(1) by auto
        have v: "v \<in> set (successors (hnode h0 (cnode cl)))" using xs by simp
        have vN: "v \<in> set (gnodes (hgraph h0 g))" using v static_nodes(4) [OF k(1) frame_refl, of "cnode cl"] N [of "cnode cl"] m_not_cand(1) by auto
        note a = candidate_passed [OF c sc i m_not_cand(1,8) vN v]
        have "cand_ok h0 (called (hist t)) p'"
          unfolding m_not_cand(2) cand_ok.simps by (rule exI [of _ "xs @ [v]"]) (use xs a hs m_not_cand(6) in auto)
        then show ?thesis by (intro I [of cs]) (use m_not_cand cs F hs in \<open>simp_all\<close>)
      next
        case (m_dropped cl)
        show ?thesis by (rule I [of cs]) (use m_dropped cs F hs k(7) in \<open>simp_all\<close>)
      next
        case (m_succs cl us)
        show ?thesis by (rule I [of cs]) (use m_succs cs F hs ok in \<open>simp_all\<close>)
      qed (use I [of cs] cs F hs sk role N d(6,7) np act gk in \<open>auto simp: make_closure_node\<close>)
    qed
  qed
qed


section \<open>The runs\<close>

lemma move_priority: "move g s p p' h q l es w \<Longrightarrow> priority (hnode h n) = priority (hnode (heap s) n)"
  by (erule move.cases) (auto simp: set_state_def node_setup_eq drop_one_def node_deref_def graph_ref_def graph_deref_def
      graph_cancel_def)

lemma step_one_worker:
  assumes c: "calm h0 g s" and st: "step s (i, ch, now) = Some t"
  shows "one_worker h0 t"
proof -
  note d = calmD [OF c] and k = consistentD [OF calmD(1) [OF c]]
  have i: "i < length (threads s)" using st by (auto split: if_splits)
  have m: "moves g s i t" by (rule step_move [OF k(1) d(9,4) st])
  obtain p' es w where go: "goes g s i p' w t"
    and mv: "move g s (threads s ! i) p' (heap t) (items (wq t)) (pool_items (epool t)) es w"
    by (rule movesE [OF d(1) i m]) (rule that)
  have m0: "main_pc g (threads s ! 0)" using d(9) by (simp add: roles_def)
  have "feed (threads t ! 0) \<noteq> [] \<Longrightarrow> length (threads t) = 1"
  proof -
    assume f: "feed (threads t ! 0) \<noteq> []"
    have "feed (threads s ! 0) \<noteq> [] \<and> \<not> is_invoke (threads s ! i)"
    proof (cases "i = 0")
      case True
      then have p: "threads t ! 0 = p'" using goes_at [OF go i] by simp
      have "feed (after_schedule k') = []" if "main_skont g k'" for k' using that by (cases k') auto
      with mv f m0 True p show ?thesis by cases auto
    next
      case False
      have "0 < length (threads t)" using goes_length [OF go] i by linarith
      from goes_other [OF go this] False f i have "feed (threads s ! 0) \<noteq> []" by fastforce
      with d(5) i False show ?thesis by (auto simp: one_worker_def)
    qed
    with d(5) go show ?thesis by (auto simp: one_worker_def goes_def)
  qed
  then show ?thesis
    using d(5) step_concurrency [OF st] move_priority [OF mv] by (simp add: one_worker_def)
qed


lemma starting_scheduled:
  assumes f: "static_flow h0 g" and s: "starting h0 g s" and c: "concurrency s = 1"
    and st: "step s (i, ch, now) = Some t" and u: "set_up h0 g t"
  shows "one_worker h0 t \<and> scheduled h0 g t"
proof -
  have di: "distinct (gnodes (hgraph h0 g))" using f wf_heapD(11) by (auto simp: static_flow_def)
  have i: "i = 0" and p: "pc_step s 0 (threads s ! 0) ch now = Some t" using st s by (auto simp: starting_def split: if_splits)
  from u obtain es where t: "threads t = [Schedule es (KLoop g (GMain [Wait]))]" "items (wq t) = []"
    "pool_items (epool t) = []" "hist t = []"
    and me: "mset es = mset (entry_nodes h0 g)" unfolding set_up_def entry_nodes_def by blast
  have "threads s = [GSetup g (GMain [Wait])]" using s p t(1) by (auto simp: starting_def)
  with p obtain zs where z: "is_sort (graph_setup g (heap s)) (entries (hgraph (graph_setup g (heap s)) g)) zs"
    "t = goto 0 (Schedule zs (KLoop g (GMain [Wait]))) (s\<lparr>heap := upd_graph g (\<lambda>x. x\<lparr>entries := zs\<rparr>) (graph_setup g (heap s))\<rparr>)"
    by (auto simp: gsetup_step_def Let_def split: choice.splits if_splits)
  have pr: "priority (hnode (graph_setup g (heap s)) n) = priority (hnode h0 n)" for n
    using graph_setup_hnode [of "heap s" g n] di s by (simp add: starting_def)
  have "zs = es" using t(1) z(2) s by (auto simp: starting_def)
  with z(1) me pr have so: "is_sort h0 (entry_nodes h0 g) es" by (simp add: is_sort_def)
  have "scheduled h0 g t"
    unfolding scheduled_def
    by (rule conjI, rule exI [of _ "[]"]) (use t list_schedule.entries [OF so] in \<open>auto simp: fifo_nodes_def cat_def\<close>)
  moreover have "one_worker h0 t" using z(2) c pr t(1) by (simp add: one_worker_def)
  ultimately show ?thesis by blast
qed

lemma reach_scheduled:
  assumes "reach s0 s" "starts_flow h0 g s0" "\<not> canceled (hgraph h0 g)" "concurrency s0 = 1"
    and "\<And>n. HPanic n \<notin> set (hist s)"
  shows "starting h0 g s \<and> concurrency s = 1 \<or> calm h0 g s \<and> scheduled h0 g s"
  using assms(1,5)
proof (induction rule: reach.induct)
  case start
  with assms(2,4) starts_starting show ?case by blast
next
  case (step s e t)
  obtain i ch now where e: "e = (i, ch, now)" by (cases e)
  note st = step.hyps(2) [unfolded e]
  have f: "static_flow h0 g" using assms(2) by (simp add: starts_flow_def)
  have rt: "reach s0 t" by (rule reach.step [OF step.hyps])
  have live: "starting h0 g x \<or> live_inv h0 g x" "\<not> crashed x \<Longrightarrow> accounts x" if "reach s0 x" for x
    using reach_live [OF that assms(2,3)] reach_accounts [OF that starts_fresh [OF assms(2)]] by blast+
  have i: "i < length (threads s)" and p: "pc_step s i (threads s ! i) ch now = Some t" using st by (auto split: if_splits)
  have "hist t = hist s \<or> (\<exists>e. hist t = hist s @ [e])"
    using static_step_hist(1) [OF p handles_static [OF assms(2) step.hyps(1)]] i by simp
  then have "HPanic n \<notin> set (hist s)" for n using step.prems by auto
  from step.IH [OF this] show ?case
  proof
    assume s: "starting h0 g s \<and> concurrency s = 1"
    then have "starting h0 g t \<or> set_up h0 g t" using starting_step [OF f _ st] by blast
    then show ?thesis
    proof
      assume "set_up h0 g t"
      with s starting_scheduled [OF f _ _ st] set_up_live [OF f _ assms(3)] live_no_crash live(2) [OF rt] step.prems
      show ?thesis by (auto simp: calm_def)
    qed (use s step_concurrency [OF st] in simp)
  next
    assume s: "calm h0 g s \<and> scheduled h0 g s"
    then have l: "live_inv h0 g t" using live_inv_step [OF _ _ st] by (auto simp: calm_def)
    with s step_scheduled [OF _ _ st step.prems] step_one_worker [OF _ st] live_no_crash [OF l] live(2) [OF rt] step.prems
    show ?thesis by (auto simp: calm_def)
  qed
qed

lemma hand_le: "accounts s \<Longrightarrow> concurrency s = 1 \<Longrightarrow> length (cat hand s) \<le> 1"
proof -
  assume a: "accounts s" "concurrency s = 1"
  have "length (hand p) \<le> in_closure p" for p by (cases p) auto
  then have "sum_list (map (length \<circ> hand) (threads s)) \<le> total in_closure s" unfolding total_def by (intro sum_list_mono) simp
  also have "\<dots> \<le> 1" using a by (simp add: accounts_def)
  finally show ?thesis by (simp add: cat_def length_concat)
qed

lemma starts_one:
  assumes "static_flow h g" "graph (hflow h tf) = g" "NewExecutor 1 opts now h [[Run tf, Wait]] = Inr s0"
  shows "starts_flow h g s0" "concurrency s0 = 1"
  using assms by (auto simp: starts_flow_def NewExecutor_def)

lemma list_schedule_run:
  assumes "static_flow h g" "graph (hflow h tf) = g" "NewExecutor 1 opts now h [[Run tf, Wait]] = Inr s0"
    and "\<not> canceled (hgraph h g)" "reach s0 s" "\<And>n. HPanic n \<notin> set (hist s)"
  shows "\<exists>q. list_schedule h g (called (hist s)) q \<and> (stuck s \<longrightarrow> q = [])"
proof -
  note o = starts_one [OF assms(1-3)]
  from reach_scheduled [OF assms(5) o(1) assms(4) o(2) assms(6)] show ?thesis
  proof
    assume s: "starting h g s \<and> concurrency s = 1"
    then have "called (hist s) = []" "\<not> stuck s" using starting_not_stuck by (auto simp: starting_def)
    with list_schedule.entries [OF is_sort_sort_nodes] show ?thesis by metis
  next
    assume c: "calm h g s \<and> scheduled h g s"
    then obtain cs where cs: "called (hist s) = cs @ cat hand s" "list_schedule h g cs (cat hand s @ fifo_nodes s)"
      by (auto simp: scheduled_def)
    have l: "live_inv h g s" and a: "accounts s" and nc: "\<not> is_canceled s g"
      using c calmD(6) [of h g s] by (simp_all add: calm_def)
    have "length (cat hand s) \<le> 1" using hand_le [OF a] c by (auto simp: calm_def one_worker_def)
    then consider "cat hand s = []" | n where "cat hand s = [n]" by (cases "cat hand s") auto
    then show ?thesis
    proof cases
      case 1
      moreover have "fifo_nodes s = []" if st: "stuck s"
      proof -
        have p: "soon p = [] \<and> pend p = [] \<and> feed p = []" if "p \<in> set (threads s)" for p
          using stuck_places [OF l st] that by (cases p) fastforce+
        then have "cat soon s = [] \<and> cat pend s = [] \<and> cat feed s = []" by (simp add: cat_0)
        with stuck_pool_empty(1) [OF l st a] stuck_client [OF l st a] nc show ?thesis by (simp add: fifo_nodes_def)
      qed
      ultimately show ?thesis using cs by auto
    next
      case (2 n)
      have "\<not> stuck s"
      proof
        assume st: "stuck s"
        have "hand p = []" if "p \<in> set (threads s)" for p using stuck_places [OF l st] that by (cases p) fastforce+
        with 2 show False using cat_0 [of hand s] by simp
      qed
      with list_schedule.take [OF _ is_sort_sort_nodes] cs 2 show ?thesis by fastforce
    qed
  qed
qed

section \<open>The order of the calls\<close>

text \<open>Two flows with a low and a high task; in the second one a high task depends on the high one.\<close>

definition rank_flow :: heap where
  "rank_flow = flow_heap ''tf'' [BTask ''a'' 0, BPriority 1 LOW, BTask ''b'' 0, BPriority 2 HIGH]"

definition late_flow :: heap where
  "late_flow = flow_heap ''tf'' [BTask ''a'' 0, BPriority 1 LOW, BTask ''b'' 0, BPriority 2 HIGH,
     BTask ''c'' 0, BPriority 3 HIGH, BPrecede 2 [3]]"

lemma rank_flow_facts:
  "static_flow rank_flow 1" "graph (hflow rank_flow 1) = 1" "\<not> canceled (hgraph rank_flow 1)"
  "gnodes (hgraph rank_flow 1) = [1, 2]" "dependents (hnode rank_flow n) = []"
  using flow_heap_static [of "[BTask ''a'' 0, BPriority 1 LOW, BTask ''b'' 0, BPriority 2 HIGH]" "''tf''"]
    flow_heap_plain [of "[BTask ''a'' 0, BPriority 1 LOW, BTask ''b'' 0, BPriority 2 HIGH]" "''tf''"]
  by (simp_all add: rank_flow_def plain_heap_def to_node_def upt_rec)

lemma late_flow_facts:
  "static_flow late_flow 1" "graph (hflow late_flow 1) = 1" "\<not> canceled (hgraph late_flow 1)"
  "gnodes (hgraph late_flow 1) = [1, 2, 3]" "dependents (hnode late_flow n) = (if n = 3 then [2] else [])"
  "successors (hnode late_flow n) = (if n = 2 then [3] else [])"
  using flow_heap_static [of "[BTask ''a'' 0, BPriority 1 LOW, BTask ''b'' 0, BPriority 2 HIGH,
      BTask ''c'' 0, BPriority 3 HIGH, BPrecede 2 [3]]" "''tf''"]
    flow_heap_plain [of "[BTask ''a'' 0, BPriority 1 LOW, BTask ''b'' 0, BPriority 2 HIGH,
      BTask ''c'' 0, BPriority 3 HIGH, BPrecede 2 [3]]" "''tf''"]
  by (simp_all add: late_flow_def plain_heap_def to_node_def from_node_def upt_rec)

lemma flow_priorities:
  "map (\<lambda>n. priority (hnode rank_flow n)) [1, 2] = [LOW, HIGH]"
  "map (\<lambda>n. priority (hnode late_flow n)) [1, 2, 3] = [LOW, HIGH, HIGH]"
  by code_simp+

lemma two_sorted:
  assumes "is_sort h [a, b] q" "priority (hnode h b) < priority (hnode h a)"
  shows "q = [b, a]"
proof -
  have "mset q = mset [a, b]" using assms(1) by (simp add: is_sort_def)
  from mset_eq_length [OF this] have "length q = 2" by simp
  then obtain x y where q: "q = [x, y]" by (auto simp: numeral_2_eq_2 length_Suc_conv)
  with assms show ?thesis by (auto simp: is_sort_def add_eq_conv_ex)
qed

lemma late_flow_schedule:
  assumes "list_schedule late_flow 1 cs q"
  shows "(cs, q) \<in> {([], [2, 1]), ([2], [1, 3]), ([2, 1], [3]), ([2, 1, 3], [])}"
  using assms
proof (induction rule: list_schedule.induct)
  case (entries q)
  have "entry_nodes late_flow 1 = [1, 2]" by (simp add: entry_nodes_def late_flow_facts [unfolded One_nat_def])
  with entries two_sorted [of late_flow 1 2 q] flow_priorities(2) show ?case by (simp add: LOW_def HIGH_def)
next
  case (take cs n q es)
  then show ?case by (auto simp: released_def late_flow_facts is_sort_def)
qed

lemma demo_Inr: "NewExecutor 1 [] 0 h [cs] = Inr (demo 1 h cs)"
  by (simp add: demo_def NewExecutor_def)

text \<open>(C13) On one worker the executor is a list scheduler. In every run of a flow of static tasks in
  which no task panics, the tasks called so far are those that a sequential scheduler with a queue
  calls first: it starts with the entries in the order of their priorities, and after each task puts the
  successors that have become ready behind the queue, in the order of theirs. When nothing can move
  any more, the queue of the scheduler is empty.\<close>

theorem one_worker_schedule:
  assumes "static_flow h g" "graph (hflow h tf) = g" "NewExecutor 1 opts now h [[Run tf, Wait]] = Inr s0"
    and "\<not> canceled (hgraph h g)" "reach s0 s" "\<And>n. HPanic n \<notin> set (hist s)"
  shows "\<exists>q. list_schedule h g (called (hist s)) q \<and> (stuck s \<longrightarrow> q = [])"
  using assms by (rule list_schedule_run)

text \<open>A high task that becomes ready behind a queued low one is called after it.\<close>

lemma one_worker_schedule_witness:
  "\<exists>s. reach (demo 1 late_flow [Run 1, Wait]) s \<and> stuck s \<and> called (hist s) = [2, 1, 3]"
proof -
  have st: "starts_flow late_flow 1 (demo 1 late_flow [Run 1, Wait])"
    by (rule starts_one(1) [OF late_flow_facts(1,2) demo_Inr])
  obtain s where s: "reach (demo 1 late_flow [Run 1, Wait]) s" "stuck s" "\<And>n. HPanic n \<notin> set (hist s)"
    using completed_run_exists [OF st] by blast
  have "list_schedule late_flow 1 (called (hist s)) []"
    using one_worker_schedule [OF late_flow_facts(1,2) demo_Inr late_flow_facts(3) s(1,3)] s(2) by blast
  then have "called (hist s) = [2, 1, 3]" using late_flow_schedule by fastforce
  with s(1,2) show ?thesis by blast
qed

text \<open>(C14) Priorities. On one worker, the tasks of a flow without dependencies are called in the order of
  their priorities, \<open>HIGH\<close> first, for every interleaving with the client; when nothing can move any more,
  all of them have been called.\<close>

theorem priority_order:
  assumes "static_flow h g" "graph (hflow h tf) = g" "NewExecutor 1 opts now h [[Run tf, Wait]] = Inr s0"
    and "\<not> canceled (hgraph h g)" "reach s0 s" "\<And>n. HPanic n \<notin> set (hist s)"
    and "\<forall>n \<in> set (gnodes (hgraph h g)). dependents (hnode h n) = []"
  shows "sorted (map (\<lambda>n. priority (hnode h n)) (called (hist s))) \<and>
    (stuck s \<longrightarrow> mset (called (hist s)) = mset (gnodes (hgraph h g)))"
proof -
  obtain q where q: "list_schedule h g (called (hist s)) q" "stuck s \<longrightarrow> q = []"
    using list_schedule_run [OF assms(1-6)] by blast
  have "is_sort h (gnodes (hgraph h g)) (called (hist s) @ q)"
    by (rule schedule_independent [OF q(1) _ assms(7)]) (use assms(1) in \<open>auto simp: static_flow_def\<close>)
  with q(2) show ?thesis by (auto simp: is_sort_def sorted_append)
qed


lemma priority_order_witness:
  "\<exists>s. reach (demo 1 rank_flow [Run 1, Wait]) s \<and> stuck s \<and> called (hist s) = [2, 1]"
proof -
  have st: "starts_flow rank_flow 1 (demo 1 rank_flow [Run 1, Wait])"
    by (rule starts_one(1) [OF rank_flow_facts(1,2) demo_Inr])
  obtain s where s: "reach (demo 1 rank_flow [Run 1, Wait]) s" "stuck s" "\<And>n. HPanic n \<notin> set (hist s)"
    using completed_run_exists [OF st] by blast
  have "is_sort rank_flow [1, 2] (called (hist s))"
    using priority_order [OF rank_flow_facts(1,2) demo_Inr rank_flow_facts(3) s(1,3)] s(2) rank_flow_facts(4,5)
    by (simp add: is_sort_def)
  with two_sorted [of rank_flow 1 2] flow_priorities(1) have "called (hist s) = [2, 1]" by (simp add: LOW_def HIGH_def)
  with s(1,2) show ?thesis by blast
qed

end
