(* ===== verification/Profile.thy ===== *)
theory Profile
  imports Observer
begin

text \<open>
  What the profiler prints: \<open>NormalizeDuration\<close> of \<open>utils/utils.go\<close>, \<open>span.String\<close> and \<open>profiler.draw\<close>
  of \<open>profiler.go\<close>. Durations are nanoseconds. \<open>Duration.Hours\<close>, \<open>Minutes\<close> and \<open>Seconds\<close> go through
  \<open>float64\<close>; below 4096 hours the truncation of their results is the truncated quotient that is used
  here, and the round trip is stated for these durations.
\<close>

section \<open>The code\<close>

definition itoa_int :: "int \<Rightarrow> string" where
  "itoa_int i = (if i < 0 then CHR ''-'' # itoa (nat (- i)) else itoa (nat i))"

text \<open>The micro sign is two bytes in UTF-8.\<close>

definition micro :: string where "micro = [CHR 0xC2, CHR 0xB5]"

definition NormalizeDuration :: "int \<Rightarrow> string" where
  "NormalizeDuration d =
     (let hours = quot d 3600000000000;
          minutes = remn (quot d 60000000000) 60;
          seconds = remn (quot d 1000000000) 60;
          milliseconds = remn (quot d 1000000) 1000;
          microseconds = remn (quot d 1000) 1000;
          nanoseconds = remn d 1000;
          parts = [];
          parts = (if hours > 0 then parts @ itoa_int hours @ ''h'' else parts);
          parts = (if minutes > 0 then parts @ itoa_int minutes @ ''m'' else parts);
          parts = (if seconds > 0 then parts @ itoa_int seconds @ ''s'' else parts);
          parts = (if milliseconds > 0 then parts @ itoa_int milliseconds @ ''ms'' else parts);
          parts = (if microseconds > 0 then parts @ itoa_int microseconds @ micro @ ''s'' else parts)
      in if nanoseconds > 0 \<or> length parts = 0 then parts @ itoa_int nanoseconds @ ''ns'' else parts)"

definition span_String :: "span \<Rightarrow> string" where
  "span_String s = fst (extra s) @ '','' @ snd (extra s) @ '',cost '' @ NormalizeDuration (cost s)"

text \<open>The loop over the parents, and one line of the profile. The keys of the profiler's map come in
  the order \<open>order\<close>.\<close>

partial_function (option) add_parents :: "observer \<Rightarrow> sid \<Rightarrow> string \<Rightarrow> string option" where
  "add_parents ob cur path =
     (case parent (ospan ob cur) of None \<Rightarrow> Some path
      | Some p \<Rightarrow> add_parents ob p (span_String (ospan ob p) @ '';'' @ path))"

declare add_parents.simps [code]

definition draw_span :: "observer \<Rightarrow> sid \<Rightarrow> string option" where
  "draw_span ob s =
     (if fst (extra (ospan ob s)) \<noteq> nodeSubflow
      then map_option (\<lambda>path. path @ '' '' @ itoa_int (microseconds (cost (ospan ob s))) @ [CHR 0x0A])
             (add_parents ob s (span_String (ospan ob s)))
      else Some [])"

fun draw_spans :: "observer \<Rightarrow> sid list \<Rightarrow> string option" where
  "draw_spans ob [] = Some []"
| "draw_spans ob (s # ss) =
     (case draw_span ob s of None \<Rightarrow> None | Some line \<Rightarrow> map_option (\<lambda>rest. line @ rest) (draw_spans ob ss))"

definition profiler_draw :: "(attr list \<Rightarrow> attr list) \<Rightarrow> observer \<Rightarrow> profiler \<Rightarrow> string option" where
  "profiler_draw order ob p = draw_spans ob (map (\<lambda>a. the (map_of p a)) (order (map fst p)))"

text \<open>\<open>Profile\<close> of the executor: nothing without a profiler.\<close>

definition Profile_text :: "(attr list \<Rightarrow> attr list) \<Rightarrow> observer \<Rightarrow> string option" where
  "Profile_text order ob = (case oprofiler ob of None \<Rightarrow> Some [] | Some p \<Rightarrow> profiler_draw order ob p)"

section \<open>Reading a duration back\<close>

definition is_digit :: "char \<Rightarrow> bool" where
  "is_digit c \<longleftrightarrow> 48 \<le> (of_char c :: nat) \<and> (of_char c :: nat) \<le> 57"

definition digits_value :: "string \<Rightarrow> nat" where
  "digits_value ds = foldl (\<lambda>a c. a * 10 + (of_char c - 48)) 0 ds"

fun unit_of :: "string \<Rightarrow> (int \<times> string) option" where
  "unit_of (c # r) =
     (if c = CHR ''h'' then Some (3600000000000, r)
      else if c = CHR ''m'' then (case r of d # r' \<Rightarrow> if d = CHR ''s'' then Some (1000000, r') else Some (60000000000, r) | [] \<Rightarrow> Some (60000000000, r))
      else if c = CHR ''s'' then Some (1000000000, r)
      else if take 2 r = [CHR 0xB5, CHR ''s''] \<and> c = CHR 0xC2 then Some (1000, drop 2 r)
      else if take 1 r = ''s'' \<and> c = CHR ''n'' then Some (1, drop 1 r)
      else None)"
| "unit_of [] = None"

lemma unit_of_shorter: "unit_of s = Some (u, r) \<Longrightarrow> length r < length s"
  by (cases s) (auto split: if_splits list.splits)

function read_duration :: "string \<Rightarrow> int option" where
  "read_duration s =
     (if s = [] then Some 0
      else if takeWhile is_digit s = [] then None
      else case unit_of (dropWhile is_digit s) of None \<Rightarrow> None
        | Some (u, r) \<Rightarrow> map_option (\<lambda>x. int (digits_value (takeWhile is_digit s)) * u + x) (read_duration r))"
  by auto
termination
  by (relation "measure length") (auto dest!: unit_of_shorter intro: order.strict_trans2 [OF _ length_dropWhile_le])

declare read_duration.simps [simp del]

lemma itoa_digits: "list_all is_digit (itoa n) \<and> itoa n \<noteq> []"
  by (induction n rule: itoa.induct) (subst (1 2) itoa.simps, auto simp: is_digit_def [abs_def])

lemma digits_value_itoa: "digits_value (itoa n) = n"
  by (induction n rule: itoa.induct) (subst itoa.simps, auto simp: digits_value_def)

text \<open>One part of a duration: a number and a unit that is followed by the next number or the end.\<close>

definition starts_part :: "string \<Rightarrow> bool" where
  "starts_part r \<longleftrightarrow> r = [] \<or> is_digit (hd r)"

lemma read_part:
  assumes "unit_of ((c # un) @ r) = Some (u, r)" "\<not> is_digit c"
  shows "read_duration (itoa n @ (c # un) @ r) = map_option (\<lambda>x. int n * u + x) (read_duration r)"
proof -
  have d: "\<And>x. x \<in> set (itoa n) \<Longrightarrow> is_digit x" "itoa n \<noteq> []" using itoa_digits by (auto simp: list_all_iff)
  have "takeWhile is_digit (itoa n @ c # un @ r) = itoa n" "dropWhile is_digit (itoa n @ c # un @ r) = c # un @ r"
    using d(1) assms(2) by (simp_all add: takeWhile_append2 dropWhile_append2)
  then show ?thesis using d(2) assms(1) by (subst read_duration.simps) (simp add: digits_value_itoa)
qed

text \<open>A part that is printed only when its number is positive.\<close>

definition part :: "int \<Rightarrow> string \<Rightarrow> string" where
  "part i un = (if i > 0 then itoa_int i @ un else [])"

lemma part_cases: "part i un = [] \<and> i \<le> 0 \<or> part i un = itoa (nat i) @ un \<and> 0 < i"
  by (simp add: part_def itoa_int_def)

lemma starts_part_append:
  assumes "starts_part r" shows "starts_part (part i un @ r)"
proof -
  have "is_digit (hd (itoa n @ x))" for n x using itoa_digits [of n] by (cases "itoa n") auto
  with part_cases [of i un] assms show ?thesis by (auto simp: starts_part_def)
qed

lemma read_optional:
  assumes "0 \<le> i" "un = c # un'" "unit_of (un @ r) = Some (u, r)" "\<not> is_digit c" "read_duration r = Some x"
  shows "read_duration (part i un @ r) = Some (i * u + x)"
  using part_cases [of i un] read_part [of c un' r u "nat i"] assms by auto

lemma units:
  assumes "starts_part r"
  shows "unit_of (''h'' @ r) = Some (3600000000000, r)" "unit_of (''m'' @ r) = Some (60000000000, r)"
    "unit_of (''s'' @ r) = Some (1000000000, r)" "unit_of (''ms'' @ r) = Some (1000000, r)"
    "unit_of ((micro @ ''s'') @ r) = Some (1000, r)" "unit_of (''ns'' @ r) = Some (1, r)"
  using assms by (auto simp: starts_part_def micro_def is_digit_def split: list.splits)

lemma NormalizeDuration_parts:
  assumes "0 \<le> d"
  shows "NormalizeDuration d = (let r = part (d mod 1000) ''ns'';
      t = part (d div 3600000000000) ''h'' @ part (d div 60000000000 mod 60) ''m'' @ part (d div 1000000000 mod 60) ''s'' @
        part (d div 1000000 mod 1000) ''ms'' @ part (d div 1000 mod 1000) (micro @ ''s'')
    in if t @ r = [] then ''0ns'' else t @ r)"
proof -
  have q: "quot d k = d div k" for k
    using assms by (auto simp: quot_def sgn_if)
  have m: "remn a k = a mod k" if "0 \<le> a" for k a
    using that by (auto simp: remn_def sgn_if)
  have nn: "0 \<le> d div k" if "0 < k" for k using assms that by (simp add: pos_imp_zdiv_nonneg_iff)
  have z: "itoa_int 0 = ''0''" by code_simp
  have n: "quot d 3600000000000 = d div 3600000000000" "remn (quot d 60000000000) 60 = d div 60000000000 mod 60"
    "remn (quot d 1000000000) 60 = d div 1000000000 mod 60" "remn (quot d 1000000) 1000 = d div 1000000 mod 1000"
    "remn (quot d 1000) 1000 = d div 1000 mod 1000" "remn d 1000 = d mod 1000"
    by (simp_all add: q m nn assms)
  have opt: "(if 0 < i then p @ itoa_int i @ un else p) = p @ part i un" for i p un by (simp add: part_def)
  have "(if 0 < i \<or> length t = 0 then t @ itoa_int i @ ''ns'' else t) =
      (if t @ part i ''ns'' = [] then ''0ns'' else t @ part i ''ns'')" if "0 \<le> i" for i t
    using that z by (cases "i = 0") (simp_all add: part_def)
  then have last: "(if 0 < d mod 1000 \<or> length t = 0 then t @ itoa_int (d mod 1000) @ ''ns'' else t) =
      (if t @ part (d mod 1000) ''ns'' = [] then ''0ns'' else t @ part (d mod 1000) ''ns'')" for t by simp
  show ?thesis
    using last [of "part (d div 3600000000000) ''h'' @ part (d div 60000000000 mod 60) ''m'' @ part (d div 1000000000 mod 60) ''s'' @
        part (d div 1000000 mod 1000) ''ms'' @ part (d div 1000 mod 1000) (micro @ ''s'')"]
    unfolding NormalizeDuration_def n Let_def opt append_Nil append_assoc .
qed

lemma no_digit_units [simp]: "\<not> is_digit (CHR ''h'')" "\<not> is_digit (CHR ''m'')" "\<not> is_digit (CHR ''s'')"
  "\<not> is_digit (CHR ''n'')" "\<not> is_digit (CHR 0xC2)"
  by (simp_all add: is_digit_def)

lemma read_unit:
  assumes "0 \<le> i" "starts_part r" "read_duration r = Some x"
  shows "read_duration (part i ''h'' @ r) = Some (i * 3600000000000 + x)"
    "read_duration (part i ''m'' @ r) = Some (i * 60000000000 + x)"
    "read_duration (part i ''s'' @ r) = Some (i * 1000000000 + x)"
    "read_duration (part i ''ms'' @ r) = Some (i * 1000000 + x)"
    "read_duration (part i (micro @ ''s'') @ r) = Some (i * 1000 + x)"
    "read_duration (part i ''ns'' @ r) = Some (i * 1 + x)"
  using read_optional [OF assms(1) refl units(1) [OF assms(2)] _ assms(3)]
    read_optional [OF assms(1) refl units(2) [OF assms(2)] _ assms(3)]
    read_optional [OF assms(1) refl units(3) [OF assms(2)] _ assms(3)]
    read_optional [OF assms(1) refl units(4) [OF assms(2)] _ assms(3)]
    read_optional [OF assms(1) _ units(5) [OF assms(2)] _ assms(3), of "CHR 0xC2" "CHR 0xB5 # ''s''"]
    read_optional [OF assms(1) refl units(6) [OF assms(2)] _ assms(3)]
  by (simp_all add: micro_def)

lemma duration_sum:
  fixes d :: int
  shows "d div 3600000000000 * 3600000000000 + (d div 60000000000 mod 60 * 60000000000 + (d div 1000000000 mod 60 * 1000000000 +
    (d div 1000000 mod 1000 * 1000000 + (d div 1000 mod 1000 * 1000 + d mod 1000)))) = d"
proof -
  have s: "d div 1000000 = d div 1000 div 1000" "d div 1000000000 = d div 1000000 div 1000"
    "d div 60000000000 = d div 1000000000 div 60" "d div 3600000000000 = d div 60000000000 div 60"
    by (simp_all add: zdiv_zmult2_eq [symmetric])
  have m: "a div k * k + a mod k = a" for a k :: int by (rule div_mult_mod_eq)
  note e = m [of d 1000] m [of "d div 1000" 1000] m [of "d div 1000000" 1000] m [of "d div 1000000000" 60] m [of "d div 60000000000" 60]
  show ?thesis using e unfolding s(1) [symmetric] s(2) [symmetric] s(3) [symmetric] s(4) [symmetric] by linarith
qed

text \<open>(C40) The text of a duration says the duration: reading the numbers and units that
  \<open>NormalizeDuration\<close> prints gives back the same number of nanoseconds, for every duration from 0
  to 4096 hours. (From there on the \<open>float64\<close> in \<open>Duration.Hours\<close> can round up.)\<close>

theorem NormalizeDuration_roundtrip:
  assumes "0 \<le> d" "d < 4096 * 3600000000000"
  shows "read_duration (NormalizeDuration d) = Some d"
proof -
  define e where "e = part (d mod 1000) ''ns''"
  define us where "us = part (d div 1000 mod 1000) (micro @ ''s'')"
  define ms where "ms = part (d div 1000000 mod 1000) ''ms''"
  define sec where "sec = part (d div 1000000000 mod 60) ''s''"
  define mn where "mn = part (d div 60000000000 mod 60) ''m''"
  define hr where "hr = part (d div 3600000000000) ''h''"
  note defs = e_def us_def ms_def sec_def mn_def hr_def
  have nn: "0 \<le> d div k" if "0 < k" for k using assms that by (simp add: pos_imp_zdiv_nonneg_iff)
  have st: "starts_part e" "starts_part (us @ e)" "starts_part (ms @ us @ e)" "starts_part (sec @ ms @ us @ e)"
    "starts_part (mn @ sec @ ms @ us @ e)"
  proof -
    show "starts_part e" using starts_part_append [of "[]" "d mod 1000" "''ns''"] by (simp add: e_def starts_part_def)
    then show "starts_part (us @ e)" unfolding us_def by (rule starts_part_append)
    then show "starts_part (ms @ us @ e)" unfolding ms_def by (rule starts_part_append)
    then show "starts_part (sec @ ms @ us @ e)" unfolding sec_def by (rule starts_part_append)
    then show "starts_part (mn @ sec @ ms @ us @ e)" unfolding mn_def by (rule starts_part_append)
  qed
  have nil: "read_duration [] = Some 0" "starts_part []" by (simp_all add: read_duration.simps starts_part_def)
  have "read_duration e = Some (d mod 1000)" using read_unit(6) [OF _ nil(2,1), of "d mod 1000"] by (simp add: e_def)
  note r1 = read_unit(5) [OF _ st(1) this, of "d div 1000 mod 1000", folded us_def]
  note r2 = read_unit(4) [OF _ st(2) r1, of "d div 1000000 mod 1000", folded ms_def]
  note r3 = read_unit(3) [OF _ st(3) r2, of "d div 1000000000 mod 60", folded sec_def]
  note r4 = read_unit(2) [OF _ st(4) r3, of "d div 60000000000 mod 60", folded mn_def]
  note r5 = read_unit(1) [OF _ st(5) r4, of "d div 3600000000000", folded hr_def]
  have all: "read_duration (hr @ mn @ sec @ ms @ us @ e) = Some d"
    using r5 nn by (simp add: duration_sum)
  have z: "read_duration ''0ns'' = Some 0" by code_simp
  show ?thesis
  proof (cases "hr @ mn @ sec @ ms @ us @ e = []")
    case True
    then have "d = 0" using all nil(1) by simp
    then show ?thesis using NormalizeDuration_parts [OF assms(1)] z by (simp add: part_def)
  next
    case False
    have "NormalizeDuration d = hr @ mn @ sec @ ms @ us @ e"
      using NormalizeDuration_parts [OF assms(1)]
      unfolding defs [symmetric] Let_def append_assoc if_not_P [OF False] .
    then show ?thesis using all by (simp only:)
  qed
qed

lemma NormalizeDuration_roundtrip_witness:
  "read_duration (NormalizeDuration 3723004005006) = Some 3723004005006"
  by (rule NormalizeDuration_roundtrip) simp_all

end
