(* ===== verification/Example_Fibonacci.thy ===== *)
theory Example_Fibonacci
  imports Static_Clients
begin

text \<open>
  The program \<open>examples/fibonacci/fibonacci.go\<close>: one task per Fibonacci number, each after the two tasks
  whose results it adds. The shared variable is the slice \<open>fib\<close> of 64-bit integers. \<open>n\<close> is 10 in the
  program; here it is an argument. Task \<open>F k\<close> is node \<open>k + 1\<close>.
\<close>

section \<open>The code\<close>

definition fib_loop_body :: "nat \<Rightarrow> build list" where
  "fib_loop_body k = [BTask (''F'' @ itoa k) 0, BPrecede k [k + 1], BPrecede (k - 1) [k + 1]]"

definition fib_calls :: "nat \<Rightarrow> build list" where
  "fib_calls n = [BTask ''F0'' 0, BTask ''F1'' 0] @ concat (map fib_loop_body [2..<n + 1])"

definition fib_flow :: "nat \<Rightarrow> heap" where
  "fib_flow n = flow_heap ''fibonacci'' (fib_calls n)"

definition fib_init :: "nat \<Rightarrow> 64 word list" where
  "fib_init n = replicate (n + 1) 0"

text \<open>The functions of the tasks. An index out of range panics.\<close>

definition fib_store :: "nat \<Rightarrow> 64 word \<Rightarrow> 64 word list \<Rightarrow> 64 word list option" where
  "fib_store k x fib = (if k < length fib then Some (fib[k := x]) else None)"

definition fib_task :: "nid \<Rightarrow> 64 word list \<Rightarrow> 64 word list option" where
  "fib_task node fib =
     (let k = node - 1
      in if k < 2 then fib_store k 1 fib
         else if k - 1 < length fib \<and> k - 2 < length fib then fib_store k (fib ! (k - 1) + fib ! (k - 2)) fib
         else None)"

section \<open>The flow\<close>

lemma fib_calls_Suc: "2 \<le> n + 1 \<Longrightarrow> fib_calls (Suc n) = fib_calls n @ fib_loop_body (Suc n)"
  by (simp add: fib_calls_def)

lemma fib_calls_shape:
  "1 \<le> n \<Longrightarrow> tasks_of (fib_calls n) = n + 1 \<and> calls_ok 0 (fib_calls n) \<and> length (edges_of (fib_calls n)) = 2 * (n - 1) \<and>
    set (edges_of (fib_calls n)) = {(a, b). 3 \<le> b \<and> b \<le> n + 1 \<and> (a = b - 1 \<or> a = b - 2)}"
proof (induction n rule: dec_induct)
  case base
  show ?case by (auto simp: fib_calls_def)
next
  case (step n)
  then have "set (edges_of (fib_calls (Suc n))) = {(a, b). 3 \<le> b \<and> b \<le> n + 1 \<and> (a = b - 1 \<or> a = b - 2)} \<union> {(n + 1, n + 2), (n, n + 2)}"
    by (auto simp: fib_calls_Suc calls_append fib_loop_body_def)
  also have "\<dots> = {(a, b). 3 \<le> b \<and> b \<le> Suc n + 1 \<and> (a = b - 1 \<or> a = b - 2)}" using step.hyps by auto
  finally show ?case using step by (simp add: fib_calls_Suc calls_append fib_loop_body_def)
qed

lemma fib_to_node:
  assumes "1 \<le> n" shows "set (to_node (edges_of (fib_calls n)) m) = (if 3 \<le> m \<and> m \<le> n + 1 then {m - 1, m - 2} else {})"
proof -
  have "set (to_node es m) = {a. (a, m) \<in> set es}" for es :: "(nid \<times> nid) list"
    by (force simp: to_node_def)
  then show ?thesis using fib_calls_shape [OF assms] by auto
qed

section \<open>The result\<close>

fun fib_number :: "nat \<Rightarrow> nat" where
  "fib_number 0 = 1"
| "fib_number (Suc 0) = 1"
| "fib_number (Suc (Suc k)) = fib_number (Suc k) + fib_number k"

text \<open>The cells of the tasks that are done hold their numbers.\<close>

definition fib_inv :: "nat \<Rightarrow> nid set \<Rightarrow> 64 word list \<Rightarrow> bool" where
  "fib_inv n D fib \<longleftrightarrow> length fib = n + 1 \<and> (\<forall>k. Suc k \<in> D \<longrightarrow> k \<le> n \<longrightarrow> fib ! k = of_nat (fib_number k))"

lemma fib_inv_step:
  assumes "1 \<le> n" "fib_inv n D fib" "m \<in> {0<..n + 1}" "set (to_node (edges_of (fib_calls n)) m) \<subseteq> D"
  shows "\<exists>fib'. fib_task m fib = Some fib' \<and> fib_inv n (insert m D) fib'"
proof (cases "m < 3")
  case True
  then have "m = 1 \<or> m = 2" using assms(3) by auto
  with assms show ?thesis
    by (auto simp: fib_task_def fib_store_def fib_inv_def nth_list_update)
next
  case False
  define k where "k = m - 3"
  have k: "m = k + 3" "k + 2 \<le> n" using False assms(3) by (auto simp: k_def)
  then have "Suc (k + 1) \<in> D" "Suc k \<in> D" using assms(4) by (auto simp: fib_to_node [OF assms(1)] numeral_eq_Suc)
  then have "fib ! (k + 1) = of_nat (fib_number (k + 1))" "fib ! k = of_nat (fib_number k)" "length fib = n + 1"
    using assms(2) k(2) by (auto simp: fib_inv_def)
  with assms(2) k show ?thesis
    by (auto simp: fib_task_def fib_store_def fib_inv_def nth_list_update numeral_3_eq_3)
qed

text \<open>(C20) The Fibonacci program is correct under every interleaving: in a completed run with no panic,
  in whatever order the functions of concurrent tasks took effect, none of their slice accesses is
  out of range and \<open>fib[k]\<close> is the \<open>k\<close>-th Fibonacci number (as a 64-bit integer), for all \<open>k \<le> n\<close>.\<close>

theorem fibonacci_correct:
  assumes "1 \<le> n" "n < 2 ^ 31"
    and "NewExecutor c opts now (fib_flow n) [[Run 1, Wait]] = Inr s0" "reach s0 s" "stuck s"
    and "\<And>m. HPanic m \<notin> set (hist s)" "effect_order (hist s) ns"
  shows "\<exists>fib. perform fib_task ns (fib_init n) = Some fib \<and> length fib = n + 1 \<and>
    (\<forall>k \<le> n. fib ! k = of_nat (fib_number k))"
proof -
  note sh = fib_calls_shape [OF assms(1)]
  have "\<exists>fib. perform fib_task ns (fib_init n) = Some fib \<and> fib_inv n {0<..tasks_of (fib_calls n)} fib"
  proof (rule client_run [where rank = id and Inv = "fib_inv n", OF _ _ _ _ assms(3) [unfolded fib_flow_def] assms(4-7)])
    show "fib_inv n {} (fib_init n)" by (simp add: fib_inv_def fib_init_def)
  qed (use sh assms(1,2) fib_inv_step in auto)
  then obtain fib where "perform fib_task ns (fib_init n) = Some fib" "fib_inv n {0<..n + 1} fib" using sh by auto
  then show ?thesis by (simp add: fib_inv_def)
qed

lemma fibonacci_correct_witness:
  "\<exists>s0 s ns fib. NewExecutor 4 [] 0 (fib_flow 10) [[Run 1, Wait]] = Inr s0 \<and> reach s0 s \<and> effect_order (hist s) ns \<and>
     perform fib_task ns (fib_init 10) = Some fib \<and> fib ! 10 = 89"
proof -
  have n: "(1 :: nat) \<le> 10" "(10 :: nat) < 2 ^ 31" by simp_all
  obtain s0 where s0: "NewExecutor 4 [] 0 (fib_flow 10) [[Run 1, Wait]] = Inr s0" by (simp add: NewExecutor_def)
  have ok: "calls_ok 0 (fib_calls 10)" "tasks_of (fib_calls 10) < 2 ^ 32" "length (edges_of (fib_calls 10)) < 2 ^ 32"
    using fib_calls_shape [OF n(1)] by auto
  obtain s ns where s: "reach s0 s" "stuck s" "\<And>m. HPanic m \<notin> set (hist s)" "effect_order (hist s) ns"
    by (rule client_run_exists [OF ok s0 [unfolded fib_flow_def]]) (rule that)
  obtain fib where f: "perform fib_task ns (fib_init 10) = Some fib" "\<forall>k \<le> 10. fib ! k = of_nat (fib_number k)"
    using fibonacci_correct [OF n s0 s] by blast
  have "fib_number 10 = 89" by code_simp
  then have "fib ! 10 = 89" using f(2) by simp
  with s0 s f(1) show ?thesis by blast
qed

end
