(* ===== verification/Example_Merge_Sort.thy ===== *)
theory Example_Merge_Sort
  imports Static_Clients
begin

text \<open>
  The program \<open>examples/parallel_merge_sort/parallel_merge_sort.go\<close>: one task per chunk sorts it and merges it
  into the common result under a mutex, so the merges of concurrent tasks happen in an order nobody
  fixes; the task \<open>done\<close>, after all of them, checks the result. The program has 100 chunks of 1000
  random numbers; here the chunks are an argument. \<open>done\<close> is node 1, \<open>sort_i\<close> is node \<open>i + 2\<close>.
\<close>

section \<open>The code\<close>

function merge_loop :: "int list \<Rightarrow> int list \<Rightarrow> nat \<Rightarrow> nat \<Rightarrow> int list \<Rightarrow> nat \<times> nat \<times> int list" where
  "merge_loop dest src i j tmp =
     (if i < length dest \<and> j < length src
      then if dest ! i < src ! j
           then merge_loop dest src (i + 1) j (tmp @ [dest ! i])
           else merge_loop dest src i (j + 1) (tmp @ [src ! j])
      else (i, j, tmp))"
  by auto
termination
  by (relation "measure (\<lambda>(dest, src, i, j, tmp). (length dest - i) + (length src - j))") auto

declare merge_loop.simps [simp del]

definition mergeInto :: "int list \<Rightarrow> int list \<Rightarrow> int list" where
  "mergeInto dest src =
     (let (i, j, tmp) = merge_loop dest src 0 0 []
      in if i < length dest then tmp @ drop i dest else tmp @ drop j src)"

definition msort_calls :: "nat \<Rightarrow> build list" where
  "msort_calls chunks =
     BTask ''done'' 0 # map (\<lambda>i. BTask (''sort_'' @ itoa i) 0) [0..<chunks] @
     [BSucceed 1 (map (\<lambda>i. i + 2) [0..<chunks])]"

definition msort_flow :: "nat \<Rightarrow> heap" where
  "msort_flow chunks = flow_heap ''merge sort'' (msort_calls chunks)"

text \<open>The shared variables: \<open>randomArr\<close> and \<open>sortedArr\<close>. \<open>slices.Sort\<close> sorts the chunk in place. The value
  \<open>None\<close> also stands for \<open>log.Fatal\<close>; \<open>sortedArr[:10]\<close> panics on a shorter slice, as the capacity of
  what \<open>mergeInto\<close> returns is its length.\<close>

definition msort_task :: "nid \<Rightarrow> int list list \<times> int list \<Rightarrow> (int list list \<times> int list) option" where
  "msort_task node = (\<lambda>(randomArr, sortedArr).
     if node = 1
     then if sorted sortedArr \<and> 10 \<le> length sortedArr then Some (randomArr, sortedArr) else None
     else let idx = node - 2
          in if idx < length randomArr
             then (let arr = sort (randomArr ! idx)
                   in Some (randomArr[idx := arr], mergeInto sortedArr arr))
             else None)"

section \<open>\<open>mergeInto\<close> merges\<close>

fun merge_lists :: "int list \<Rightarrow> int list \<Rightarrow> int list" where
  "merge_lists [] ys = ys"
| "merge_lists (x # xs) [] = x # xs"
| "merge_lists (x # xs) (y # ys) = (if x < y then x # merge_lists xs (y # ys) else y # merge_lists (x # xs) ys)"

lemma merge_lists_Nil [simp]: "merge_lists xs [] = xs"
  by (cases xs) auto

lemma merge_loop_lists:
  "i \<le> length dest \<Longrightarrow> j \<le> length src \<Longrightarrow>
    (case merge_loop dest src i j tmp of (i', j', t) \<Rightarrow> if i' < length dest then t @ drop i' dest else t @ drop j' src) =
    tmp @ merge_lists (drop i dest) (drop j src)"
proof (induction dest src i j tmp rule: merge_loop.induct)
  case (1 dest src i j tmp)
  show ?case
  proof (cases "i < length dest \<and> j < length src")
    case True
    then have "drop i dest = dest ! i # drop (Suc i) dest" "drop j src = src ! j # drop (Suc j) src"
      by (simp_all add: Cons_nth_drop_Suc)
    with True 1 show ?thesis by (subst merge_loop.simps) simp
  next
    case False
    then have "drop i dest = [] \<or> drop j src = []" by auto
    with False 1 show ?thesis by (subst merge_loop.simps) auto
  qed
qed

lemma mergeInto_lists: "mergeInto dest src = merge_lists dest src"
  using merge_loop_lists [of 0 dest 0 src "[]"] by (simp add: mergeInto_def)

lemma merge_lists_mset: "mset (merge_lists xs ys) = mset xs + mset ys"
  by (induction xs ys rule: merge_lists.induct) auto

lemma merge_lists_sorted: "sorted xs \<Longrightarrow> sorted ys \<Longrightarrow> sorted (merge_lists xs ys)"
proof (induction xs ys rule: merge_lists.induct)
  case (3 x xs y ys)
  have "set (merge_lists us vs) = set us \<union> set vs" for us vs
    using arg_cong [OF merge_lists_mset [of us vs], of set_mset] by simp
  with 3 show ?case by force
qed auto

lemma mergeInto_sorts:
  assumes "sorted dest" "sorted src"
  shows "mergeInto dest src = sort (dest @ src)"
  unfolding mergeInto_lists
  by (rule properties_for_sort [symmetric]) (simp_all add: merge_lists_mset merge_lists_sorted assms)

section \<open>The flow\<close>

lemma msort_calls_shape:
  "calls_ok 0 (msort_calls k)" "tasks_of (msort_calls k) = k + 1"
  "edges_of (msort_calls k) = map (\<lambda>i. (i + 2, 1)) [0..<k]"
proof -
  have t: "tasks_of (map (\<lambda>i. BTask (f i) 0) is) = length is" "edges_of (map (\<lambda>i. BTask (f i) 0) is) = []"
    "calls_ok j (map (\<lambda>i. BTask (f i) 0) is)" for f :: "nat \<Rightarrow> string" and "is" j
    by (induction "is" arbitrary: j) simp_all
  show "calls_ok 0 (msort_calls k)" "tasks_of (msort_calls k) = k + 1"
    "edges_of (msort_calls k) = map (\<lambda>i. (i + 2, 1)) [0..<k]"
    unfolding msort_calls_def by (simp_all add: t calls_append list_all_iff)
qed

lemma msort_to_node: "set (to_node (edges_of (msort_calls k)) m) = (if m = 1 then {2..k + 1} else {})"
proof -
  have "(\<lambda>i. i + 2) ` {0..<k} = {2..k + 1}"
    using image_add_atLeastLessThan' [of 2 0 k] by (auto simp: atLeastLessThanSuc_atLeastAtMost)
  moreover have "to_node (edges_of (msort_calls k)) m = (if m = 1 then map (\<lambda>i. i + 2) [0..<k] else [])"
    by (simp add: to_node_def msort_calls_shape filter_map comp_def)
  ultimately show ?thesis by auto
qed

section \<open>The result\<close>

text \<open>The chunks whose tasks are done.\<close>

definition done_chunks :: "nat \<Rightarrow> nid set \<Rightarrow> nat set" where
  "done_chunks k D = {i. i < k \<and> i + 2 \<in> D}"

definition msort_inv :: "int list list \<Rightarrow> nid set \<Rightarrow> int list list \<times> int list \<Rightarrow> bool" where
  "msort_inv chunks D = (\<lambda>(randomArr, sortedArr).
     length randomArr = length chunks \<and>
     (\<forall>i < length chunks. randomArr ! i = (if i \<in> done_chunks (length chunks) D then sort (chunks ! i) else chunks ! i)) \<and>
     sorted sortedArr \<and> mset sortedArr = (\<Sum>i \<in> done_chunks (length chunks) D. mset (chunks ! i)))"

lemma finite_done_chunks [simp]: "finite (done_chunks k D)"
  by (simp add: done_chunks_def)

lemma msort_inv_sort:
  assumes "msort_inv chunks D v" "m \<in> {2..length chunks + 1}" "m \<notin> D"
  shows "\<exists>v'. msort_task m v = Some v' \<and> msort_inv chunks (insert m D) v'"
proof -
  obtain arrs srt where v: "v = (arrs, srt)" by (cases v)
  define i where "i = m - 2"
  have i: "m = i + 2" "i < length chunks" using assms(2) by (auto simp: i_def)
  have new: "i \<notin> done_chunks (length chunks) D" using assms(3) i by (simp add: done_chunks_def)
  have ins: "done_chunks (length chunks) (insert m D) = insert i (done_chunks (length chunks) D)"
    using i by (auto simp: done_chunks_def)
  note inv = assms(1) [unfolded msort_inv_def v, simplified]
  have "mergeInto srt (sort (chunks ! i)) = sort (srt @ sort (chunks ! i))"
    using inv by (simp add: mergeInto_sorts)
  then have "msort_inv chunks (insert m D) (arrs[i := sort (chunks ! i)], mergeInto srt (sort (chunks ! i)))"
    using inv new i(2) unfolding msort_inv_def ins by (auto simp: nth_list_update union_commute)
  moreover have "msort_task m v = Some (arrs[i := sort (chunks ! i)], mergeInto srt (sort (chunks ! i)))"
    using inv new i by (simp add: msort_task_def v Let_def)
  ultimately show ?thesis by blast
qed

lemma sum_mset_concat: "(\<Sum>i < length xss. mset (xss ! i)) = mset (concat xss)"
  by (simp add: mset_concat sum_list_sum_nth atLeast0LessThan)

lemma msort_inv_done:
  assumes "msort_inv chunks D v" "{2..length chunks + 1} \<subseteq> D" "10 \<le> length (concat chunks)"
  shows "snd v = sort (concat chunks)" "msort_task 1 v = Some v" "msort_inv chunks (insert 1 D) v"
proof -
  obtain arrs srt where v: "v = (arrs, srt)" by (cases v)
  have "i + 2 \<in> D" if "i < length chunks" for i using assms(2) that by (intro subsetD [OF assms(2)]) simp
  then have all: "done_chunks (length chunks) D = {..<length chunks}" by (auto simp: done_chunks_def)
  then have "mset srt = mset (concat chunks)" "sorted srt"
    using assms(1) sum_mset_concat [of chunks] by (auto simp: msort_inv_def v)
  then have s: "srt = sort (concat chunks)" by (metis properties_for_sort)
  then show "snd v = sort (concat chunks)" by (simp add: v)
  show "msort_task 1 v = Some v" using assms(3) s by (simp add: msort_task_def v)
  have "done_chunks (length chunks) (insert 1 D) = done_chunks (length chunks) D" by (auto simp: done_chunks_def)
  then show "msort_inv chunks (insert 1 D) v" using assms(1) by (simp add: msort_inv_def)
qed

text \<open>(C17) The parallel merge sort sorts, in whatever order the tasks merge their chunks: in a
  completed run with no panic on chunks of at least 10 numbers in all, no access is out of range, the
  check of \<open>done\<close> succeeds, and \<open>sortedArr\<close> is the sorted list of all numbers of all chunks.\<close>

theorem merge_sort_correct:
  assumes "length chunks < 2 ^ 31" "10 \<le> length (concat chunks)"
    and "NewExecutor c opts now (msort_flow (length chunks)) [[Run 1, Wait]] = Inr s0" "reach s0 s" "stuck s"
    and "\<And>m. HPanic m \<notin> set (hist s)" "effect_order (hist s) ns"
  shows "\<exists>arrs. perform msort_task ns (chunks, []) = Some (arrs, sort (concat chunks))"
proof -
  let ?cs = "msort_calls (length chunks)"
  have "\<exists>v. perform msort_task ns (chunks, []) = Some v \<and> msort_inv chunks {0<..tasks_of ?cs} v"
  proof (rule client_run [where rank = "\<lambda>n. if n = 1 then 1 else 0" and Inv = "msort_inv chunks",
        OF msort_calls_shape(1) _ _ _ assms(3) [unfolded msort_flow_def] assms(4-7)])
    show "msort_inv chunks {} (chunks, [])" by (simp add: msort_inv_def done_chunks_def)
  next
    fix D m v
    assume a: "msort_inv chunks D v" "m \<in> {0<..tasks_of ?cs}" "m \<notin> D" "set (to_node (edges_of ?cs) m) \<subseteq> D"
    show "\<exists>v'. msort_task m v = Some v' \<and> msort_inv chunks (insert m D) v'"
    proof (cases "m = 1")
      case True
      then have "{2..length chunks + 1} \<subseteq> D" using a(4) by (simp add: msort_to_node)
      with msort_inv_done(2,3) [OF a(1) _ assms(2)] True show ?thesis by blast
    next
      case False
      with a(2) have "m \<in> {2..length chunks + 1}" by (auto simp: msort_calls_shape)
      from msort_inv_sort [OF a(1) this a(3)] show ?thesis .
    qed
  qed (use assms(1) in \<open>auto simp: msort_calls_shape\<close>)
  then obtain arrs srt where v: "perform msort_task ns (chunks, []) = Some (arrs, srt)"
    "msort_inv chunks {0<..length chunks + 1} (arrs, srt)" by (auto simp: msort_calls_shape)
  have "{2..length chunks + 1} \<subseteq> {0<..length chunks + 1}" by auto
  from msort_inv_done(1) [OF v(2) this assms(2)] v(1) show ?thesis by simp
qed

lemma merge_sort_correct_witness:
  "\<exists>s0 s ns arrs. NewExecutor 1000 [WithProfiler] 0 (msort_flow 2) [[Run 1, Wait]] = Inr s0 \<and> reach s0 s \<and>
     effect_order (hist s) ns \<and>
     perform msort_task ns ([[5, 3, 9, 1, 7], [6, 3, 8, 2, 4]], []) = Some (arrs, [1, 2, 3, 3, 4, 5, 6, 7, 8, 9])"
proof -
  let ?c = "[[5, 3, 9, 1, 7], [6, 3, 8, 2, 4]] :: int list list"
  have c: "length ?c < 2 ^ 31" "10 \<le> length (concat ?c)" "length ?c = 2" by simp_all
  obtain s0 where s0: "NewExecutor 1000 [WithProfiler] 0 (msort_flow 2) [[Run 1, Wait]] = Inr s0"
    by (simp add: NewExecutor_def)
  have ok: "tasks_of (msort_calls 2) < 2 ^ 32" "length (edges_of (msort_calls 2)) < 2 ^ 32"
    by (simp_all add: msort_calls_shape)
  obtain s ns where s: "reach s0 s" "stuck s" "\<And>m. HPanic m \<notin> set (hist s)" "effect_order (hist s) ns"
    by (rule client_run_exists [OF msort_calls_shape(1) ok s0 [unfolded msort_flow_def]]) (rule that)
  have "sort (concat ?c) = [1, 2, 3, 3, 4, 5, 6, 7, 8, 9]" by simp
  with merge_sort_correct [OF c(1,2) s0 [folded c(3)] s] s0 s show ?thesis by auto
qed

end
