(* ===== verification/Example_Word_Count.thy ===== *)
theory Example_Word_Count
  imports Static_Clients "HOL-Library.AList" "HOL-Library.Char_ord" "HOL-Library.List_Lexorder"
begin

text \<open>
  The program \<open>examples/simple/simple.go\<close>: a map-reduce word count. A task splits the input into four
  chunks, four mappers count the words of a chunk in two tables by the hash of the word, two reducers
  add the tables of one hash value, and the last task prints the counts in the order of the words.
  Strings are ASCII. Maps are association lists; the order in which a \<open>range\<close> visits a map is an
  argument: \<open>order node k m\<close> is the order of the \<open>k\<close>-th such loop in the function of \<open>node\<close>.
  Node 1 splits, nodes 2 to 5 map, 6 and 7 reduce, 8 merges.
\<close>

section \<open>The code\<close>

text \<open>\<open>strings.Fields\<close> and \<open>strings.Join(words, " ")\<close>.\<close>

definition is_space :: "char \<Rightarrow> bool" where
  "is_space c \<longleftrightarrow> c = CHR '' '' \<or> (9 \<le> (of_char c :: nat) \<and> (of_char c :: nat) \<le> 13)"

function Fields :: "string \<Rightarrow> string list" where
  "Fields s =
     (if dropWhile is_space s = [] then []
      else takeWhile (\<lambda>c. \<not> is_space c) (dropWhile is_space s) #
           Fields (dropWhile (\<lambda>c. \<not> is_space c) (dropWhile is_space s)))"
  by auto
termination
proof (relation "measure length")
  fix s
  assume a: "dropWhile is_space s \<noteq> []"
  then have "\<not> is_space (hd (dropWhile is_space s))" by (rule hd_dropWhile)
  with a have "length (dropWhile (\<lambda>c. \<not> is_space c) (dropWhile is_space s)) < length (dropWhile is_space s)"
    by (cases "dropWhile is_space s") (auto simp: less_Suc_eq_le length_dropWhile_le)
  also have "\<dots> \<le> length s" by (rule length_dropWhile_le)
  finally show "(dropWhile (\<lambda>c. \<not> is_space c) (dropWhile is_space s), s) \<in> measure length" by simp
qed simp

declare Fields.simps [simp del]

fun Join :: "string list \<Rightarrow> string" where
  "Join [] = []"
| "Join [w] = w"
| "Join (w # ws) = w @ '' '' @ Join ws"

definition numMappers :: nat where "numMappers = 4"
definition numReducers :: nat where "numReducers = 2"

text \<open>Go's \<open>int\<close> wraps at 64 bits and \<open>%\<close> takes the sign of the dividend.\<close>

definition hash_word :: "string \<Rightarrow> int" where
  "hash_word word =
     (let h = foldl (\<lambda>h c. 31 * h + of_char c) (0 :: 64 word) word
      in sint (if sint h < 0 then - h else h))"

definition hashPartition :: "string \<Rightarrow> int" where
  "hashPartition word = remn (hash_word word) (int numReducers)"

type_synonym counts = "(string \<times> int) list"

definition count_of :: "counts \<Rightarrow> string \<Rightarrow> int" where
  "count_of m w = (case map_of m w of None \<Rightarrow> 0 | Some c \<Rightarrow> c)"

definition bump :: "string \<Rightarrow> int \<Rightarrow> counts \<Rightarrow> counts" where
  "bump w c m = AList.update w (count_of m w + c) m"

record word_count =
  chunks :: "string list"
  mapOutputs :: "counts list list"
  reduceResults :: "counts list"
  printed :: counts

definition wc_init :: word_count where
  "wc_init = \<lparr>chunks = replicate numMappers [], mapOutputs = replicate numMappers (replicate numReducers []),
     reduceResults = replicate numReducers [], printed = []\<rparr>"

text \<open>The functions of the tasks; \<open>None\<close> is a panic (a slice or an index out of range).\<close>

definition split_words :: "string list \<Rightarrow> string list option" where
  "split_words words =
     (let size = (length words + numMappers - 1) div numMappers;
          bounds = map (\<lambda>i. (i * size, min (i * size + size) (length words))) [0..<numMappers]
      in if list_all (\<lambda>(start, end). start \<le> end) bounds
         then Some (map (\<lambda>(start, end). Join (go_slice words start end)) bounds)
         else None)"

definition splitChunks :: "string \<Rightarrow> word_count \<Rightarrow> word_count option" where
  "splitChunks input v = map_option (\<lambda>cs. v\<lparr>chunks := cs\<rparr>) (split_words (Fields input))"

fun count_words :: "string list \<Rightarrow> counts list \<Rightarrow> counts list option" where
  "count_words [] local = Some local"
| "count_words (w # ws) local =
     (if 0 \<le> hashPartition w \<and> nat (hashPartition w) < length local
      then count_words ws (local[nat (hashPartition w) := bump w 1 (local ! nat (hashPartition w))])
      else None)"

definition map_task :: "nat \<Rightarrow> word_count \<Rightarrow> word_count option" where
  "map_task idx v =
     map_option (\<lambda>local. v\<lparr>mapOutputs := (mapOutputs v)[idx := local]\<rparr>)
       (count_words (Fields (chunks v ! idx)) (replicate numReducers []))"

definition add_counts :: "counts \<Rightarrow> counts \<Rightarrow> counts" where
  "add_counts = fold (\<lambda>(w, c). bump w c)"

definition reduce_task :: "(nid \<Rightarrow> nat \<Rightarrow> counts \<Rightarrow> counts) \<Rightarrow> nat \<Rightarrow> word_count \<Rightarrow> word_count option" where
  "reduce_task order r v =
     Some (v\<lparr>reduceResults := (reduceResults v)[r :=
       fold (\<lambda>m. add_counts (order (r + 6) m (mapOutputs v ! m ! r))) [0..<numMappers] (reduceResults v ! r)]\<rparr>)"

definition merge_task :: "(nid \<Rightarrow> nat \<Rightarrow> counts \<Rightarrow> counts) \<Rightarrow> word_count \<Rightarrow> word_count option" where
  "merge_task order v =
     (let final = fold (\<lambda>r. add_counts (order 8 r (reduceResults v ! r))) [0..<numReducers] [];
          keys = sort (map fst (order 8 numReducers final))
      in Some (v\<lparr>printed := map (\<lambda>w. (w, count_of final w)) keys\<rparr>))"

definition wc_task :: "(nid \<Rightarrow> nat \<Rightarrow> counts \<Rightarrow> counts) \<Rightarrow> string \<Rightarrow> nid \<Rightarrow> word_count \<Rightarrow> word_count option" where
  "wc_task order input node =
     (if node = 1 then splitChunks input
      else if node < 6 then map_task (node - 2)
      else if node < 8 then reduce_task order (node - 6)
      else merge_task order)"

definition wc_calls :: "build list" where
  "wc_calls =
     [BTask ''split_input'' 0] @
     map (\<lambda>i. BTask (''map_'' @ itoa i) 0) [0..<numMappers] @ [BPrecede 1 (map (\<lambda>i. i + 2) [0..<numMappers])] @
     map (\<lambda>r. BTask (''reduce_'' @ itoa r) 0) [0..<numReducers] @
     map (\<lambda>i. BPrecede (i + 2) (map (\<lambda>r. r + 6) [0..<numReducers])) [0..<numMappers] @
     [BTask ''merge_results'' 0] @
     map (\<lambda>r. BPrecede (r + 6) [8]) [0..<numReducers]"

definition wc_flow :: heap where
  "wc_flow = flow_heap ''word-count'' wc_calls"

section \<open>Words and chunks\<close>

definition words_ok :: "string list \<Rightarrow> bool" where
  "words_ok ws \<longleftrightarrow> (\<forall>w \<in> set ws. w \<noteq> [] \<and> (\<forall>c \<in> set w. \<not> is_space c))"

lemma words_ok_Cons: "words_ok (w # ws) \<longleftrightarrow> w \<noteq> [] \<and> (\<forall>c \<in> set w. \<not> is_space c) \<and> words_ok ws"
  by (simp add: words_ok_def)

lemma is_space_blank [simp]: "is_space (CHR '' '')"
  by (simp add: is_space_def)

lemma Fields_unfold:
  "Fields s = (case dropWhile is_space s of [] \<Rightarrow> [] | t \<Rightarrow>
     takeWhile (\<lambda>c. \<not> is_space c) t # Fields (dropWhile (\<lambda>c. \<not> is_space c) t))"
  by (cases "dropWhile is_space s") (simp_all only: Fields.simps [of s] list.case simp_thms list.distinct if_True if_False)

lemma Fields_words: "words_ok (Fields s)"
proof (induction s rule: Fields.induct)
  case (1 s)
  show ?case
  proof (cases "dropWhile is_space s")
    case Nil
    then have "Fields s = []" unfolding Fields_unfold [of s] by (simp only: list.case)
    then show ?thesis by (simp add: words_ok_def)
  next
    case (Cons c t)
    have c: "\<not> is_space c" using hd_dropWhile [of is_space s] Cons by simp
    let ?w = "takeWhile (\<lambda>c. \<not> is_space c) (c # t)"
    have eq: "Fields s = ?w # Fields (dropWhile (\<lambda>c. \<not> is_space c) (c # t))"
      by (simp only: Fields_unfold [of s] Cons list.case)
    have "words_ok (Fields (dropWhile (\<lambda>c. \<not> is_space c) (c # t)))" by (rule 1 [unfolded Cons, OF list.distinct(2)])
    moreover have "?w \<noteq> []" using c by simp
    moreover have "\<forall>c \<in> set ?w. \<not> is_space c" by (rule ballI, drule set_takeWhileD, erule conjunct2)
    ultimately show ?thesis unfolding eq words_ok_Cons by (intro conjI)
  qed
qed

lemma Fields_word:
  assumes "w \<noteq> []" "\<forall>c \<in> set w. \<not> is_space c"
  shows "Fields w = [w]" "Fields (w @ CHR '' '' # r) = w # Fields r"
proof -
  have d: "dropWhile is_space (w @ x) = w @ x" for x using assms by (cases w) auto
  have t: "takeWhile (\<lambda>c. \<not> is_space c) w = w" "dropWhile (\<lambda>c. \<not> is_space c) w = []"
    "takeWhile (\<lambda>c. \<not> is_space c) (w @ CHR '' '' # r) = w" "dropWhile (\<lambda>c. \<not> is_space c) (w @ CHR '' '' # r) = CHR '' '' # r"
    using assms(2) by (simp_all add: takeWhile_append2 dropWhile_append2)
  have n: "Fields [] = []" by (simp add: Fields.simps)
  have b: "Fields (CHR '' '' # r) = Fields r" unfolding Fields_unfold [of "CHR '' '' # r"] Fields_unfold [of r] by simp
  show "Fields w = [w]" using d [of "[]"] assms(1) t(1,2) n by (subst Fields.simps) (simp only: append_Nil2 if_False)
  have "w @ CHR '' '' # r \<noteq> []" by simp
  then show "Fields (w @ CHR '' '' # r) = w # Fields r"
    by (subst Fields.simps) (simp only: d t b if_False)
qed

lemma Fields_Join: "words_ok ws \<Longrightarrow> Fields (Join ws) = ws"
  by (induction ws rule: Join.induct) (simp_all add: words_ok_def Fields_word Fields.simps [of "[]"])

lemma concat_pieces: "concat (map (\<lambda>i. take s (drop (i * s) ws)) [0..<k]) = take (k * s) ws"
proof (induction k)
  case (Suc k)
  then show ?case using take_add [of "k * s" s ws] by (simp add: add.commute)
qed simp

lemma split_words_eq:
  "split_words words =
     (let size = (length words + 3) div 4
      in if 3 * size \<le> length words then Some (map (\<lambda>i. Join (take size (drop (i * size) words))) [0..<4]) else None)"
proof -
  define size where "size = (length words + 3) div 4"
  have size: "(length words + numMappers - 1) div numMappers = size" by (simp add: size_def numMappers_def add.commute)
  have le: "i * size \<le> min (i * size + size) (length words)" if "3 * size \<le> length words" "i < 4" for i
  proof -
    have "i * size \<le> 3 * size" using that(2) by (intro mult_le_mono1) simp
    then have "i * size \<le> length words" using that(1) by (rule order.trans)
    then show ?thesis by simp
  qed
  have p: "go_slice words (i * size) (min (i * size + size) (length words)) = take size (drop (i * size) words)"
    if "3 * size \<le> length words" "i < 4" for i
    using le [OF that] by (simp add: go_slice_def min_def)
  have "(\<forall>i \<in> set [0..<4]. i * size \<le> min (i * size + size) (length words)) \<longleftrightarrow> 3 * size \<le> length words"
  proof
    assume "\<forall>i \<in> set [0..<4]. i * size \<le> min (i * size + size) (length words)"
    then show "3 * size \<le> length words" by (auto dest: bspec [of _ _ 3])
  qed (use le in auto)
  moreover have "map (\<lambda>i. Join (go_slice words (i * size) (min (i * size + size) (length words)))) [0..<4] =
      map (\<lambda>i. Join (take size (drop (i * size) words))) [0..<4]" if "3 * size \<le> length words"
    by (rule map_cong) (use p [OF that] in auto)
  ultimately show ?thesis
    unfolding split_words_def size Let_def size_def [symmetric]
    by (simp add: numMappers_def list_all_iff comp_def del: set_upt upt_rec_numeral)
qed

lemma split_words_pieces:
  assumes "split_words words = Some cs" "words_ok words"
  shows "length cs = 4" "concat (map Fields cs) = words"
proof -
  define size where "size = (length words + 3) div 4"
  let ?piece = "\<lambda>i. take size (drop (i * size) words)"
  have cs: "cs = map (\<lambda>i. Join (?piece i)) [0..<4]"
    using assms(1) unfolding split_words_eq Let_def size_def [symmetric] by (metis option.distinct(1) option.inject)
  have "words_ok (?piece i)" for i using assms(2) by (auto simp: words_ok_def dest!: in_set_takeD in_set_dropD)
  then have "map Fields cs = map ?piece [0..<4]" by (simp add: cs Fields_Join comp_def)
  then have "concat (map Fields cs) = take (4 * size) words" by (simp only: concat_pieces)
  moreover have "length words \<le> 4 * size" unfolding size_def by linarith
  ultimately show "length cs = 4" "concat (map Fields cs) = words" by (simp_all add: cs)
qed

text \<open>The splitting panics for inputs of 1, 2 and 5 words: a chunk would begin after the last word.\<close>

lemma split_words_None: "split_words words = None \<longleftrightarrow> length words \<in> {1, 2, 5}"
proof -
  have e: "\<not> 3 * ((L + 3) div 4) \<le> L \<longleftrightarrow> L = 1 \<or> L = 2 \<or> L = 5" for L :: nat
  proof
    define q where "q = (L + 3) div 4"
    assume "\<not> 3 * ((L + 3) div 4) \<le> L"
    then have q: "L < 3 * q" by (simp add: q_def)
    have l: "4 * q \<le> L + 3" "L < 4 * q + 1" unfolding q_def by linarith+
    with q have "q = 1 \<or> q = 2" by linarith
    then show "L = 1 \<or> L = 2 \<or> L = 5" using q l by auto
  qed auto
  show ?thesis using e [of "length words"] unfolding split_words_eq Let_def by auto
qed

section \<open>Hashing\<close>

lemma hash_word_range: "0 \<le> hash_word w \<or> hash_word w = - (2 ^ 63)"
proof -
  have "0 \<le> sint (- h) \<or> sint (- h) = - (2 ^ 63)" if h: "sint h < 0" for h :: "64 word"
  proof -
    have s: "sint (- h) = signed_take_bit 63 (- sint h)" using sint_word_ariths(4) [of h] by simp
    have l: "- (2 ^ 63) \<le> sint h" using sint_greater_eq [of h] by simp
    show ?thesis
    proof (cases "sint h = - (2 ^ 63)")
      case True
      then show ?thesis by (simp add: s signed_take_bit_eq_take_bit_shift take_bit_eq_mod)
    next
      case False
      then show ?thesis using l h by (simp add: s signed_take_bit_int_eq_self)
    qed
  qed
  then show ?thesis by (auto simp: hash_word_def Let_def)
qed

definition part :: "string \<Rightarrow> nat" where
  "part w = nat (hashPartition w)"

lemma part_range: "0 \<le> hashPartition w" "part w < 2"
  using hash_word_range [of w] by (auto simp: part_def hashPartition_def numReducers_def remn_def sgn_if)

section \<open>Tables of counts\<close>

text \<open>The table of the words of \<open>ws\<close> with \<open>P\<close>.\<close>

definition table :: "(string \<Rightarrow> bool) \<Rightarrow> string list \<Rightarrow> counts \<Rightarrow> bool" where
  "table P ws m \<longleftrightarrow> distinct (map fst m) \<and> fst ` set m = {w \<in> set ws. P w} \<and>
     (\<forall>w. count_of m w = (if P w then int (count_list ws w) else 0))"

lemma count_of_bump: "count_of (bump w c m) v = count_of m v + (if v = w then c else 0)"
  by (simp add: count_of_def bump_def AList.update_conv')

lemma bump_keys: "fst ` set (bump w c m) = insert w (fst ` set m)" "distinct (map fst m) \<Longrightarrow> distinct (map fst (bump w c m))"
  by (simp_all add: bump_def AList.dom_update AList.distinct_update)

lemma count_of_notin: "v \<notin> fst ` set m \<Longrightarrow> count_of m v = 0"
  by (simp add: count_of_def map_of_eq_None_iff [THEN iffD2])

lemma add_counts_sum:
  "distinct (map fst xs) \<Longrightarrow> count_of (add_counts xs m) v = count_of m v + count_of xs v"
proof (induction xs arbitrary: m)
  case (Cons x xs)
  obtain w c where x: "x = (w, c)" by (cases x)
  have "count_of xs v = 0" if "v = w" using Cons.prems that x by (intro count_of_notin) simp
  moreover have "count_of (x # xs) v = (if v = w then c else count_of xs v)" by (simp add: count_of_def x)
  ultimately show ?case using Cons by (simp add: add_counts_def count_of_bump x)
qed (simp add: add_counts_def count_of_def)

lemma add_counts_keys:
  "fst ` set (add_counts xs m) = fst ` set xs \<union> fst ` set m"
  "distinct (map fst m) \<Longrightarrow> distinct (map fst (add_counts xs m))"
  by (induction xs arbitrary: m) (auto simp: add_counts_def bump_keys split: prod.splits)

text \<open>A \<open>range\<close> visits every entry of the map once.\<close>

definition ranges :: "(nid \<Rightarrow> nat \<Rightarrow> counts \<Rightarrow> counts) \<Rightarrow> bool" where
  "ranges order \<longleftrightarrow> (\<forall>n k m. mset (order n k m) = mset m)"

lemma ranges_table:
  assumes "ranges order" "table P ws m"
  shows "table P ws (order n k m)"
proof -
  have o: "mset (order n k m) = mset m" using assms(1) by (simp add: ranges_def)
  then have s: "set (order n k m) = set m" by (rule mset_eq_setD)
  have e: "mset (map fst (order n k m)) = mset (map fst m)" using o by simp
  then have d: "distinct (map fst (order n k m))" using assms(2) mset_eq_imp_distinct_iff [OF e] by (simp add: table_def)
  then have "map_of (order n k m) = map_of m"
    using s assms(2) map_of_inject_set [of "order n k m" m] by (simp add: table_def)
  then show ?thesis using assms(2) s d by (simp add: table_def count_of_def)
qed

lemma table_add:
  assumes "table P ws m" "table P vs xs"
  shows "table P (ws @ vs) (add_counts xs m)"
  using assms by (auto simp: table_def add_counts_sum add_counts_keys)

lemma table_Nil: "table P [] []"
  by (simp add: table_def count_of_def)

lemma table_fold:
  "(\<And>k. k \<in> set ks \<Longrightarrow> table P (vs k) (f k)) \<Longrightarrow> table P ws m \<Longrightarrow>
    table P (ws @ concat (map vs ks)) (fold (\<lambda>k. add_counts (f k)) ks m)"
proof (induction ks arbitrary: ws m)
  case (Cons k ks)
  have "table P (ws @ vs k) (add_counts (f k) m)" using table_add [OF Cons.prems(2)] Cons.prems(1) [of k] by simp
  with Cons.IH [OF _ this] Cons.prems(1) show ?case by simp
qed simp

lemma sort_keys: "distinct xs \<Longrightarrow> sort xs = sorted_list_of_set (set xs)"
  by (simp add: sorted_list_of_set_sort_remdups distinct_remdups_id)

text \<open>A mapper's two tables.\<close>

lemma count_words_tables:
  "length local = 2 \<Longrightarrow> \<forall>r < 2. table (\<lambda>w. part w = r) vs (local ! r) \<Longrightarrow>
    \<exists>local'. count_words ws local = Some local' \<and> length local' = 2 \<and> (\<forall>r < 2. table (\<lambda>w. part w = r) (vs @ ws) (local' ! r))"
proof (induction ws arbitrary: vs "local")
  case (Cons w ws)
  let ?l = "local[part w := bump w 1 (local ! part w)]"
  have "table (\<lambda>w. part w = r) (vs @ [w]) (?l ! r)" if "r < 2" for r
  proof -
    have t: "table (\<lambda>w. part w = r) vs (local ! r)" using Cons.prems(2) that by simp
    show ?thesis
    proof (cases "part w = r")
      case True
      with t that Cons.prems(1) show ?thesis by (auto simp: table_def count_of_bump bump_keys)
    next
      case False
      with t show ?thesis by (auto simp: table_def)
    qed
  qed
  then have "\<forall>r < 2. table (\<lambda>w. part w = r) (vs @ [w]) (?l ! r)" by simp
  with Cons.IH [of ?l "vs @ [w]"] Cons.prems(1) part_range [of w] show ?case by (simp add: part_def)
qed simp

text \<open>The two tables of all words together.\<close>

lemma tables_join:
  assumes "\<And>r. r < 2 \<Longrightarrow> table (\<lambda>w. part w = r) ws (f r)"
  shows "table (\<lambda>w. True) ws (fold (\<lambda>r. add_counts (f r)) [0..<2] [])"
proof -
  have t: "table (\<lambda>w. part w = 0) ws (f 0)" "table (\<lambda>w. part w = 1) ws (f 1)" using assms by simp_all
  have f: "fold (\<lambda>r. add_counts (f r)) [0..<2] [] = add_counts (f 1) (add_counts (f 0) [])"
    by (simp add: numeral_2_eq_2)
  have p: "part w = 0 \<or> part w = 1" for w using part_range(2) [of w] by auto
  have "count_of (fold (\<lambda>r. add_counts (f r)) [0..<2] []) w = int (count_list ws w)" for w
    using t p [of w] by (auto simp: f table_def add_counts_sum) (simp_all add: count_of_def)
  moreover have "fst ` set (fold (\<lambda>r. add_counts (f r)) [0..<2] []) = set ws"
  proof -
    have "{w \<in> set ws. part w = 1} \<union> {w \<in> set ws. part w = 0} = set ws" using p by blast
    then show ?thesis using t by (simp add: f table_def add_counts_keys)
  qed
  moreover have "distinct (map fst (fold (\<lambda>r. add_counts (f r)) [0..<2] []))"
    by (simp add: f add_counts_keys)
  ultimately show ?thesis by (simp add: table_def)
qed

section \<open>The result\<close>

definition word_counts :: "string \<Rightarrow> counts" where
  "word_counts input = map (\<lambda>w. (w, int (count_list (Fields input) w))) (sorted_list_of_set (set (Fields input)))"

text \<open>What holds when the tasks \<open>D\<close> are done.\<close>

definition wc_inv :: "string \<Rightarrow> nid set \<Rightarrow> word_count \<Rightarrow> bool" where
  "wc_inv input D v \<longleftrightarrow>
     (1 \<in> D \<longrightarrow> length (chunks v) = 4 \<and> concat (map Fields (chunks v)) = Fields input) \<and>
     length (mapOutputs v) = 4 \<and>
     (\<forall>i < 4. i + 2 \<in> D \<longrightarrow> 1 \<in> D \<and> (\<forall>r < 2. table (\<lambda>w. part w = r) (Fields (chunks v ! i)) (mapOutputs v ! i ! r))) \<and>
     length (reduceResults v) = 2 \<and>
     (\<forall>r < 2. if r + 6 \<in> D then table (\<lambda>w. part w = r) (Fields input) (reduceResults v ! r) else reduceResults v ! r = []) \<and>
     (8 \<in> D \<longrightarrow> printed v = word_counts input)"

lemma wc_inv_split:
  assumes "wc_inv input D v" "1 \<notin> D" "length (Fields input) \<notin> {1, 2, 5}"
  shows "\<exists>v'. splitChunks input v = Some v' \<and> wc_inv input (insert 1 D) v'"
proof -
  obtain cs where cs: "split_words (Fields input) = Some cs" using assms(3) split_words_None by blast
  note p = split_words_pieces [OF cs Fields_words]
  have "wc_inv input (insert 1 D) (v\<lparr>chunks := cs\<rparr>)"
    using assms(1,2) p unfolding wc_inv_def by auto
  then show ?thesis using cs by (simp add: splitChunks_def)
qed

lemma wc_inv_map:
  assumes "wc_inv input D v" "i < 4" "1 \<in> D"
  shows "\<exists>v'. map_task i v = Some v' \<and> wc_inv input (insert (i + 2) D) v'"
proof -
  have "\<exists>ts. count_words (Fields (chunks v ! i)) (replicate numReducers []) = Some ts \<and> length ts = 2 \<and>
      (\<forall>r < 2. table (\<lambda>w. part w = r) ([] @ Fields (chunks v ! i)) (ts ! r))"
    by (rule count_words_tables) (simp_all add: numReducers_def table_Nil)
  then obtain ts where ts: "count_words (Fields (chunks v ! i)) (replicate numReducers []) = Some ts"
    "\<forall>r < 2. table (\<lambda>w. part w = r) (Fields (chunks v ! i)) (ts ! r)" by auto
  have "wc_inv input (insert (i + 2) D) (v\<lparr>mapOutputs := (mapOutputs v)[i := ts]\<rparr>)"
    using assms ts(2) unfolding wc_inv_def by (auto simp: nth_list_update)
  then show ?thesis using ts(1) by (simp add: map_task_def)
qed

lemma wc_inv_reduce:
  assumes "wc_inv input D v" "r < 2" "r + 6 \<notin> D" "{2..5} \<subseteq> D" "ranges order"
  shows "\<exists>v'. reduce_task order r v = Some v' \<and> wc_inv input (insert (r + 6) D) v'"
proof -
  note inv = assms(1) [unfolded wc_inv_def]
  have in_D: "i + 2 \<in> D" if "i < 4" for i using that by (intro subsetD [OF assms(4)]) simp
  have c: "length (chunks v) = 4" "concat (map Fields (chunks v)) = Fields input"
    and t: "\<And>i. i < 4 \<Longrightarrow> table (\<lambda>w. part w = r) (Fields (chunks v ! i)) (mapOutputs v ! i ! r)"
    using inv in_D assms(2) by (auto dest: spec [of _ 0])
  have e: "reduceResults v ! r = []" using inv assms(2,3) by auto
  let ?m = "fold (\<lambda>m. add_counts (order (r + 6) m (mapOutputs v ! m ! r))) [0..<4] []"
  have "table (\<lambda>w. part w = r) ([] @ concat (map (\<lambda>m. Fields (chunks v ! m)) [0..<4])) ?m"
    by (rule table_fold) (use t table_Nil ranges_table [OF assms(5)] in auto)
  moreover have "map (\<lambda>m. Fields (chunks v ! m)) [0..<4] = map Fields (chunks v)"
    using c(1) by (metis (no_types, lifting) map_map comp_def map_cong map_nth)
  ultimately have "table (\<lambda>w. part w = r) (Fields input) ?m" using c(2) by simp
  then have "wc_inv input (insert (r + 6) D) (v\<lparr>reduceResults := (reduceResults v)[r := ?m]\<rparr>)"
    using inv assms(2) unfolding wc_inv_def by (auto simp: nth_list_update)
  then show ?thesis using e by (simp add: reduce_task_def numMappers_def)
qed

lemma wc_inv_merge:
  assumes "wc_inv input D v" "{6, 7} \<subseteq> D" "ranges order"
  shows "\<exists>v'. merge_task order v = Some v' \<and> wc_inv input (insert 8 D) v'"
proof -
  note inv = assms(1) [unfolded wc_inv_def]
  have in_D: "r + 6 \<in> D" if "r < 2" for r using that assms(2) by (auto simp: less_2_cases_iff)
  have t: "table (\<lambda>w. part w = r) (Fields input) (reduceResults v ! r)" if "r < 2" for r
    using inv in_D that by metis
  let ?f = "fold (\<lambda>r. add_counts (order 8 r (reduceResults v ! r))) [0..<2] []"
  have f: "table (\<lambda>w. True) (Fields input) ?f"
    by (rule tables_join) (use t ranges_table [OF assms(3)] in blast)
  then have "table (\<lambda>w. True) (Fields input) (order 8 2 ?f)" by (rule ranges_table [OF assms(3)])
  then have "distinct (map fst (order 8 2 ?f))" "set (map fst (order 8 2 ?f)) = set (Fields input)" by (auto simp: table_def)
  then have "sort (map fst (order 8 2 ?f)) = sorted_list_of_set (set (Fields input))"
    using sort_keys [of "map fst (order 8 2 ?f)"] by simp
  moreover have "count_of ?f w = int (count_list (Fields input) w)" for w using f by (simp add: table_def)
  ultimately have "merge_task order v = Some (v\<lparr>printed := word_counts input\<rparr>)"
    by (simp add: merge_task_def numReducers_def Let_def word_counts_def)
  moreover have "wc_inv input (insert 8 D) (v\<lparr>printed := word_counts input\<rparr>)"
    using inv unfolding wc_inv_def by auto
  ultimately show ?thesis by blast
qed

lemma wc_calls_shape: "calls_ok 0 wc_calls" "tasks_of wc_calls = 8"
  "edges_of wc_calls = [(1, 2), (1, 3), (1, 4), (1, 5), (2, 6), (2, 7), (3, 6), (3, 7), (4, 6), (4, 7), (5, 6), (5, 7), (6, 8), (7, 8)]"
  by code_simp+

text \<open>The phases, and the nodes before each.\<close>

lemma wc_nodes:
  assumes "n \<in> {0<..8 :: nat}"
  obtains "n = 1" | i where "n = i + 2" "i < 4" | r where "n = r + 6" "r < 2" | "n = 8"
proof -
  have "n = 1 \<or> n = (n - 2) + 2 \<and> n - 2 < 4 \<or> n = (n - 6) + 6 \<and> n - 6 < 2 \<or> n = 8" using assms by auto
  with that show ?thesis by blast
qed

lemma wc_before:
  "i < 4 \<Longrightarrow> 1 \<in> set (to_node (edges_of wc_calls) (i + 2))"
  "r < 2 \<Longrightarrow> {2..5} \<subseteq> set (to_node (edges_of wc_calls) (r + 6))"
  "{6, 7} \<subseteq> set (to_node (edges_of wc_calls) 8)"
proof -
  assume "i < 4"
  then have "i = 0 \<or> i = 1 \<or> i = 2 \<or> i = 3" by auto
  then show "1 \<in> set (to_node (edges_of wc_calls) (i + 2))" by (auto simp: to_node_def wc_calls_shape)
next
  assume "r < 2"
  moreover have "{2..5 :: nat} = {2, 3, 4, 5}" by auto
  ultimately show "{2..5} \<subseteq> set (to_node (edges_of wc_calls) (r + 6))"
    by (auto simp: to_node_def wc_calls_shape less_2_cases_iff)
qed (simp add: to_node_def wc_calls_shape)

lemma wc_inv_step:
  assumes "ranges order" "length (Fields input) \<notin> {1, 2, 5}" "wc_inv input D v" "n \<in> {0<..8}" "n \<notin> D"
    and "set (to_node (edges_of wc_calls) n) \<subseteq> D"
  shows "\<exists>v'. wc_task order input n v = Some v' \<and> wc_inv input (insert n D) v'"
  using assms(4)
proof (cases rule: wc_nodes)
  case 1
  with wc_inv_split [OF assms(3) _ assms(2)] assms(5) show ?thesis by (simp add: wc_task_def)
next
  case (2 i)
  with wc_before(1) assms(6) have "1 \<in> D" by blast
  from wc_inv_map [OF assms(3) 2(2) this] 2 show ?thesis by (simp add: wc_task_def)
next
  case (3 r)
  with wc_before(2) assms(6) have "{2..5} \<subseteq> D" by blast
  from wc_inv_reduce [OF assms(3) 3(2) _ this assms(1)] 3 assms(5) show ?thesis by (simp add: wc_task_def)
next
  case 4
  with wc_before(3) assms(6) have "{6, 7} \<subseteq> D" by blast
  from wc_inv_merge [OF assms(3) this assms(1)] 4 show ?thesis by (simp add: wc_task_def)
qed

text \<open>(C18) The map-reduce program counts words: for every ASCII input that does not have 1, 2 or 5 words, in
  a completed run with no panic, in whatever order concurrent tasks took effect and maps were visited,
  no access is out of range and the program prints each word of the input once, in the order of the
  words, with the number of times it occurs.\<close>

theorem word_count_correct:
  assumes "ranges order" "length (Fields input) \<notin> {1, 2, 5}"
    and "NewExecutor c opts now wc_flow [[Run 1, Wait]] = Inr s0" "reach s0 s" "stuck s"
    and "\<And>m. HPanic m \<notin> set (hist s)" "effect_order (hist s) ns"
  shows "\<exists>v. perform (wc_task order input) ns wc_init = Some v \<and>
    printed v = map (\<lambda>w. (w, int (count_list (Fields input) w))) (sorted_list_of_set (set (Fields input)))"
proof -
  have "\<exists>v. perform (wc_task order input) ns wc_init = Some v \<and> wc_inv input {0<..tasks_of wc_calls} v"
  proof (rule client_run [where rank = id and Inv = "wc_inv input", OF wc_calls_shape(1) _ _ _ assms(3) [unfolded wc_flow_def] assms(4-7)])
    show "wc_inv input {} wc_init" by (auto simp: wc_inv_def wc_init_def numMappers_def numReducers_def less_2_cases_iff)
  qed (use wc_inv_step [OF assms(1,2)] in \<open>auto simp: wc_calls_shape\<close>)
  then show ?thesis by (auto simp: wc_calls_shape wc_inv_def word_counts_def)
qed

lemma word_count_correct_witness:
  "\<exists>s0 s ns v. NewExecutor 8 [WithProfiler] 0 wc_flow [[Run 1, Wait]] = Inr s0 \<and> reach s0 s \<and> effect_order (hist s) ns \<and>
     perform (wc_task (\<lambda>n k. rev) ''the fox and the dog and'') ns wc_init = Some v \<and>
     printed v = [(''and'', 2), (''dog'', 1), (''fox'', 1), (''the'', 2)]"
proof -
  let ?t = "''the fox and the dog and''"
  have f: "Fields ?t = [''the'', ''fox'', ''and'', ''the'', ''dog'', ''and'']" by code_simp
  have r: "ranges (\<lambda>n k. rev)" and l: "length (Fields ?t) \<notin> {1, 2, 5}" by (simp_all add: ranges_def f)
  obtain s0 where s0: "NewExecutor 8 [WithProfiler] 0 wc_flow [[Run 1, Wait]] = Inr s0" by (simp add: NewExecutor_def)
  have ok: "tasks_of wc_calls < 2 ^ 32" "length (edges_of wc_calls) < 2 ^ 32" by (simp_all add: wc_calls_shape)
  obtain s ns where s: "reach s0 s" "stuck s" "\<And>m. HPanic m \<notin> set (hist s)" "effect_order (hist s) ns"
    by (rule client_run_exists [OF wc_calls_shape(1) ok s0 [unfolded wc_flow_def]]) (rule that)
  have "map (\<lambda>w. (w, int (count_list (Fields ?t) w))) (sorted_list_of_set (set (Fields ?t))) =
      [(''and'', 2), (''dog'', 1), (''fox'', 1), (''the'', 2)]"
    unfolding f by code_simp
  with word_count_correct [OF r l s0 s] s0 s(1,4) show ?thesis by auto
qed

end
