(* ===== verification/Example_Map_Reduce.thy ===== *)
theory Example_Map_Reduce
  imports Example_Word_Count
begin

text \<open>
  The program \<open>examples/word_count/word_count.go\<close>: the map-reduce word count with files between its phases,
  four mappers and two reducers as \<open>main\<close> configures it. A task splits the input into files of at most
  \<open>ChunkSize\<close> bytes, each mapper appends the counts of its files to one JSON file per reducer, each
  reducer adds the records of its files, the last task adds the reducers' files. A file of records
  (JSON values, or lines of a word and a number) is the list of its records; a file that does not
  exist is \<open>None\<close>. Strings are ASCII. The flow is the one of \<open>Example_Word_Count\<close> under another name.
\<close>

section \<open>The code\<close>

text \<open>\<open>strings.LastIndex(s, " ")\<close>.\<close>

fun lastIndex :: "string \<Rightarrow> nat option" where
  "lastIndex [] = None"
| "lastIndex (c # s) =
     (case lastIndex s of Some k \<Rightarrow> Some (Suc k) | None \<Rightarrow> if c = CHR '' '' then Some 0 else None)"

text \<open>The loop does not end for a chunk size of 0; its result then is \<open>None\<close>.\<close>

partial_function (option) split_loop :: "nat \<Rightarrow> string \<Rightarrow> string list \<Rightarrow> string list option" where
  "split_loop chunkSize s parts =
     (if s = [] then Some parts
      else if length s < chunkSize then Some (parts @ [s])
      else case lastIndex (take chunkSize s) of
             Some lastSpace \<Rightarrow> split_loop chunkSize (drop (lastSpace + 1) s) (parts @ [take lastSpace (take chunkSize s)])
           | None \<Rightarrow> split_loop chunkSize (drop chunkSize s) (parts @ [take chunkSize s]))"

declare split_loop.simps [code]

definition splitString :: "string \<Rightarrow> nat \<Rightarrow> string list option" where
  "splitString s chunkSize = split_loop chunkSize s []"

text \<open>The temporary directory, and the variable \<open>mapper\<close> that the split task and the mappers share.\<close>

record map_reduce =
  inputFiles :: "nat \<Rightarrow> string option"
  mapper :: "nat list list"
  mapFiles :: "nat \<Rightarrow> nat \<Rightarrow> counts option"
  reduceFiles :: "nat \<Rightarrow> counts option"
  outputFile :: "counts option"

text \<open>\<open>None\<close> is a panic or the exit by \<open>log.Fatal\<close>.\<close>

fun write_chunks :: "nat \<Rightarrow> string list \<Rightarrow> map_reduce \<Rightarrow> map_reduce" where
  "write_chunks i [] v = v"
| "write_chunks i (chunk # cs) v =
     write_chunks (i + 1) cs
       (v\<lparr>inputFiles := (inputFiles v)(i := Some chunk),
          mapper := (mapper v)[i mod numMappers := mapper v ! (i mod numMappers) @ [i]]\<rparr>)"

definition split_task :: "string \<Rightarrow> nat \<Rightarrow> map_reduce \<Rightarrow> map_reduce option" where
  "split_task input chunkSize v = map_option (\<lambda>cs. write_chunks 0 cs v) (splitString input chunkSize)"

text \<open>The files are opened with \<open>O_APPEND\<close>.\<close>

definition append_records :: "counts option \<Rightarrow> counts \<Rightarrow> counts option" where
  "append_records file xs = Some ((case file of None \<Rightarrow> [] | Some ys \<Rightarrow> ys) @ xs)"

definition processMap :: "(nid \<Rightarrow> nat \<Rightarrow> counts \<Rightarrow> counts) \<Rightarrow> nat \<Rightarrow> nat \<Rightarrow> map_reduce \<Rightarrow> map_reduce option" where
  "processMap order mapID inputID v =
     (case inputFiles v inputID of
        None \<Rightarrow> None
      | Some data \<Rightarrow>
          map_option (\<lambda>intermediate.
              fold (\<lambda>r v. v\<lparr>mapFiles := (mapFiles v)(mapID := (mapFiles v mapID)(r :=
                  append_records (mapFiles v mapID r)
                    (order (mapID + 2) (numReducers * inputID + r) (intermediate ! r))))\<rparr>)
                [0..<numReducers] v)
            (count_words (Fields data) (replicate numReducers [])))"

fun process_maps :: "(nid \<Rightarrow> nat \<Rightarrow> counts \<Rightarrow> counts) \<Rightarrow> nat \<Rightarrow> nat list \<Rightarrow> map_reduce \<Rightarrow> map_reduce option" where
  "process_maps order mapID [] v = Some v"
| "process_maps order mapID (i # is) v =
     (case processMap order mapID i v of None \<Rightarrow> None | Some v' \<Rightarrow> process_maps order mapID is v')"

definition records :: "counts option \<Rightarrow> counts" where
  "records file = (case file of None \<Rightarrow> [] | Some xs \<Rightarrow> xs)"

definition processReduce :: "(nid \<Rightarrow> nat \<Rightarrow> counts \<Rightarrow> counts) \<Rightarrow> nat \<Rightarrow> map_reduce \<Rightarrow> map_reduce option" where
  "processReduce order reduceID v =
     (let intermediate = concat (map (\<lambda>m. records (mapFiles v m reduceID)) [0..<numMappers]);
          results = add_counts intermediate []
      in Some (v\<lparr>reduceFiles := (reduceFiles v)(reduceID := Some (order (reduceID + 6) 0 results))\<rparr>))"

definition mergeResults :: "(nid \<Rightarrow> nat \<Rightarrow> counts \<Rightarrow> counts) \<Rightarrow> map_reduce \<Rightarrow> map_reduce option" where
  "mergeResults order v =
     (let finalResults = fold (\<lambda>r. add_counts (records (reduceFiles v r))) [0..<numReducers] [];
          keys = sort (map fst (order 8 0 finalResults))
      in Some (v\<lparr>outputFile := Some (map (\<lambda>w. (w, count_of finalResults w)) keys)\<rparr>))"

definition mr_task :: "(nid \<Rightarrow> nat \<Rightarrow> counts \<Rightarrow> counts) \<Rightarrow> string \<Rightarrow> nat \<Rightarrow> nid \<Rightarrow> map_reduce \<Rightarrow> map_reduce option" where
  "mr_task order input chunkSize node v =
     (if node = 1 then split_task input chunkSize v
      else if node < 6 then process_maps order (node - 2) (mapper v ! (node - 2)) v
      else if node < 8 then processReduce order (node - 6) v
      else mergeResults order v)"

definition mr_flow :: heap where
  "mr_flow = flow_heap ''wordcount'' wc_calls"

text \<open>The state when \<open>Run\<close> is called: \<open>mapper\<close> is empty, the directory may hold files of earlier runs.\<close>

definition mr_init :: "map_reduce \<Rightarrow> map_reduce" where
  "mr_init disk = disk\<lparr>mapper := replicate numMappers []\<rparr>"

section \<open>Splitting\<close>

lemma lastIndex_Some: "lastIndex s = Some k \<Longrightarrow> k < length s \<and> s ! k = CHR '' ''"
  by (induction s arbitrary: k) (auto split: option.splits if_splits)

lemma lastIndex_None: "lastIndex s = None \<longleftrightarrow> CHR '' '' \<notin> set s"
  by (induction s) (auto split: option.splits if_splits)

lemma split_loop_returns: "0 < chunkSize \<Longrightarrow> \<exists>cs. split_loop chunkSize s parts = Some cs"
proof (induction "length s" arbitrary: s parts rule: less_induct)
  case less
  show ?case
  proof (cases "s = [] \<or> length s < chunkSize")
    case True
    then show ?thesis by (subst split_loop.simps) auto
  next
    case False
    then have "length (drop (k + 1) s) < length s" "length (drop chunkSize s) < length s" for k
      using less.prems by auto
    with less.hyps less.prems False show ?thesis
      by (subst split_loop.simps) (auto split: option.split)
  qed
qed

lemma split_loop_Some:
  assumes "split_loop chunkSize s parts = Some cs"
  shows "0 < chunkSize \<or> s = []"
proof (rule split_loop.raw_induct [of "\<lambda>chunkSize s parts cs. 0 < chunkSize \<or> s = []", OF _ assms])
  fix loop chunkSize s parts cs
  assume IH: "\<And>chunkSize s parts cs. loop chunkSize s parts = Some cs \<Longrightarrow> 0 < chunkSize \<or> s = []"
    and body: "(if s = [] then Some parts
      else if length s < chunkSize then Some (parts @ [s])
      else case lastIndex (take chunkSize s) of
             Some lastSpace \<Rightarrow> loop chunkSize (drop (lastSpace + 1) s) (parts @ [take lastSpace (take chunkSize s)])
           | None \<Rightarrow> loop chunkSize (drop chunkSize s) (parts @ [take chunkSize s])) = Some cs"
  show "0 < chunkSize \<or> s = []"
    using body IH [of 0 s "parts @ [[]]" cs] by (cases "chunkSize = 0") (auto split: if_splits)
qed

text \<open>So the loop ends unless the chunk size is 0.\<close>

lemma splitString_returns: "splitString s chunkSize = None \<longleftrightarrow> chunkSize = 0 \<and> s \<noteq> []"
proof -
  have "split_loop chunkSize [] [] = Some []" by (subst split_loop.simps) simp
  then show ?thesis
    using split_loop_returns [of chunkSize s "[]"] split_loop_Some [of chunkSize s "[]"]
    by (cases "chunkSize = 0"; cases "s = []"; cases "split_loop chunkSize s []") (auto simp: splitString_def)
qed

text \<open>Every stretch of \<open>k\<close> bytes has a blank.\<close>

definition blank_every :: "nat \<Rightarrow> string \<Rightarrow> bool" where
  "blank_every k s \<longleftrightarrow> list_all (\<lambda>i. i + k \<le> length s \<longrightarrow> CHR '' '' \<in> set (take k (drop i s))) [0..<Suc (length s)]"

lemma blank_every_iff:
  "blank_every k s \<longleftrightarrow> (\<forall>i \<le> length s. i + k \<le> length s \<longrightarrow> CHR '' '' \<in> set (take k (drop i s)))"
  unfolding blank_every_def list_all_iff by (auto simp: less_Suc_eq_le simp del: upt_Suc)

lemma blank_every_drop: "blank_every k s \<Longrightarrow> blank_every k (drop j s)"
  unfolding blank_every_iff
proof (intro allI impI)
  fix i
  assume a: "\<forall>i \<le> length s. i + k \<le> length s \<longrightarrow> CHR '' '' \<in> set (take k (drop i s))"
    and i: "i \<le> length (drop j s)" "i + k \<le> length (drop j s)"
  then show "CHR '' '' \<in> set (take k (drop i (drop j s)))"
    using a [rule_format, of "i + j"] by (cases "j \<le> length s") auto
qed

lemma Fields_append_blank: "Fields (a @ CHR '' '' # b) = Fields a @ Fields b"
proof (induction a rule: Fields.induct)
  case (1 a)
  let ?e = "CHR '' '' # b"
  have blank: "Fields ?e = Fields b" unfolding Fields_unfold [of ?e] Fields_unfold [of b] by simp
  show ?case
  proof (cases "dropWhile is_space a")
    case Nil
    then have "\<And>x. x \<in> set a \<Longrightarrow> is_space x" by (simp add: dropWhile_eq_Nil_conv)
    then have "dropWhile is_space (a @ ?e) = dropWhile is_space ?e" by (rule dropWhile_append2)
    then have "Fields (a @ ?e) = Fields ?e" by (simp only: Fields_unfold [of "a @ ?e"] Fields_unfold [of ?e])
    moreover have "Fields a = []" by (simp only: Fields_unfold [of a] Nil list.case)
    ultimately show ?thesis by (simp only: blank append_Nil)
  next
    case (Cons c t)
    let ?w = "takeWhile (\<lambda>c. \<not> is_space c) (c # t)" and ?r = "dropWhile (\<lambda>c. \<not> is_space c) (c # t)"
    have "\<not> (\<forall>x \<in> set a. is_space x)" using Cons by (metis dropWhile_eq_Nil_conv list.distinct(1))
    then have "dropWhile is_space (a @ ?e) = c # t @ ?e" using Cons by (auto simp: dropWhile_append1)
    then have 2: "Fields (a @ ?e) = takeWhile (\<lambda>c. \<not> is_space c) (c # t @ ?e) # Fields (dropWhile (\<lambda>c. \<not> is_space c) (c # t @ ?e))"
      by (simp only: Fields_unfold [of "a @ ?e"] list.case)
    have 3: "Fields a = ?w # Fields ?r" by (simp only: Fields_unfold [of a] Cons list.case)
    have IH: "Fields (?r @ ?e) = Fields ?r @ Fields b" by (rule 1 [unfolded Cons, OF list.distinct(2)])
    show ?thesis
    proof (cases "\<forall>x \<in> set (c # t). \<not> is_space x")
      case True
      then have "takeWhile (\<lambda>c. \<not> is_space c) ((c # t) @ ?e) = c # t" "dropWhile (\<lambda>c. \<not> is_space c) ((c # t) @ ?e) = ?e"
        "?w = c # t" "?r = []" by (simp_all add: takeWhile_append2 dropWhile_append2)
      moreover have "Fields [] = []" by (simp add: Fields.simps)
      ultimately show ?thesis by (simp only: 2 3 append_Cons blank append_Nil)
    next
      case False
      then obtain x where "x \<in> set (c # t)" "\<not> \<not> is_space x" by blast
      then have "takeWhile (\<lambda>c. \<not> is_space c) ((c # t) @ ?e) = ?w" "dropWhile (\<lambda>c. \<not> is_space c) ((c # t) @ ?e) = ?r @ ?e"
        by (rule takeWhile_append1, rule dropWhile_append1)
      then show ?thesis by (simp only: 2 3 append_Cons IH)
    qed
  qed
qed

lemma split_loop_words:
  "blank_every chunkSize s \<Longrightarrow> split_loop chunkSize s parts = Some cs \<Longrightarrow>
    concat (map Fields cs) = concat (map Fields parts) @ Fields s"
proof (induction "length s" arbitrary: s parts rule: less_induct)
  case less
  show ?case
  proof (cases "s = [] \<or> length s < chunkSize")
    case True
    then show ?thesis using less.prems(2) by (subst (asm) split_loop.simps) (auto simp: Fields.simps [of "[]"] split: if_splits)
  next
    case False
    then have "CHR '' '' \<in> set (take chunkSize s)" using less.prems(1) by (auto simp: blank_every_iff dest: spec [of _ 0])
    then obtain k where k: "lastIndex (take chunkSize s) = Some k" using lastIndex_None by (metis option.exhaust)
    then have lt: "k < chunkSize" "k < length s" "s ! k = CHR '' ''" using lastIndex_Some [OF k] by auto
    have s: "s = take k s @ CHR '' '' # drop (k + 1) s" using id_take_nth_drop [OF lt(2)] lt(3) by simp
    have "split_loop chunkSize (drop (k + 1) s) (parts @ [take k s]) = Some cs"
      using less.prems(2) False k lt(1) by (subst (asm) split_loop.simps) (simp add: min_absorb1)
    from less.hyps [OF _ blank_every_drop [OF less.prems(1)] this] lt(2)
    have "concat (map Fields cs) = concat (map Fields parts) @ Fields (take k s) @ Fields (drop (k + 1) s)" by simp
    then show ?thesis using Fields_append_blank [of "take k s" "drop (k + 1) s"] s by simp
  qed
qed

lemma splitString_words:
  assumes "blank_every chunkSize s"
  shows "\<exists>cs. splitString s chunkSize = Some cs \<and> concat (map Fields cs) = Fields s"
proof -
  have "0 < chunkSize" using assms by (cases chunkSize) (auto simp: blank_every_iff dest: spec [of _ 0])
  then obtain cs where cs: "splitString s chunkSize = Some cs" using splitString_returns [of s chunkSize] by auto
  from split_loop_words [OF assms cs [unfolded splitString_def]] cs show ?thesis by simp
qed

section \<open>Files of records\<close>

text \<open>The sum of the records of a word, which may have several.\<close>

definition total_of :: "counts \<Rightarrow> string \<Rightarrow> int" where
  "total_of xs w = sum_list (map snd (filter (\<lambda>x. fst x = w) xs))"

lemma total_of_simps [simp]:
  "total_of [] w = 0" "total_of (xs @ ys) w = total_of xs w + total_of ys w"
  by (simp_all add: total_of_def)

lemma total_of_perm:
  assumes "mset xs = mset ys" shows "total_of xs w = total_of ys w"
proof -
  have "total_of zs w = sum_mset (image_mset snd (filter_mset (\<lambda>x. fst x = w) (mset zs)))" for zs
    by (simp add: total_of_def sum_mset_sum_list [symmetric] mset_map mset_filter)
  then show ?thesis by (simp only: assms)
qed

lemma count_add_counts: "count_of (add_counts xs m) w = count_of m w + total_of xs w"
  by (induction xs arbitrary: m) (auto simp: add_counts_def count_of_bump total_of_def split: prod.splits)

lemma count_of_Nil [simp]: "count_of [] w = 0"
  by (simp add: count_of_def)

lemma total_of_distinct: "distinct (map fst xs) \<Longrightarrow> total_of xs w = count_of xs w"
  using add_counts_sum [of xs "[]" w] by (simp add: count_add_counts)

text \<open>The records \<open>new\<close> are the records \<open>old\<close> and counts of the words of \<open>ws\<close> for the reducer \<open>r\<close>.\<close>

definition adds :: "nat \<Rightarrow> counts \<Rightarrow> string list \<Rightarrow> counts \<Rightarrow> bool" where
  "adds r old ws new \<longleftrightarrow> fst ` set new = fst ` set old \<union> {w \<in> set ws. part w = r} \<and>
     (\<forall>w. total_of new w = total_of old w + (if part w = r then int (count_list ws w) else 0))"

lemma adds_table: "table (\<lambda>w. part w = r) ws m \<Longrightarrow> adds r old ws (old @ m)"
  by (simp add: adds_def table_def total_of_distinct image_Un)

lemma adds_trans: "adds r old ws new \<Longrightarrow> adds r new vs new' \<Longrightarrow> adds r old (ws @ vs) new'"
  by (auto simp: adds_def)

lemma adds_Nil: "adds r old [] old"
  by (simp add: adds_def)

lemma adds_append: "adds r old ws new \<Longrightarrow> adds r old' ws' new' \<Longrightarrow> adds r (old @ old') (ws @ ws') (new @ new')"
  by (auto simp: adds_def image_Un)

lemma adds_concat:
  "(\<And>k. k \<in> set ks \<Longrightarrow> adds r (f k) (ws k) (g k)) \<Longrightarrow>
    adds r (concat (map f ks)) (concat (map ws ks)) (concat (map g ks))"
  by (induction ks) (simp_all add: adds_Nil adds_append)

lemma adds_words:
  "(\<And>w. count_list vs w = count_list ws w) \<Longrightarrow> adds r old vs new \<longleftrightarrow> adds r old ws new"
proof -
  assume c: "\<And>w. count_list vs w = count_list ws w"
  have "w \<in> set vs \<longleftrightarrow> w \<in> set ws" for w using c [of w] count_list_0_iff by metis
  then show ?thesis using c by (simp add: adds_def)
qed

section \<open>The chunks of a mapper\<close>

definition inputs_of :: "nat \<Rightarrow> nat \<Rightarrow> nat list" where
  "inputs_of n m = filter (\<lambda>i. i mod 4 = m) [0..<n]"

definition words_of :: "string list \<Rightarrow> nat list \<Rightarrow> string list" where
  "words_of cs is = concat (map (\<lambda>i. Fields (cs ! i)) is)"

lemma write_chunks_state:
  assumes "length (mapper v) = 4" "\<forall>m < 4. mapper v ! m = inputs_of i m"
  shows "length (mapper (write_chunks i cs v)) = 4 \<and>
    (\<forall>m < 4. mapper (write_chunks i cs v) ! m = inputs_of (i + length cs) m) \<and>
    (\<forall>j. inputFiles (write_chunks i cs v) j = (if i \<le> j \<and> j < i + length cs then Some (cs ! (j - i)) else inputFiles v j)) \<and>
    mapFiles (write_chunks i cs v) = mapFiles v \<and> reduceFiles (write_chunks i cs v) = reduceFiles v \<and>
    outputFile (write_chunks i cs v) = outputFile v"
  using assms
proof (induction i cs v rule: write_chunks.induct)
  case (2 i c cs v)
  let ?v = "v\<lparr>inputFiles := (inputFiles v)(i := Some c),
     mapper := (mapper v)[i mod numMappers := mapper v ! (i mod numMappers) @ [i]]\<rparr>"
  have "length (mapper ?v) = 4" "\<forall>m < 4. mapper ?v ! m = inputs_of (i + 1) m"
    using 2(2,3) by (auto simp: numMappers_def inputs_of_def nth_list_update)
  from 2(1) [OF this] show ?case by (auto simp: nth_Cons' less_Suc_eq_le)
qed auto

lemma words_of_snoc:
  "words_of cs [] = []" "words_of cs (is @ [n]) = words_of cs is @ Fields (cs ! n)"
  "inputs_of (Suc n) m = inputs_of n m @ (if n mod 4 = m then [n] else [])" "inputs_of 0 m = []"
  by (simp_all add: words_of_def inputs_of_def)

lemma words_of_all:
  "sum_list (map (\<lambda>m. count_list (words_of cs (inputs_of n m)) w) [0, 1, 2, 3]) = count_list (words_of cs [0..<n]) w"
proof (induction n)
  case (Suc n)
  define k where "k = n mod 4"
  have "words_of cs (inputs_of (Suc n) m) = words_of cs (inputs_of n m) @ (if k = m then Fields (cs ! n) else [])" for m
    by (simp add: words_of_snoc k_def)
  moreover have "words_of cs [0..<Suc n] = words_of cs [0..<n] @ Fields (cs ! n)" by (simp add: words_of_snoc)
  moreover have "k = 0 \<or> k = 1 \<or> k = 2 \<or> k = 3" by (auto simp: k_def)
  ultimately show ?case using Suc by auto
qed (simp add: words_of_snoc)

lemma upt_4: "[0..<4] = [0, 1, 2, 3 :: nat]"
  by (simp add: upt_rec)

lemma mapper_words:
  "count_list (concat (map (\<lambda>m. words_of cs (inputs_of (length cs) m)) [0..<4])) w = count_list (concat (map Fields cs)) w"
proof -
  have "words_of cs [0..<length cs] = concat (map Fields cs)"
    unfolding words_of_def by (metis (no_types, lifting) map_map comp_def map_cong map_nth)
  then show ?thesis
    using words_of_all [of cs "length cs" w] by (simp add: upt_4)
qed

section \<open>The phases\<close>

text \<open>The records an earlier run has left for a reducer.\<close>

definition left_over :: "map_reduce \<Rightarrow> nat \<Rightarrow> counts" where
  "left_over disk r = concat (map (\<lambda>m. records (mapFiles disk m r)) [0..<4])"

definition reduced :: "map_reduce \<Rightarrow> string \<Rightarrow> nat \<Rightarrow> counts \<Rightarrow> bool" where
  "reduced disk input r m \<longleftrightarrow> distinct (map fst m) \<and> adds r (left_over disk r) (Fields input) m"

definition final_counts :: "map_reduce \<Rightarrow> string \<Rightarrow> counts" where
  "final_counts disk input =
     map (\<lambda>w. (w, total_of (left_over disk 0) w + total_of (left_over disk 1) w + int (count_list (Fields input) w)))
       (sorted_list_of_set (fst ` set (left_over disk 0) \<union> fst ` set (left_over disk 1) \<union> set (Fields input)))"

definition mr_inv :: "map_reduce \<Rightarrow> string \<Rightarrow> string list \<Rightarrow> nid set \<Rightarrow> map_reduce \<Rightarrow> bool" where
  "mr_inv disk input cs D v \<longleftrightarrow>
     (if 1 \<in> D then (\<forall>i < length cs. inputFiles v i = Some (cs ! i)) \<and> (\<forall>m < 4. mapper v ! m = inputs_of (length cs) m)
      else mapper v = replicate 4 []) \<and>
     (\<forall>m < 4. (m + 2 \<in> D \<longrightarrow> 1 \<in> D) \<and>
        (if m + 2 \<in> D then \<forall>r < 2. adds r (records (mapFiles disk m r)) (words_of cs (inputs_of (length cs) m)) (records (mapFiles v m r))
         else mapFiles v m = mapFiles disk m)) \<and>
     (\<forall>r < 2. r + 6 \<in> D \<longrightarrow> reduced disk input r (records (reduceFiles v r))) \<and>
     (8 \<in> D \<longrightarrow> outputFile v = Some (final_counts disk input))"

lemma mr_inv_split:
  assumes "mr_inv disk input cs D v" "1 \<notin> D" "splitString input chunkSize = Some cs"
  shows "\<exists>v'. split_task input chunkSize v = Some v' \<and> mr_inv disk input cs (insert 1 D) v'"
proof -
  have m: "mapper v = replicate 4 []" using assms(1,2) by (simp add: mr_inv_def)
  have "\<forall>k < 4. mapper v ! k = inputs_of 0 k" by (simp add: m words_of_snoc)
  note w = write_chunks_state [OF _ this, of cs]
  have "mr_inv disk input cs (insert 1 D) (write_chunks 0 cs v)"
    using assms(1,2) w m unfolding mr_inv_def by auto
  then show ?thesis using assms(3) by (simp add: split_task_def)
qed

text \<open>One file of a mapper.\<close>

lemma processMap_adds:
  assumes "inputFiles v i = Some data" "ranges order"
  shows "\<exists>v'. processMap order m i v = Some v' \<and> inputFiles v' = inputFiles v \<and> mapper v' = mapper v \<and>
    reduceFiles v' = reduceFiles v \<and> outputFile v' = outputFile v \<and>
    (\<forall>k. k \<noteq> m \<longrightarrow> mapFiles v' k = mapFiles v k) \<and>
    (\<forall>r < 2. adds r (records (mapFiles v m r)) (Fields data) (records (mapFiles v' m r)))"
proof -
  have "\<exists>ts. count_words (Fields data) (replicate numReducers []) = Some ts \<and> length ts = 2 \<and>
      (\<forall>r < 2. table (\<lambda>w. part w = r) ([] @ Fields data) (ts ! r))"
    by (rule count_words_tables) (simp_all add: numReducers_def table_Nil)
  then obtain ts where ts: "count_words (Fields data) (replicate numReducers []) = Some ts"
    "\<And>r. r < 2 \<Longrightarrow> table (\<lambda>w. part w = r) (Fields data) (ts ! r)" by auto
  have a: "adds r (records f) (Fields data) (records (append_records f (order n k (ts ! r))))" if "r < 2" for r f n k
    using adds_table [OF ranges_table [OF assms(2) ts(2) [OF that]]]
    by (simp add: records_def append_records_def split: option.split)
  have u: "[0..<numReducers] = [0, 1]" by (simp add: numReducers_def upt_rec)
  show ?thesis
    using a [of 0] a [of 1] by (auto simp: processMap_def assms(1) ts(1) u less_2_cases_iff)
qed

lemma process_maps_adds:
  assumes "ranges order" "\<forall>i \<in> set is. inputFiles v i = Some (cs ! i)"
  shows "\<exists>v'. process_maps order m is v = Some v' \<and> inputFiles v' = inputFiles v \<and> mapper v' = mapper v \<and>
    reduceFiles v' = reduceFiles v \<and> outputFile v' = outputFile v \<and>
    (\<forall>k. k \<noteq> m \<longrightarrow> mapFiles v' k = mapFiles v k) \<and>
    (\<forall>r < 2. adds r (records (mapFiles v m r)) (words_of cs is) (records (mapFiles v' m r)))"
  using assms(2)
proof (induction "is" arbitrary: v)
  case (Cons i "is")
  obtain v1 where v1: "processMap order m i v = Some v1" "inputFiles v1 = inputFiles v" "mapper v1 = mapper v"
    "reduceFiles v1 = reduceFiles v" "outputFile v1 = outputFile v" "\<forall>k. k \<noteq> m \<longrightarrow> mapFiles v1 k = mapFiles v k"
    "\<forall>r < 2. adds r (records (mapFiles v m r)) (Fields (cs ! i)) (records (mapFiles v1 m r))"
    using processMap_adds [of v i "cs ! i" order m] Cons.prems assms(1) by auto
  obtain v2 where v2: "process_maps order m is v1 = Some v2" "inputFiles v2 = inputFiles v1" "mapper v2 = mapper v1"
    "reduceFiles v2 = reduceFiles v1" "outputFile v2 = outputFile v1" "\<forall>k. k \<noteq> m \<longrightarrow> mapFiles v2 k = mapFiles v1 k"
    "\<forall>r < 2. adds r (records (mapFiles v1 m r)) (words_of cs is) (records (mapFiles v2 m r))"
    using Cons.IH [of v1] Cons.prems v1(2) by auto
  have "\<forall>r < 2. adds r (records (mapFiles v m r)) (words_of cs (i # is)) (records (mapFiles v2 m r))"
    using v1(7) v2(7) adds_trans by (simp add: words_of_def) blast
  with v1 v2 show ?case by auto
qed (simp add: words_of_def adds_Nil)

lemma mr_inv_map:
  assumes "mr_inv disk input cs D v" "m < 4" "1 \<in> D" "m + 2 \<notin> D" "ranges order"
  shows "\<exists>v'. process_maps order m (mapper v ! m) v = Some v' \<and> mr_inv disk input cs (insert (m + 2) D) v'"
proof -
  note inv = assms(1) [unfolded mr_inv_def]
  have mp: "mapper v ! m = inputs_of (length cs) m" using inv assms(2,3) by simp
  have "\<forall>i \<in> set (inputs_of (length cs) m). inputFiles v i = Some (cs ! i)"
    using inv assms(3) by (auto simp: inputs_of_def)
  from process_maps_adds [OF assms(5) this, of m]
  obtain v' where v': "process_maps order m (inputs_of (length cs) m) v = Some v'" "inputFiles v' = inputFiles v"
    "mapper v' = mapper v" "reduceFiles v' = reduceFiles v" "outputFile v' = outputFile v"
    "\<forall>k. k \<noteq> m \<longrightarrow> mapFiles v' k = mapFiles v k"
    "\<forall>r < 2. adds r (records (mapFiles v m r)) (words_of cs (inputs_of (length cs) m)) (records (mapFiles v' m r))" by blast
  have "mapFiles v m = mapFiles disk m" using inv assms(2,4) by auto
  then have "mr_inv disk input cs (insert (m + 2) D) v'"
    using inv v'(2-7) assms(2,3) unfolding mr_inv_def by auto
  with v'(1) mp show ?thesis by auto
qed

lemma mr_inv_reduce:
  assumes "mr_inv disk input cs D v" "r < 2" "{2..5} \<subseteq> D" "ranges order" "concat (map Fields cs) = Fields input"
  shows "\<exists>v'. processReduce order r v = Some v' \<and> mr_inv disk input cs (insert (r + 6) D) v'"
proof -
  note inv = assms(1) [unfolded mr_inv_def]
  have in_D: "m + 2 \<in> D" if "m < 4" for m using that by (intro subsetD [OF assms(3)]) simp
  let ?I = "concat (map (\<lambda>m. records (mapFiles v m r)) [0..<4])"
  have "adds r (records (mapFiles disk m r)) (words_of cs (inputs_of (length cs) m)) (records (mapFiles v m r))" if "m \<in> set [0..<4]" for m
    using inv in_D assms(2) that by auto
  from adds_concat [of "[0..<4]", OF this]
  have "adds r (left_over disk r) (concat (map (\<lambda>m. words_of cs (inputs_of (length cs) m)) [0..<4])) ?I"
    unfolding left_over_def .
  then have I: "adds r (left_over disk r) (Fields input) ?I"
    using adds_words [OF mapper_words [of cs]] assms(5) by simp
  let ?R = "add_counts ?I []"
  have d: "distinct (map fst ?R)" by (rule add_counts_keys) simp
  have k: "fst ` set ?R = fst ` set ?I" by (simp add: add_counts_keys)
  have "total_of ?R w = total_of ?I w" for w using total_of_distinct [OF d, of w] by (simp add: count_add_counts)
  then have a: "adds r (left_over disk r) (Fields input) ?R" using I k by (simp add: adds_def)
  have o: "mset (order (r + 6) 0 ?R) = mset ?R" using assms(4) by (simp add: ranges_def)
  have "mset (map fst (order (r + 6) 0 ?R)) = mset (map fst ?R)" using o by simp
  note od = mset_eq_imp_distinct_iff [OF this]
  have "reduced disk input r (order (r + 6) 0 ?R)"
    using a d od total_of_perm [OF o] mset_eq_setD [OF o] by (simp add: reduced_def adds_def)
  then have "mr_inv disk input cs (insert (r + 6) D) (v\<lparr>reduceFiles := (reduceFiles v)(r := Some (order (r + 6) 0 ?R))\<rparr>)"
    using inv assms(2) unfolding mr_inv_def by (auto simp: records_def)
  then show ?thesis by (simp add: processReduce_def numMappers_def)
qed

lemma mr_inv_merge:
  assumes "mr_inv disk input cs D v" "{6, 7} \<subseteq> D" "ranges order"
  shows "\<exists>v'. mergeResults order v = Some v' \<and> mr_inv disk input cs (insert 8 D) v'"
proof -
  note inv = assms(1) [unfolded mr_inv_def]
  have in_D: "r + 6 \<in> D" if "r < 2" for r using that assms(2) by (auto simp: less_2_cases_iff)
  let ?r = "\<lambda>r. records (reduceFiles v r)"
  have R: "reduced disk input r (?r r)" if "r < 2" for r using inv in_D that by simp
  let ?F = "fold (\<lambda>r. add_counts (?r r)) [0..<numReducers] []"
  have F: "?F = add_counts (?r 1) (add_counts (?r 0) [])" by (simp add: numReducers_def upt_rec)
  have p: "part w = 0 \<or> part w = 1" for w using part_range(2) [of w] by auto
  have c: "count_of ?F w = total_of (left_over disk 0) w + total_of (left_over disk 1) w + int (count_list (Fields input) w)" for w
    using R [of 0] R [of 1] p [of w] by (auto simp: F count_add_counts reduced_def adds_def)
  have u: "{w \<in> set (Fields input). part w = 1} \<union> {w \<in> set (Fields input). part w = 0} = set (Fields input)" using p by blast
  have k: "fst ` set ?F = fst ` set (left_over disk 0) \<union> fst ` set (left_over disk 1) \<union> set (Fields input)"
    using R [of 0] R [of 1] u by (auto simp: F add_counts_keys reduced_def adds_def)
  have d: "distinct (map fst ?F)" by (simp add: F add_counts_keys)
  have o: "mset (order 8 0 ?F) = mset ?F" using assms(3) by (simp add: ranges_def)
  have "mset (map fst (order 8 0 ?F)) = mset (map fst ?F)" using o by simp
  then have "distinct (map fst (order 8 0 ?F))" using mset_eq_imp_distinct_iff d by blast
  then have "sort (map fst (order 8 0 ?F)) = sorted_list_of_set (set (map fst (order 8 0 ?F)))"
    by (rule sort_keys)
  also have "set (map fst (order 8 0 ?F)) = fst ` set ?F" using mset_eq_setD [OF o] by simp
  finally have "mergeResults order v = Some (v\<lparr>outputFile := Some (final_counts disk input)\<rparr>)"
    unfolding mergeResults_def Let_def final_counts_def by (simp only: k c)
  moreover have "mr_inv disk input cs (insert 8 D) (v\<lparr>outputFile := Some (final_counts disk input)\<rparr>)"
    using inv unfolding mr_inv_def by auto
  ultimately show ?thesis by blast
qed

section \<open>The result\<close>

lemma mr_inv_step:
  assumes "ranges order" "splitString input chunkSize = Some cs" "concat (map Fields cs) = Fields input"
    and "mr_inv disk input cs D v" "n \<in> {0<..8}" "n \<notin> D" "set (to_node (edges_of wc_calls) n) \<subseteq> D"
  shows "\<exists>v'. mr_task order input chunkSize n v = Some v' \<and> mr_inv disk input cs (insert n D) v'"
  using assms(5)
proof (cases rule: wc_nodes)
  case 1
  with mr_inv_split [OF assms(4) _ assms(2)] assms(6) show ?thesis by (simp add: mr_task_def)
next
  case (2 i)
  with wc_before(1) assms(7) have "1 \<in> D" by blast
  from mr_inv_map [OF assms(4) 2(2) this _ assms(1)] 2 assms(6) show ?thesis by (simp add: mr_task_def)
next
  case (3 r)
  with wc_before(2) assms(7) have "{2..5} \<subseteq> D" by blast
  from mr_inv_reduce [OF assms(4) 3(2) this assms(1,3)] 3 show ?thesis by (simp add: mr_task_def)
next
  case 4
  with wc_before(3) assms(7) have "{6, 7} \<subseteq> D" by blast
  from mr_inv_merge [OF assms(4) this assms(1)] 4 show ?thesis by (simp add: mr_task_def)
qed

text \<open>(C19) The map-reduce program with files counts words, and adds the records it finds: when every
  stretch of \<open>ChunkSize\<close> bytes of the ASCII input has a blank, then in a completed run with no panic, in
  whatever order concurrent tasks took effect and maps were visited, no function fails, and the output
  has each word once, in the order of the words, with its number in the input plus the sum of the
  records of the word that earlier runs have left in the temporary directory. So the output is the
  word count of the input when the directory is empty, and twice that when the program is run again.\<close>

theorem map_reduce_correct:
  assumes "ranges order" "blank_every chunkSize input"
    and "NewExecutor c opts now mr_flow [[Run 1, Wait]] = Inr s0" "reach s0 s" "stuck s"
    and "\<And>m. HPanic m \<notin> set (hist s)" "effect_order (hist s) ns"
  shows "\<exists>v. perform (mr_task order input chunkSize) ns (mr_init disk) = Some v \<and>
    outputFile v = Some (map (\<lambda>w. (w, total_of (left_over disk 0) w + total_of (left_over disk 1) w + int (count_list (Fields input) w)))
      (sorted_list_of_set (fst ` set (left_over disk 0) \<union> fst ` set (left_over disk 1) \<union> set (Fields input))))"
proof -
  obtain cs where cs: "splitString input chunkSize = Some cs" "concat (map Fields cs) = Fields input"
    using splitString_words [OF assms(2)] by blast
  have "\<exists>v. perform (mr_task order input chunkSize) ns (mr_init disk) = Some v \<and> mr_inv disk input cs {0<..tasks_of wc_calls} v"
  proof (rule client_run [where rank = id and Inv = "mr_inv disk input cs",
        OF wc_calls_shape(1) _ _ _ assms(3) [unfolded mr_flow_def] assms(4-7)])
    show "mr_inv disk input cs {} (mr_init disk)" by (simp add: mr_inv_def mr_init_def numMappers_def)
  qed (use mr_inv_step [OF assms(1) cs] in \<open>auto simp: wc_calls_shape\<close>)
  then show ?thesis by (auto simp: wc_calls_shape mr_inv_def final_counts_def)
qed

text \<open>A directory left by an earlier run, and one that is empty.\<close>

definition empty_disk :: map_reduce where
  "empty_disk = \<lparr>inputFiles = \<lambda>_. None, mapper = [], mapFiles = \<lambda>_ _. None, reduceFiles = \<lambda>_. None, outputFile = None\<rparr>"

definition used_disk :: map_reduce where
  "used_disk = empty_disk\<lparr>mapFiles := (\<lambda>_ _. None)(0 := (\<lambda>_. None)(part ''b'' := Some [(''b'', 1)]))\<rparr>"

lemma map_reduce_correct_witness:
  "\<exists>s0 s ns v. NewExecutor 2 [] 0 mr_flow [[Run 1, Wait]] = Inr s0 \<and> reach s0 s \<and> effect_order (hist s) ns \<and>
     perform (mr_task (\<lambda>n k. rev) ''b a b'' 3) ns (mr_init used_disk) = Some v \<and> outputFile v = Some [(''a'', 1), (''b'', 3)]"
proof -
  have r: "ranges (\<lambda>n k. rev)" by (simp add: ranges_def)
  have b: "blank_every 3 ''b a b''" by code_simp
  obtain s0 where s0: "NewExecutor 2 [] 0 mr_flow [[Run 1, Wait]] = Inr s0" by (simp add: NewExecutor_def)
  have ok: "tasks_of wc_calls < 2 ^ 32" "length (edges_of wc_calls) < 2 ^ 32" by (simp_all add: wc_calls_shape)
  obtain s ns where s: "reach s0 s" "stuck s" "\<And>m. HPanic m \<notin> set (hist s)" "effect_order (hist s) ns"
    by (rule client_run_exists [OF wc_calls_shape(1) ok s0 [unfolded mr_flow_def]]) (rule that)
  have "map (\<lambda>w. (w, total_of (left_over used_disk 0) w + total_of (left_over used_disk 1) w + int (count_list (Fields ''b a b'') w)))
      (sorted_list_of_set (fst ` set (left_over used_disk 0) \<union> fst ` set (left_over used_disk 1) \<union> set (Fields ''b a b''))) =
      [(''a'', 1), (''b'', 3)]"
    by code_simp
  with map_reduce_correct [OF r b s0 s, of used_disk] s0 s(1,4) show ?thesis by auto
qed

end
