(* ===== verification/Flowchart.thy ===== *)
theory Flowchart
  imports Scenarios Static_Clients
begin

text \<open>
  Flows that are sequential programs: one entry, at most one successor per task, and conditions that
  choose the next task, with loops. The flowchart is executed by an interpreter (\<open>chart_run\<close>) that calls
  one function after the other; the theorem is that the executor, with any number of workers and any
  interleaving, calls the functions in the order of the interpreter and computes its variables. It may
  stop early (a panic, or the lost retry of \<open>Scenarios\<close>); it never does anything else.
\<close>

section \<open>Functions that compute and answer\<close>

text \<open>What a user function does to the shared variables, and how it ends.\<close>

datatype outcome = Returns | Chooses uint | Panics

type_synonym 'v program = "nid \<Rightarrow> 'v \<Rightarrow> 'v \<times> outcome"

text \<open>The variables after an event: an event in which a function ends must end it as the program
  says. A choice above the number of branches is followed by the second call of the function that
  \<open>invokeCondition\<close> makes for its panic message.\<close>

fun answer :: "'v program \<Rightarrow> sys \<Rightarrow> event \<Rightarrow> 'v \<Rightarrow> 'v option" where
  "answer F s (i, ch, now) v =
     (case threads s ! i of
        Handle c sp \<Rightarrow>
          (let n = cnode c; (v1, r) = F n v
           in case r of
                Returns \<Rightarrow> if ch = Return then Some v1 else None
              | Panics \<Rightarrow> if ch = Panic then Some v1 else None
              | Chooses k \<Rightarrow>
                  if ch = Choose k
                  then (case ptr (hnode (heap s) n) of
                          PCondition m \<Rightarrow> if k > of_nat (length m) then Some (fst (F n v1)) else Some v1
                        | _ \<Rightarrow> Some v1)
                  else None)
      | _ \<Rightarrow> Some v)"

text \<open>The states of the executor and the variables that a program reaches.\<close>

inductive client_reach :: "'v program \<Rightarrow> sys \<Rightarrow> 'v \<Rightarrow> sys \<Rightarrow> 'v \<Rightarrow> bool" for F s0 v0 where
  start: "client_reach F s0 v0 s0 v0"
| step: "client_reach F s0 v0 s v \<Longrightarrow> step s e = Some t \<Longrightarrow> answer F s e v = Some v' \<Longrightarrow>
    client_reach F s0 v0 t v'"

lemma client_reach_reach: "client_reach F s0 v0 s v \<Longrightarrow> reach s0 s"
  by (induction rule: client_reach.induct) (auto intro: reach.intros)

section \<open>The flowchart and its interpreter\<close>

definition chart_entries :: "heap \<Rightarrow> gid \<Rightarrow> nid list" where
  "chart_entries h g = filter (\<lambda>n. dependents (hnode h n) = []) (gnodes (hgraph h g))"

definition chart_node :: "heap \<Rightarrow> gid \<Rightarrow> nid \<Rightarrow> bool" where
  "chart_node h g n \<longleftrightarrow> ngraph (hnode h n) = g \<and>
     (case ptr (hnode h n) of
        PStatic \<Rightarrow> length (successors (hnode h n)) \<le> 1 \<and> set (successors (hnode h n)) \<subseteq> set (gnodes (hgraph h g))
      | PCondition m \<Rightarrow> snd ` set m \<subseteq> set (gnodes (hgraph h g))
      | _ \<Rightarrow> False)"

definition flowchart :: "heap \<Rightarrow> gid \<Rightarrow> bool" where
  "flowchart h g \<longleftrightarrow> length (chart_entries h g) \<le> 1 \<and> list_all (chart_node h g) (gnodes (hgraph h g))"

fun first :: "nid list \<Rightarrow> nid option" where
  "first [] = None"
| "first (n # ns) = Some n"

text \<open>One call: the calls it makes, the variables, and the node that is next.\<close>

definition chart_step :: "heap \<Rightarrow> 'v program \<Rightarrow> nid \<Rightarrow> 'v \<Rightarrow> nid list \<times> 'v \<times> nid option" where
  "chart_step h F n v =
     (let (v1, r) = F n v
      in case ptr (hnode h n) of
           PCondition m \<Rightarrow>
             (case r of
                Chooses k \<Rightarrow> if k > of_nat (length m) then ([n, n], fst (F n v1), None) else ([n], v1, map_of m k)
              | _ \<Rightarrow> ([n], v1, None))
         | _ \<Rightarrow> ([n], v1, if r = Returns then first (successors (hnode h n)) else None))"

text \<open>A number of calls from a node on, with the nodes called so far.\<close>

fun chart_run :: "heap \<Rightarrow> 'v program \<Rightarrow> nat \<Rightarrow> nid option \<times> 'v \<times> nid list \<Rightarrow> nid option \<times> 'v \<times> nid list" where
  "chart_run h F (Suc k) (Some n, v, ns) =
     (let (ms, v', l) = chart_step h F n v in chart_run h F k (l, v', ns @ ms))"
| "chart_run h F k (l, v, ns) = (l, v, ns)"

definition chart_start :: "heap \<Rightarrow> gid \<Rightarrow> 'v \<Rightarrow> nid option \<times> 'v \<times> nid list" where
  "chart_start h g v = (first (chart_entries h g), v, [])"

lemma chart_run_Suc:
  "chart_run h F k x = (Some n, v, ns) \<Longrightarrow> chart_step h F n v = (ms, v', l) \<Longrightarrow>
   chart_run h F (Suc k) x = (l, v', ns @ ms)"
proof (induction h F k x rule: chart_run.induct)
  case (1 h F k n' v' ns')
  obtain ms1 v1 l1 where c: "chart_step h F n' v' = (ms1, v1, l1)" by (metis prod_cases3)
  with 1(1) [OF c [symmetric] refl refl] 1(2,3) show ?case by (simp add: c)
qed (simp_all)

lemma chart_run_invariant:
  assumes "chart_run h F k x = (l, v, ns)" "I (fst x) (fst (snd x)) (snd (snd x))"
    and step: "\<And>n v ns ms v' l'. I (Some n) v ns \<Longrightarrow> chart_step h F n v = (ms, v', l') \<Longrightarrow> I l' v' (ns @ ms)"
  shows "I l v ns"
  using assms(1,2)
proof (induction k arbitrary: x)
  case (Suc k)
  obtain l0 v0 ns0 where x: "x = (l0, v0, ns0)" by (metis prod_cases3)
  show ?case
  proof (cases l0)
    case (Some n)
    obtain ms v1 l1 where c: "chart_step h F n v0 = (ms, v1, l1)" by (metis prod_cases3)
    from Suc.prems Some x c have "chart_run h F k (l1, v1, ns0 @ ms) = (l, v, ns)" by simp
    moreover have "I l1 v1 (ns0 @ ms)" using step [OF _ c, of ns0] Suc.prems(2) Some x by simp
    ultimately show ?thesis using Suc.IH [of "(l1, v1, ns0 @ ms)"] by simp
  qed (use Suc.prems x in simp)
qed (use assms(2) in auto)

section \<open>Tokens\<close>

text \<open>Where a run can be: the runs a client has left to start, nodes on their way to a worker, and a
  task whose successor is still to be scheduled. A condition has passed its token on when its function
  has returned.\<close>

fun runs :: "call list \<Rightarrow> nat" where
  "runs [] = 0"
| "runs (Run tf # cs) = Suc (runs cs)"
| "runs (Wait # cs) = runs cs"

fun gk_runs :: "gkont \<Rightarrow> nat" where
  "gk_runs (GMain cs) = runs cs"
| "gk_runs (GSub c sp) = 0"

fun sk_runs :: "skont \<Rightarrow> nat" where
  "sk_runs (KLoop g k) = gk_runs k"
| "sk_runs _ = 0"

fun tokens :: "pc \<Rightarrow> nat" where
  "tokens (Client cs) = runs cs"
| "tokens (GSetup g k) = Suc (gk_runs k)"
| "tokens (Schedule ns k) = length ns + sk_runs k"
| "tokens (PRef n ns k) = Suc (length ns) + sk_runs k"
| "tokens (PPut n ns k) = Suc (length ns) + sk_runs k"
| "tokens (LCheck g k) = gk_runs k"
| "tokens (LWait g k) = gk_runs k"
| "tokens (LPop g k) = gk_runs k"
| "tokens (LInvoke n g k) = Suc (gk_runs k)"
| "tokens (LLeave g k) = gk_runs k"
| "tokens (Body c) = 1"
| "tokens (Handle c sp) = 1"
| "tokens (Defer c sp ok) = (if is_condition c \<and> ok then 0 else 1)"
| "tokens (Drop c vs) = (if is_condition c then 0 else 1)"
| "tokens (Succs c vs cand) = length vs + length cand"
| "tokens (NSetup c cand) = length cand"
| "tokens _ = 0"

definition all_tokens :: "sys \<Rightarrow> nat" where
  "all_tokens s = total tokens s + length (items (wq s)) + length (pool_items (epool s))"

lemma countable_tokens [simp]: "countable_pc tokens"
  by (simp add: countable_pc_def wait_blind_def)

text \<open>The nodes a program counter will call next.\<close>

fun nexts :: "heap \<Rightarrow> gid \<Rightarrow> pc \<Rightarrow> nid set" where
  "nexts h g (Client cs) = (if runs cs = 0 then {} else set (chart_entries h g))"
| "nexts h g (GSetup g' k) = set (chart_entries h g)"
| "nexts h g (Schedule ns k) = set ns"
| "nexts h g (PRef n ns k) = insert n (set ns)"
| "nexts h g (PPut n ns k) = insert n (set ns)"
| "nexts h g (LInvoke n g' k) = {n}"
| "nexts h g (Body c) = {cnode c}"
| "nexts h g (Defer c sp ok) = (if is_condition c \<or> \<not> ok then {} else set (successors (hnode h (cnode c))))"
| "nexts h g (Drop c vs) = (if is_condition c then {} else set (successors (hnode h (cnode c))))"
| "nexts h g (Succs c vs cand) = set vs \<union> set cand"
| "nexts h g (NSetup c cand) = set cand"
| "nexts h g p = {}"

definition all_nexts :: "heap \<Rightarrow> gid \<Rightarrow> sys \<Rightarrow> nid set" where
  "all_nexts h g s = (\<Union>p \<in> set (threads s). nexts h g p) \<union> set (items (wq s)) \<union> cnode ` set (pool_items (epool s))"

text \<open>The program counters of such a run.\<close>

fun fits :: "heap \<Rightarrow> gid \<Rightarrow> closure \<Rightarrow> bool" where
  "fits h g (StaticC n p) = (n \<in> set (gnodes (hgraph h g)) \<and> ptr (hnode h n) = PStatic)"
| "fits h g (ConditionC n p) = (n \<in> set (gnodes (hgraph h g)) \<and> (\<exists>m. ptr (hnode h n) = PCondition m))"
| "fits h g (SubflowC n p g') = False"

fun call_ok :: "heap \<Rightarrow> gid \<Rightarrow> call \<Rightarrow> bool" where
  "call_ok h g (Run tf) = (graph (hflow h tf) = g)"
| "call_ok h g Wait = True"

fun gk_ok :: "heap \<Rightarrow> gid \<Rightarrow> gkont \<Rightarrow> bool" where
  "gk_ok h g (GMain cs) = (list_all (call_ok h g) cs \<and> runs cs = 0)"
| "gk_ok h g (GSub c sp) = False"

fun sk_ok :: "heap \<Rightarrow> gid \<Rightarrow> skont \<Rightarrow> bool" where
  "sk_ok h g (KLoop g' k) = (g' = g \<and> gk_ok h g k)"
| "sk_ok h g (KSucc c) = (fits h g c \<and> \<not> is_condition c)"
| "sk_ok h g (KCond c sp) = (fits h g c \<and> is_condition c)"

fun chart_pc :: "heap \<Rightarrow> gid \<Rightarrow> pc \<Rightarrow> bool" where
  "chart_pc h g (Client cs) = (list_all (call_ok h g) cs \<and> runs cs \<le> 1)"
| "chart_pc h g (GSetup g' k) = (g' = g \<and> gk_ok h g k)"
| "chart_pc h g (Schedule ns k) = sk_ok h g k"
| "chart_pc h g (PRef n ns k) = sk_ok h g k"
| "chart_pc h g (PPut n ns k) = sk_ok h g k"
| "chart_pc h g (LCheck g' k) = (g' = g \<and> gk_ok h g k)"
| "chart_pc h g (LWait g' k) = (g' = g \<and> gk_ok h g k)"
| "chart_pc h g (LPop g' k) = (g' = g \<and> gk_ok h g k)"
| "chart_pc h g (LInvoke n g' k) = (g' = g \<and> gk_ok h g k)"
| "chart_pc h g (LLeave g' k) = (g' = g \<and> gk_ok h g k)"
| "chart_pc h g (Body c) = fits h g c"
| "chart_pc h g (Handle c sp) = fits h g c"
| "chart_pc h g (Defer c sp ok) = fits h g c"
| "chart_pc h g (Drop c vs) = fits h g c"
| "chart_pc h g (Succs c vs cand) = (fits h g c \<and> \<not> is_condition c)"
| "chart_pc h g (NSetup c cand) = (fits h g c \<and> \<not> is_condition c)"
| "chart_pc h g (Deref c) = fits h g c"
| "chart_pc h g (CSetup c) = fits h g c"
| "chart_pc h g (Done c) = fits h g c"
| "chart_pc h g _ = True"

definition shape_kept :: "heap \<Rightarrow> heap \<Rightarrow> bool" where
  "shape_kept h h' \<longleftrightarrow> frame h h' \<and> (\<forall>tf. graph (hflow h' tf) = graph (hflow h tf))"

definition chart_inv :: "heap \<Rightarrow> gid \<Rightarrow> sys \<Rightarrow> bool" where
  "chart_inv h g s \<longleftrightarrow> shape_kept h (heap s) \<and>
     (\<forall>p \<in> set (threads s). chart_pc h g p) \<and> (\<forall>c \<in> set (pool_items (epool s)). fits h g c) \<and>
     all_nexts h g s \<subseteq> set (gnodes (hgraph h g)) \<and> all_tokens s \<le> 1"

fun is_handle :: "pc \<Rightarrow> bool" where
  "is_handle (Handle c sp) = True"
| "is_handle _ = False"

text \<open>The state of the interpreter that a state of the executor is in.\<close>

definition at :: "heap \<Rightarrow> gid \<Rightarrow> sys \<Rightarrow> nid option \<Rightarrow> nid list \<Rightarrow> bool" where
  "at h g s l ns \<longleftrightarrow>
     (is_canceled s g \<or> (\<forall>n \<in> all_nexts h g s. l = Some n)) \<and>
     (\<forall>c sp. Handle c sp \<in> set (threads s) \<longrightarrow> l = Some (cnode c) \<and> called (hist s) = ns @ [cnode c]) \<and>
     (list_ex is_handle (threads s) \<or> called (hist s) = ns)"

section \<open>The steps of such a run\<close>

lemma kept_refl [simp]: "shape_kept h h"
  by (simp add: shape_kept_def)

lemma kept_ops [simp]:
  assumes "shape_kept h0 h"
  shows "shape_kept h0 (set_state st n h)" "shape_kept h0 (node_setup n h)" "shape_kept h0 (drop_one n v h)"
    "shape_kept h0 (graph_ref g h)" "shape_kept h0 (graph_deref g h)" "shape_kept h0 (graph_cancel g h)"
  using assms by (simp_all add: shape_kept_def) (simp_all add: set_state_def node_setup_eq drop_one_def node_deref_def
      graph_ref_def graph_deref_def graph_cancel_def)

lemma canceled_ops [simp]:
  "hgraph (set_state st n h) = hgraph h" "hgraph (node_setup n h) = hgraph h" "hgraph (drop_one n v h) = hgraph h"
  "canceled (hgraph (graph_ref g' h) g) = canceled (hgraph h g)" "canceled (hgraph (graph_deref g' h) g) = canceled (hgraph h g)"
  "canceled (hgraph (graph_cancel g' h) g) = (g = g' \<or> canceled (hgraph h g))"
  by (auto simp: set_state_def node_setup_eq drop_one_def node_deref_def graph_ref_def graph_deref_def graph_cancel_def)

lemma kept_setup:
  assumes "shape_kept h0 h" "distinct (gnodes (hgraph h0 g))"
  shows "shape_kept h0 (graph_setup g h)" "entries (hgraph (graph_setup g h) g) = chart_entries h0 g"
    "canceled (hgraph (graph_setup g h) g') = canceled (hgraph h g')"
proof -
  have d: "distinct (gnodes (hgraph h g))" using assms by (simp add: shape_kept_def frame_def)
  have "hflow (graph_setup g h) = hflow h"
  proof -
    have "hflow (fold (setup_one g) ns k) = hflow k" for ns k
      by (induction ns arbitrary: k) (simp_all add: setup_one_def Let_def node_setup_eq)
    moreover have "hflow (fold (\<lambda>n. upd_node n (\<lambda>x. x\<lparr>njoin := 0\<rparr>)) ns k) = hflow k" for ns k
      by (induction ns arbitrary: k) simp_all
    ultimately show ?thesis by (simp add: graph_setup_def Let_def graph_reset_def)
  qed
  then show "shape_kept h0 (graph_setup g h)"
    using assms(1) by (simp add: shape_kept_def frame_def graph_setup_hnode [OF d] graph_setup_hgraph [OF d])
  show "entries (hgraph (graph_setup g h) g) = chart_entries h0 g"
    using assms(1) by (simp add: shape_kept_def frame_def graph_setup_hgraph [OF d] chart_entries_def)
  show "canceled (hgraph (graph_setup g h) g') = canceled (hgraph h g')"
    by (simp add: graph_setup_hgraph [OF d])
qed

text \<open>A step of a goroutine at \<open>p\<close>: where it goes, that it keeps the invariant, and that the nodes that
  are next were next before, or are those of \<open>X\<close>.\<close>

definition passes :: "heap \<Rightarrow> gid \<Rightarrow> sys \<Rightarrow> nat \<Rightarrow> pc \<Rightarrow> hevent list \<Rightarrow> nid set \<Rightarrow> sys \<Rightarrow> bool" where
  "passes h g s i p' es X t \<longleftrightarrow> (\<exists>w. goes g s i p' w t) \<and> hist t = hist s @ es \<and> shape_kept h (heap t) \<and>
     chart_pc h g p' \<and> (\<forall>c \<in> set (pool_items (epool t)). fits h g c) \<and>
     nexts h g p' \<union> set (items (wq t)) \<union> cnode ` set (pool_items (epool t)) \<subseteq> set (gnodes (hgraph h g)) \<and>
     tokens p' + length (items (wq t)) + length (pool_items (epool t)) \<le>
       tokens (threads s ! i) + length (items (wq s)) + length (pool_items (epool s)) \<and>
     (is_canceled s g \<longrightarrow> is_canceled t g) \<and>
     (is_canceled t g \<or> nexts h g p' \<union> set (items (wq t)) \<union> cnode ` set (pool_items (epool t)) \<subseteq>
       X \<union> set (items (wq s)) \<union> cnode ` set (pool_items (epool s)))"

lemma passesI:
  assumes "threads t = (if w then signal g (threads s) else threads s)[i := p'] @ ps"
    "ps = [] \<or> ps = [WPoll] \<and> is_invoke (threads s ! i)"
    "hist t = hist s @ es" "shape_kept h (heap t)" "chart_pc h g p'" "items (wq t) = q" "pool_items (epool t) = l"
    "\<forall>c \<in> set l. fits h g c" "nexts h g p' \<union> set q \<union> cnode ` set l \<subseteq> set (gnodes (hgraph h g))"
    "tokens p' + length q + length l \<le> tokens (threads s ! i) + length (items (wq s)) + length (pool_items (epool s))"
    "is_canceled s g \<longrightarrow> is_canceled t g"
    "is_canceled t g \<or> nexts h g p' \<union> set q \<union> cnode ` set l \<subseteq> X \<union> set (items (wq s)) \<union> cnode ` set (pool_items (epool s))"
  shows "passes h g s i p' es X t"
  using assms unfolding passes_def goes_def by blast

lemma chart_nodes:
  assumes "flowchart h g" "n \<in> set (gnodes (hgraph h g))" "shape_kept h h'"
  shows "ngraph (hnode h' n) = g"
    and "ptr (hnode h n) = PStatic \<Longrightarrow> length (successors (hnode h n)) \<le> 1 \<and> set (successors (hnode h n)) \<subseteq> set (gnodes (hgraph h g))"
    and "ptr (hnode h n) = PCondition m \<Longrightarrow> snd ` set m \<subseteq> set (gnodes (hgraph h g))"
proof -
  have "chart_node h g n" using assms(1,2) by (simp add: flowchart_def list_all_iff)
  then show "ngraph (hnode h' n) = g"
    "ptr (hnode h n) = PStatic \<Longrightarrow> length (successors (hnode h n)) \<le> 1 \<and> set (successors (hnode h n)) \<subseteq> set (gnodes (hgraph h g))"
    "ptr (hnode h n) = PCondition m \<Longrightarrow> snd ` set m \<subseteq> set (gnodes (hgraph h g))"
    using assms(3) by (simp_all add: chart_node_def shape_kept_def frame_def)
qed

lemma fits_node: "fits h g c \<Longrightarrow> cnode c \<in> set (gnodes (hgraph h g))"
  by (cases c) auto

text \<open>What is known of a state and of the goroutine that moves.\<close>

lemma chart_at:
  assumes "chart_inv h g s" "i < length (threads s)"
  shows "chart_pc h g (threads s ! i)" "nexts h g (threads s ! i) \<subseteq> set (gnodes (hgraph h g))"
    "shape_kept h (heap s)" "\<forall>c \<in> set (pool_items (epool s)). fits h g c" "set (items (wq s)) \<subseteq> set (gnodes (hgraph h g))"
    "cnode ` set (pool_items (epool s)) \<subseteq> set (gnodes (hgraph h g))"
  using assms(1) nth_mem [OF assms(2)] unfolding chart_inv_def all_nexts_def by blast+

lemma fits_successors:
  assumes "flowchart h g" "fits h g c" "\<not> is_condition c"
  shows "length (successors (hnode h (cnode c))) \<le> 1" "set (successors (hnode h (cnode c))) \<subseteq> set (gnodes (hgraph h g))"
proof -
  have "ptr (hnode h (cnode c)) = PStatic" using assms(2,3) by (cases c) auto
  with chart_nodes(2) [OF assms(1) fits_node [OF assms(2)] kept_refl] show
    "length (successors (hnode h (cnode c))) \<le> 1" "set (successors (hnode h (cnode c))) \<subseteq> set (gnodes (hgraph h g))"
    by simp_all
qed

lemma fits_closure: "make_closure h n sp = Some c \<Longrightarrow> flowchart h g \<Longrightarrow> n \<in> set (gnodes (hgraph h g)) \<Longrightarrow> fits h g c \<and> cnode c = n"
  by (auto simp: make_closure_def flowchart_def list_all_iff chart_node_def split: node_ptr.splits)

lemma after_schedule_chart [simp]:
  assumes "sk_ok h g k"
  shows "chart_pc h g (after_schedule k)" "nexts h g (after_schedule k) = {}" "tokens (after_schedule k) = sk_runs k"
    "\<not> is_handle (after_schedule k)"
  using assms by (cases k; simp)+

text \<open>The scheduling of nodes.\<close>

lemma schedule_passes:
  assumes f: "flowchart h g" and c: "chart_inv h g s" and a: "accounts s" and i: "i < length (threads s)"
    and p: "threads s ! i = Schedule ns k \<or> threads s ! i = PRef n ns k \<or> threads s ! i = PPut n ns k"
    and st: "pc_step s i (threads s ! i) ch now = Some t"
  shows "\<exists>p'. passes h g s i p' [] (nexts h g (threads s ! i)) t \<and> \<not> is_handle p'"
proof -
  note P = chart_at [OF c i]
  have q: "queue_inv (wq s)" using a by (simp add: accounts_def)
  have G: "graph_of s m = g" if "m \<in> nexts h g (threads s ! i)" for m
    using chart_nodes(1) [OF f _ P(3), of m] P(2) that by (auto simp: graph_of_def)
  note I = passesI [where i = i and t = t and s = s and g = g and ps = "[]" and h = h and es = "[]"]
  from p consider "threads s ! i = Schedule [] k" | m ms where "threads s ! i = Schedule (m # ms) k"
    | "threads s ! i = PRef n ns k" | "threads s ! i = PPut n ns k"
    by (cases ns) auto
  then show ?thesis
  proof cases
    case 1
    with P st show ?thesis
      by (intro exI [of _ "after_schedule k"] conjI I [where w = False]) (auto simp: is_canceled_def)
  next
    case (2 m ms)
    then have g: "graph_of s m = g" using G by simp
    show ?thesis
    proof (cases "is_canceled s g")
      case True
      with 2 P st g show ?thesis
        by (intro exI [of _ "after_schedule k"] conjI I [where w = True]) (auto simp: is_canceled_def split: if_splits)
    next
      case False
      with 2 P st g show ?thesis
        by (intro exI [of _ "PRef m ms k"] conjI I [where w = False]) (auto simp: is_canceled_def)
    qed
  next
    case 3
    with P st G show ?thesis
      by (intro exI [of _ "PPut n ns k"] conjI I [where w = False]) (auto simp: pref_step_def is_canceled_def split: if_splits)
  next
    case 4
    then have "t = goto i (Schedule ns k) (do_signal g (s\<lparr>wq := Put n (wq s)\<rparr>))"
      using st G [of n] by (auto simp: pput_step_def split: if_splits)
    with 4 P show ?thesis
      by (intro exI [of _ "Schedule ns k"] conjI I [where w = True and q = "items (wq s) @ [n]"])
        (auto simp: rq.list_put [OF q] is_canceled_def)
  qed
qed

text \<open>The client and the loop.\<close>

lemma loop_passes:
  assumes f: "flowchart h g" and d: "distinct (gnodes (hgraph h g))" and c: "chart_inv h g s" and a: "accounts s"
    and i: "i < length (threads s)" and st: "pc_step s i (threads s ! i) ch now = Some t"
    and p: "(\<exists>cs. threads s ! i = Client cs) \<or> (\<exists>g' k. threads s ! i \<in> {GSetup g' k, LCheck g' k, LPop g' k, LLeave g' k}) \<or>
      (\<exists>n g' k. threads s ! i = LInvoke n g' k)"
  shows "\<exists>p'. passes h g s i p' [] (nexts h g (threads s ! i)) t \<and> \<not> is_handle p'"
proof -
  note P = chart_at [OF c i]
  have q: "queue_inv (wq s)" and po: "pool_ok (epool s)" using a by (simp_all add: accounts_def)
  note I = passesI [where i = i and t = t and s = s and g = g and ps = "[]" and h = h and es = "[]"]
  have E: "set (chart_entries h g) \<subseteq> set (gnodes (hgraph h g))" "length (chart_entries h g) \<le> 1"
    using f by (auto simp: chart_entries_def flowchart_def)
  from p consider tf cs where "threads s ! i = Client (Run tf # cs)" | cs where "threads s ! i = Client (Wait # cs)"
    | "threads s ! i = Client []" | g' k where "threads s ! i = GSetup g' k" | g' k where "threads s ! i = LCheck g' k"
    | g' k where "threads s ! i = LPop g' k" | g' k where "threads s ! i = LLeave g' k"
    | n g' k where "threads s ! i = LInvoke n g' k"
  proof -
    have "cs = [] \<or> (\<exists>tf us. cs = Run tf # us) \<or> (\<exists>us. cs = Wait # us)" for cs :: "call list"
      by (metis call.exhaust list.exhaust)
    with p that show thesis by (elim disjE exE insertE emptyE) metis+
  qed
  then show ?thesis
  proof cases
    case (1 tf cs)
    moreover have "graph (hflow (heap s) tf) = g" using P(1,3) 1 by (simp add: shape_kept_def)
    ultimately show ?thesis
      using P st E
      by (intro exI [of _ "GSetup g (GMain cs)"] conjI I [where w = False]) (auto simp: is_canceled_def shape_kept_def frame_def)
  next
    case (2 cs)
    with P st show ?thesis
      by (intro exI [of _ "Client cs"] conjI I [where w = False]) (auto simp: is_canceled_def split: if_splits)
  next
    case 3
    with st show ?thesis by simp
  next
    case (4 g' k)
    then have k: "g' = g" "gk_ok h g k" using P(1) by simp_all
    from 4 st k obtain es where es: "ch = Sorted es" "is_sort (graph_setup g (heap s)) (chart_entries h g) es"
      and t: "t = goto i (Schedule es (KLoop g k)) (s\<lparr>heap := upd_graph g (\<lambda>x. x\<lparr>entries := es\<rparr>) (graph_setup g (heap s))\<rparr>)"
      by (auto simp: gsetup_step_def Let_def kept_setup(2) [OF P(3) d] split: choice.splits if_splits)
    have "set es = set (chart_entries h g)" "length es = length (chart_entries h g)"
      using es(2) mset_eq_setD mset_eq_length by (auto simp: is_sort_def)
    moreover have "shape_kept h (heap t)" using kept_setup(1) [OF P(3) d] t by (simp add: shape_kept_def frame_def)
    ultimately show ?thesis
      using 4 P k E t kept_setup(3) [OF P(3) d]
      by (intro exI [of _ "Schedule es (KLoop g k)"] conjI I [where w = False]) (auto simp: is_canceled_def)
  next
    case (5 g' k)
    then consider "t = goto i (LWait g k) s" | "t = goto i (LPop g k) s"
      using st P(1) by (auto simp: lcheck_step_def split: if_splits)
    then show ?thesis
    proof cases
      case 1
      with 5 P show ?thesis by (intro exI [of _ "LWait g k"] conjI I [where w = False]) (auto simp: is_canceled_def)
    next
      case 2
      with 5 P show ?thesis by (intro exI [of _ "LPop g k"] conjI I [where w = False]) (auto simp: is_canceled_def)
    qed
  next
    case (6 g' k)
    then consider "t = goto i (LLeave g k) s" | e where "t = goto i (Crashed e) s"
      | n q' where "Pop (wq s) = Inr (n, q')" "t = goto i (LInvoke n g k) (s\<lparr>wq := q'\<rparr>)"
      using st P(1) by (auto simp: lpop_step_def split: if_splits sum.splits)
    then show ?thesis
    proof cases
      case 1
      with 6 P show ?thesis by (intro exI [of _ "LLeave g k"] conjI I [where w = False]) (auto simp: is_canceled_def)
    next
      case (2 e)
      with 6 P show ?thesis by (intro exI [of _ "Crashed e"] conjI I [where w = False]) (auto simp: is_canceled_def)
    next
      case (3 n q')
      with 6 P rq.pop_Inr [OF q 3(1)] show ?thesis
        by (intro exI [of _ "LInvoke n g k"] conjI I [where w = False]) (auto simp: is_canceled_def)
    qed
  next
    case (7 g' k)
    then obtain cs where "k = GMain cs" using P(1) by (cases k) auto
    with 7 P st show ?thesis
      by (intro exI [of _ "Client cs"] conjI I [where w = True]) (auto simp: is_canceled_def)
  next
    case (8 n g' k)
    show ?thesis
    proof (cases "make_closure (heap s) n (kont_span k)")
      case None
      with 8 P st show ?thesis
        by (intro exI [of _ "Crashed (PanicMsg ''unsupported node'')"] conjI I [where w = False])
          (auto simp: is_canceled_def linvoke_step_def)
    next
      case (Some cl)
      obtain po' b where pb: "CtxGo cl (epool s) = (po', b)" by fastforce
      with cp.submit_queued [OF po, of cl] have po': "pool_items po' = pool_items (epool s) @ [cl]" by simp
      have "make_closure h n (kont_span k) = Some cl" using Some P(3) by (simp add: make_closure_def shape_kept_def frame_def)
      then have "fits h g cl \<and> cnode cl = n" using fits_closure f 8 P(2) by simp
      with Some 8 P st pb po' show ?thesis
        by (intro exI [of _ "LCheck g k"] conjI passesI [where w = False and ps = "if b then [WPoll] else []"
            and l = "pool_items (epool s) @ [cl]"])
          (auto simp: is_canceled_def linvoke_step_def)
    qed
  qed
qed

text \<open>A worker, but for the end of a function.\<close>

lemma worker_passes:
  assumes f: "flowchart h g" and c: "chart_inv h g s" and a: "accounts s"
    and i: "i < length (threads s)" and st: "pc_step s i (threads s ! i) ch now = Some t"
    and p: "threads s ! i = WPoll \<or> (\<exists>cl. threads s ! i \<in> {Deref cl, CSetup cl, Done cl}) \<or>
      (\<exists>cl sp ok. threads s ! i = Defer cl sp ok) \<or> (\<exists>cl vs. threads s ! i = Drop cl vs) \<or>
      (\<exists>cl vs cs. threads s ! i = Succs cl vs cs) \<or> (\<exists>cl cs. threads s ! i = NSetup cl cs)"
  shows "\<exists>p' es. passes h g s i p' es (nexts h g (threads s ! i)) t \<and> \<not> is_handle p' \<and> called es = []"
proof -
  note P = chart_at [OF c i]
  have po: "pool_ok (epool s)" using a by (simp add: accounts_def)
  note I = passesI [where i = i and t = t and s = s and g = g and ps = "[]" and h = h]
  have S: "successors (hnode (heap s) n) = successors (hnode h n)" for n using P(3) by (simp add: shape_kept_def frame_def)
  have G: "graph_of s (cnode cl) = g" if "fits h g cl" for cl
    using chart_nodes(1) [OF f fits_node [OF that] P(3)] by (simp add: graph_of_def)
  note Q = fits_successors [OF f]
  from p consider "threads s ! i = WPoll" | cl where "threads s ! i = Deref cl" | cl where "threads s ! i = CSetup cl"
    | cl where "threads s ! i = Done cl" | cl sp ok where "threads s ! i = Defer cl sp ok"
    | cl vs where "threads s ! i = Drop cl vs" | cl vs cs where "threads s ! i = Succs cl vs cs"
    | cl cs where "threads s ! i = NSetup cl cs"
    by blast
  then show ?thesis
  proof cases
    case 1
    obtain r' po' where rp: "worker_poll (epool s) = Inr (r', po')" using cp.poll_total [OF po] by blast
    show ?thesis
    proof (cases r')
      case None
      with 1 P st rp cp.poll_None [OF po rp [unfolded None]] show ?thesis
        by (intro exI [of _ WGone] exI [of _ "[]"] conjI I [where w = False])
          (auto simp: wpoll_step_def is_canceled_def)
    next
      case (Some cl)
      with 1 P st rp cp.poll_Some [OF po rp [unfolded Some]] show ?thesis
        by (intro exI [of _ "Body cl"] exI [of _ "[]"] conjI I [where w = False and l = "pool_items po'"])
          (auto simp: wpoll_step_def is_canceled_def)
    qed
  next
    case (2 cl)
    then have "t = goto i (if is_condition cl then CSetup cl else Done cl) (do_signal g (on_heap (graph_deref g) s))"
      using st P(1) G [of cl] by (auto simp: deref_step_def split: if_splits)
    with 2 P show ?thesis
      by (intro exI [of _ "if is_condition cl then CSetup cl else Done cl"] exI [of _ "[]"] conjI I [where w = True])
        (auto simp: is_canceled_def)
  next
    case (3 cl)
    with P st show ?thesis
      by (intro exI [of _ "Done cl"] exI [of _ "[]"] conjI I [where w = False]) (auto simp: csetup_step_def is_canceled_def)
  next
    case (4 cl)
    have "\<not> wg s - 1 < 0" using Done_accounts(2) [OF a i] 4 st by fastforce
    with st 4 obtain po' where
      t: "t = goto i WPoll (log [HEnd (cnode cl)] (s\<lparr>wg := wg s - 1, epool := po'\<rparr>))" "task_end False (epool s) = Some po'"
      by (auto simp: done_step_def split: option.splits)
    have l: "pool_items po' = pool_items (epool s)" using task_end_simps [OF t(2)] by simp
    with 4 P t(1) show ?thesis
      by (intro exI [of _ WPoll] exI [of _ "[HEnd (cnode cl)]"] conjI I [where w = False and l = "pool_items (epool s)"])
        (auto simp: is_canceled_def)
  next
    case (5 cl sp ok)
    have cl: "fits h g cl" using P(1) 5 by simp
    then have "t = goto i (Drop cl (successors (hnode h (cnode cl))))
        ((if ok then s else on_heap (graph_cancel g) s)\<lparr>obs := closeSpan sp ok now (obs s)\<rparr>)"
      using 5 st G [OF cl] S by (cases cl; cases ok) (auto simp: Let_def)
    with 5 P cl Q [OF cl] show ?thesis
      by (intro exI [of _ "Drop cl (successors (hnode h (cnode cl)))"] exI [of _ "[]"] conjI I [where w = False])
        (auto simp: is_canceled_def)
  next
    case (6 cl vs)
    have cl: "fits h g cl" using P(1) 6 by simp
    show ?thesis
    proof (cases vs)
      case Nil
      have "length (successors (hnode h (cnode cl))) \<le> Suc 0" if "\<not> is_condition cl" using Q(1) [OF cl that] by simp
      with 6 Nil P st cl S Q(2) [OF cl] show ?thesis
        by (intro exI [of _ "if is_condition cl then Deref cl else Succs cl (successors (hnode h (cnode cl))) []"] exI [of _ "[]"]
            conjI I [where w = False]) (auto simp: is_canceled_def)
    next
      case (Cons v us)
      with 6 P st show ?thesis
        by (intro exI [of _ "Drop cl us"] exI [of _ "[]"] conjI I [where w = False]) (auto simp: is_canceled_def split: if_splits)
    qed
  next
    case (7 cl vs cs)
    show ?thesis
    proof (cases vs)
      case Nil
      with 7 P st show ?thesis
        by (intro exI [of _ "NSetup cl cs"] exI [of _ "[]"] conjI I [where w = False and q = "items (wq s)"]) (auto simp: is_canceled_def)
    next
      case (Cons v us)
      let ?b = "node_recyclable (heap s) v \<and> nstate (hnode (heap s) v) = kNodeStateIdle"
      have "t = goto i (Succs cl us (if ?b then cs @ [v] else cs)) (if ?b then on_heap (set_state kNodeStateWaiting v) s else s)"
        using 7 Cons st by auto
      with 7 Cons P show ?thesis
        by (intro exI [of _ "Succs cl us (if ?b then cs @ [v] else cs)"] exI [of _ "[]"] conjI I [where w = False])
          (auto simp: is_canceled_def)
    qed
  next
    case (8 cl cs)
    then obtain es where "is_sort (heap s) cs es" and t: "t = goto i (Schedule es (KSucc cl)) (on_heap (node_setup (cnode cl)) s)"
      using st by (auto simp: nsetup_step_def split: choice.splits if_splits)
    then have es: "set es = set cs" "length es = length cs"
      using mset_eq_setD mset_eq_length by (auto simp: is_sort_def)
    with 8 P t show ?thesis
      by (intro exI [of _ "Schedule es (KSucc cl)"] exI [of _ "[]"] conjI I [where w = False and q = "items (wq s)"]) (auto simp: is_canceled_def)
  qed
qed

text \<open>The call of a function, and its end.\<close>

lemma body_passes:
  assumes f: "flowchart h g" and c: "chart_inv h g s"
    and i: "i < length (threads s)" and p: "threads s ! i = Body cl" and st: "pc_step s i (Body cl) ch now = Some t"
  shows "(\<exists>sp. passes h g s i (Defer cl sp True) [] (nexts h g (Body cl)) t) \<or>
    \<not> is_canceled s g \<and> (\<exists>sp. passes h g s i (Handle cl sp) [HCall (cnode cl)] {} t)"
proof -
  note P = chart_at [OF c i]
  have cl: "fits h g cl" using P(1) p by simp
  then have g: "graph_of s (cnode cl) = g" using chart_nodes(1) [OF f fits_node [OF cl] P(3)] by (simp add: graph_of_def)
  have ch: "calls_handle (heap s) cl" using cl by (cases cl) auto
  obtain sp ob where so: "openSpan (heap s) (cnode cl) (cparent cl) now (obs s) = (sp, ob)" by fastforce
  note I = passesI [where i = i and t = t and s = s and g = g and ps = "[]" and h = h and w = False]
  show ?thesis
  proof (cases "is_canceled s g")
    case True
    with st so g have t: "t = goto i (Defer cl sp True) (s\<lparr>obs := ob\<rparr>)" by (simp add: body_step_def Let_def)
    have "passes h g s i (Defer cl sp True) [] (nexts h g (Body cl)) t"
      using p P t True fits_successors [OF f cl] by (intro I) (auto simp: is_canceled_def)
    then show ?thesis by blast
  next
    case False
    with st so g ch have "t = goto i (Handle cl sp) (log [HCall (cnode cl)] (on_heap (set_state kNodeStateRunning (cnode cl)) (s\<lparr>obs := ob\<rparr>)))"
      by (simp add: body_step_def Let_def)
    with p P cl have "passes h g s i (Handle cl sp) [HCall (cnode cl)] {} t" by (intro I) (auto simp: is_canceled_def)
    with False show ?thesis by blast
  qed
qed

lemma map_of_range: "map_of m k = Some n \<Longrightarrow> n \<in> snd ` set m"
  by (force dest: map_of_SomeD)

lemma handle_passes:
  assumes f: "flowchart h g" and c: "chart_inv h g s"
    and i: "i < length (threads s)" and p: "threads s ! i = Handle cl sp" and st: "pc_step s i (Handle cl sp) ch now = Some t"
    and an: "answer F s (i, ch, now) v = Some v'"
  shows "\<exists>p' es l. passes h g s i p' es (set_option l) t \<and> \<not> is_handle p' \<and>
    chart_step h F (cnode cl) v = (cnode cl # called es, v', l)"
proof -
  note P = chart_at [OF c i]
  have cl: "fits h g cl" using P(1) p by simp
  obtain v1 r where F: "F (cnode cl) v = (v1, r)" by fastforce
  have S: "ptr (hnode (heap s) n) = ptr (hnode h n)" for n using P(3) by (simp add: shape_kept_def frame_def)
  note I = passesI [where i = i and t = t and s = s and g = g and ps = "[]" and h = h and w = False]
  show ?thesis
  proof (cases cl)
    case (StaticC n q)
    have n: "ptr (hnode h n) = PStatic" using cl StaticC by simp
    have suc: "set_option (first (successors (hnode h n))) = set (successors (hnode h n))"
      using fits_successors(1) [OF f cl] StaticC by (cases "successors (hnode h n)") auto
    from st StaticC consider "ch = Return" | "ch = Panic" by (cases ch) auto
    then show ?thesis
    proof cases
      case 1
      have "chart_step h F n v = ([n], v', first (successors (hnode h n)))"
        using 1 an p F StaticC n by (auto simp: chart_step_def split: outcome.splits if_splits)
      moreover have "passes h g s i (Defer cl sp True) [HRet n] (set (successors (hnode h n))) t"
        using 1 p P st StaticC fits_successors [OF f cl] by (intro I) (auto simp: is_canceled_def)
      ultimately show ?thesis
        using StaticC suc by (intro exI [of _ "Defer cl sp True"] exI [of _ "[HRet n]"] exI [of _ "first (successors (hnode h n))"]) simp
    next
      case 2
      have "chart_step h F n v = ([n], v', None)"
        using 2 an p F StaticC n by (auto simp: chart_step_def split: outcome.splits if_splits)
      moreover have "passes h g s i (Defer cl sp False) [HPanic n] {} t"
        using 2 p P st StaticC by (intro I) (auto simp: is_canceled_def)
      ultimately show ?thesis
        using StaticC by (intro exI [of _ "Defer cl sp False"] exI [of _ "[HPanic n]"] exI [of _ None]) simp
    qed
  next
    case (ConditionC n q)
    then obtain m where n: "n \<in> set (gnodes (hgraph h g))" "ptr (hnode h n) = PCondition m" using cl by auto
    from st ConditionC consider k where "ch = Choose k" | "ch = Panic" by (cases ch) auto
    then show ?thesis
    proof cases
      case (1 k)
      then have r: "r = Chooses k" using an p F ConditionC by (auto split: outcome.splits if_splits)
      consider "k > of_nat (length m)" | t' where "\<not> k > of_nat (length m)" "map_of m k = Some t'"
        | "\<not> k > of_nat (length m)" "map_of m k = None" by fastforce
      then show ?thesis
      proof cases
        case over: 1
        have "chart_step h F n v = ([n, n], v', None)"
          using 1 over an p F r ConditionC n S by (auto simp: chart_step_def)
        moreover have "passes h g s i (Defer cl sp False) [HRet n, HCall n, HPanic n] {} t"
          using 1 over p P st ConditionC n S by (intro I) (auto simp: is_canceled_def)
        ultimately show ?thesis
          using ConditionC by (intro exI [of _ "Defer cl sp False"] exI [of _ "[HRet n, HCall n, HPanic n]"] exI [of _ None]) simp
      next
        case branch: (2 t')
        have t': "t' \<in> set (gnodes (hgraph h g))"
          using chart_nodes(3) [OF f n(1) kept_refl n(2)] map_of_range [OF branch(2)] by blast
        have "chart_step h F n v = ([n], v', Some t')"
          using 1 branch an p F r ConditionC n S by (auto simp: chart_step_def)
        moreover have "passes h g s i (Schedule [t'] (KCond cl sp)) [HRet n] {t'} t"
          using 1 branch p P st ConditionC n S t' by (intro I) (auto simp: is_canceled_def Let_def)
        ultimately show ?thesis
          using ConditionC by (intro exI [of _ "Schedule [t'] (KCond cl sp)"] exI [of _ "[HRet n]"] exI [of _ "Some t'"]) simp
      next
        case missing: 3
        have "chart_step h F n v = ([n], v', None)"
          using 1 missing an p F r ConditionC n S by (auto simp: chart_step_def)
        moreover have "passes h g s i (Defer cl sp False) [HRet n, HPanic n] {} t"
          using 1 missing p P st ConditionC n S by (intro I) (auto simp: is_canceled_def Let_def)
        ultimately show ?thesis
          using ConditionC by (intro exI [of _ "Defer cl sp False"] exI [of _ "[HRet n, HPanic n]"] exI [of _ None]) simp
      qed
    next
      case 2
      have "chart_step h F n v = ([n], v', None)"
        using 2 an p F ConditionC n by (auto simp: chart_step_def split: outcome.splits if_splits)
      moreover have "passes h g s i (Defer cl sp False) [HPanic n] {} t"
        using 2 p P st ConditionC by (intro I) (auto simp: is_canceled_def)
      ultimately show ?thesis
        using ConditionC by (intro exI [of _ "Defer cl sp False"] exI [of _ "[HPanic n]"] exI [of _ None]) simp
    qed
  qed (use cl in simp)
qed

section \<open>The executor follows the interpreter\<close>

lemma goes_pcs:
  assumes "goes g s i p' w t" "i < length (threads s)" "p \<in> set (threads t)"
  shows "p = p' \<or> p \<in> set (threads s) \<or> (\<exists>k. p = LCheck g k \<and> LWait g k \<in> set (threads s)) \<or> p = WPoll"
proof -
  from assms(3) obtain j where j: "j < length (threads t)" "p = threads t ! j" by (auto simp: in_set_conv_nth)
  show ?thesis
  proof (cases "j = i")
    case True
    with j goes_at [OF assms(1,2)] show ?thesis by simp
  next
    case False
    from goes_other [OF assms(1) j(1) False] j show ?thesis by (auto simp: in_set_conv_nth)
  qed
qed

lemma goes_keep:
  assumes "goes g s i p' w t" "i < length (threads s)" "Handle cl sp \<in> set (threads s)" "threads s ! i \<noteq> Handle cl sp"
  shows "Handle cl sp \<in> set (threads t)"
proof -
  obtain j where j: "j < length (threads s)" "threads s ! j = Handle cl sp" using assms(3) by (auto simp: in_set_conv_nth)
  then have "j \<noteq> i" using assms(4) by auto
  moreover have "j < length (threads t)" using goes_length [OF assms(1)] j(1) by simp
  ultimately have "threads t ! j = Handle cl sp" using goes_other [OF assms(1), of j] j by auto
  then show ?thesis using \<open>j < length (threads t)\<close> nth_mem by fastforce
qed

lemma mem_index: "p \<in> set ps \<Longrightarrow> \<exists>j. j < length ps \<and> p = ps ! j"
  unfolding in_set_conv_nth by blast

lemma is_handle_iff: "is_handle p \<longleftrightarrow> (\<exists>cl sp. p = Handle cl sp)"
  by (cases p) auto

lemma is_handle_tokens: "is_handle p \<Longrightarrow> tokens p = 1"
  by (cases p) auto

lemma tokens_nexts:
  assumes "flowchart h g" "chart_pc h g p" "tokens p = 0"
  shows "nexts h g p = {}"
  using assms by (cases p) (auto split: if_splits)

lemma passes_inv:
  assumes c: "chart_inv h g s" and i: "i < length (threads s)" and p: "passes h g s i p' es X t"
  shows "chart_inv h g t" "all_nexts h g t \<subseteq> nexts h g p' \<union> set (items (wq t)) \<union> cnode ` set (pool_items (epool t)) \<union>
      (\<Union>q \<in> set (threads s). nexts h g q)"
proof -
  obtain w where go: "goes g s i p' w t" using p by (auto simp: passes_def)
  show n: "all_nexts h g t \<subseteq> nexts h g p' \<union> set (items (wq t)) \<union> cnode ` set (pool_items (epool t)) \<union>
      (\<Union>q \<in> set (threads s). nexts h g q)"
  proof -
    have "nexts h g q \<subseteq> nexts h g p' \<union> (\<Union>q \<in> set (threads s). nexts h g q)" if "q \<in> set (threads t)" for q
      using goes_pcs [OF go i that] by auto
    then show ?thesis unfolding all_nexts_def by blast
  qed
  have "all_tokens t \<le> 1"
  proof -
    have "total tokens t + tokens (threads s ! i) = total tokens s + tokens p'" by (rule goes_total [OF go i]) simp
    with c p show ?thesis by (simp add: chart_inv_def all_tokens_def passes_def)
  qed
  moreover have "chart_pc h g q" if "q \<in> set (threads t)" for q
  proof -
    have "chart_pc h g (LWait g' k) = chart_pc h g (LCheck g' k)" for g' k by simp
    then show ?thesis using goes_pcs [OF go i that] c p unfolding chart_inv_def passes_def by (metis chart_pc.simps(20))
  qed
  moreover have "all_nexts h g t \<subseteq> set (gnodes (hgraph h g))"
  proof (rule subset_trans [OF n])
    have "(\<Union>q \<in> set (threads s). nexts h g q) \<subseteq> set (gnodes (hgraph h g))"
      using c unfolding chart_inv_def all_nexts_def by blast
    with p show "nexts h g p' \<union> set (items (wq t)) \<union> cnode ` set (pool_items (epool t)) \<union>
        (\<Union>q \<in> set (threads s). nexts h g q) \<subseteq> set (gnodes (hgraph h g))"
      unfolding passes_def by blast
  qed
  ultimately show "chart_inv h g t" using p by (simp add: chart_inv_def passes_def)
qed

lemma passes_nexts:
  "passes h g s i p' es X t \<Longrightarrow> \<not> is_canceled t g \<Longrightarrow>
   nexts h g p' \<union> set (items (wq t)) \<union> cnode ` set (pool_items (epool t)) \<subseteq>
     X \<union> set (items (wq s)) \<union> cnode ` set (pool_items (epool s))"
  unfolding passes_def by blast

text \<open>A goroutine that holds the token is the only one.\<close>

lemma token_alone:
  assumes f: "flowchart h g" and c: "chart_inv h g s" and i: "i < length (threads s)" and t: "tokens (threads s ! i) = 1"
  shows "items (wq s) = []" "pool_items (epool s) = []" "j < length (threads s) \<Longrightarrow> j \<noteq> i \<Longrightarrow> tokens (threads s ! j) = 0"
    "all_nexts h g s = nexts h g (threads s ! i)"
proof -
  have T: "total tokens s + length (items (wq s)) + length (pool_items (epool s)) \<le> 1"
    using c by (simp add: chart_inv_def all_tokens_def)
  have z: "total tokens s = 1"
    using T sum_list_nth_le [OF i, of tokens] t by (simp add: total_def)
  with T have "length (items (wq s)) = 0" "length (pool_items (epool s)) = 0" by linarith+
  then show e: "items (wq s) = []" "pool_items (epool s) = []" by (metis length_0_conv)+
  show o: "tokens (threads s ! j) = 0" if "j < length (threads s)" "j \<noteq> i" for j
  proof -
    have "sum_list (map tokens ((threads s)[i := WPoll])) = 0"
      using sum_list_update [OF i, of tokens WPoll] z t by (simp add: total_def)
    moreover have "tokens (threads s ! j) \<le> sum_list (map tokens ((threads s)[i := WPoll]))"
      using sum_list_nth_le [of j "(threads s)[i := WPoll]" tokens] that by simp
    ultimately show ?thesis by linarith
  qed
  have "nexts h g q \<subseteq> nexts h g (threads s ! i)" if q: "q \<in> set (threads s)" for q
  proof -
    obtain j where j: "j < length (threads s)" "q = threads s ! j" using mem_index [OF q] by blast
    show ?thesis
    proof (cases "j = i")
      case False
      with o [OF j(1)] j chart_at(1) [OF c j(1)] tokens_nexts [OF f] show ?thesis by simp
    qed (use j in simp)
  qed
  then have "(\<Union>q \<in> set (threads s). nexts h g q) = nexts h g (threads s ! i)"
    using UN_upper [OF nth_mem [OF i], of "nexts h g"] by blast
  then show "all_nexts h g s = nexts h g (threads s ! i)" by (simp add: all_nexts_def e)
qed

lemma at_quiet:
  assumes i: "i < length (threads s)" and p: "passes h g s i p' es (nexts h g (threads s ! i)) t"
    and c: "chart_inv h g s" and h: "\<not> is_handle (threads s ! i)" "\<not> is_handle p'" "called es = []" and a: "at h g s l ns"
  shows "at h g t l ns"
proof -
  obtain w where go: "goes g s i p' w t" using p by (auto simp: passes_def)
  have H: "Handle cl sp \<in> set (threads t) \<longleftrightarrow> Handle cl sp \<in> set (threads s)" for cl sp
  proof -
    have "threads s ! i \<noteq> Handle cl sp" "p' \<noteq> Handle cl sp" using h(1,2) by auto
    then show ?thesis using goes_pcs [OF go i, of "Handle cl sp"] goes_keep [OF go i, of cl sp] by blast
  qed
  have hs: "called (hist t) = called (hist s)" using p h(3) by (simp add: passes_def)
  have ex: "list_ex is_handle ps = (\<exists>cl sp. Handle cl sp \<in> set ps)" for ps
    by (auto simp: list_ex_iff is_handle_iff)
  have "is_canceled t g \<or> all_nexts h g t \<subseteq> all_nexts h g s"
  proof (cases "is_canceled t g")
    case False
    have "nexts h g (threads s ! i) \<subseteq> all_nexts h g s" using nth_mem [OF i] unfolding all_nexts_def by blast
    moreover have "(\<Union>q \<in> set (threads s). nexts h g q) \<subseteq> all_nexts h g s" "set (items (wq s)) \<subseteq> all_nexts h g s"
      "cnode ` set (pool_items (epool s)) \<subseteq> all_nexts h g s" unfolding all_nexts_def by blast+
    ultimately have "nexts h g p' \<union> set (items (wq t)) \<union> cnode ` set (pool_items (epool t)) \<union>
        (\<Union>q \<in> set (threads s). nexts h g q) \<subseteq> all_nexts h g s"
      using passes_nexts [OF p False] by (meson Un_least subset_trans)
    with passes_inv(2) [OF c i p] show ?thesis by (meson subset_trans)
  qed simp
  moreover have "is_canceled s g \<longrightarrow> is_canceled t g" using p by (simp add: passes_def)
  ultimately have "is_canceled t g \<or> (\<forall>n \<in> all_nexts h g t. l = Some n)" using a unfolding at_def by blast
  with a hs show ?thesis unfolding at_def ex by (simp add: H)
qed

lemma at_call:
  assumes f: "flowchart h g" and i: "i < length (threads s)" and pc: "threads s ! i = Body cl" and c: "chart_inv h g s"
    and p: "passes h g s i (Handle cl sp) [HCall (cnode cl)] X t" and nc: "\<not> is_canceled s g" and a: "at h g s l ns"
  shows "at h g t l ns"
proof -
  obtain w where go: "goes g s i (Handle cl sp) w t" using p by (auto simp: passes_def)
  have "tokens (threads s ! i) = 1" by (simp add: pc)
  note al = token_alone [OF f c i this]
  have it: "i < length (threads t)" using goes_length [OF go] i by simp
  have "tokens (threads t ! i) = 1" using goes_at [OF go i] by simp
  note al' = token_alone [OF f passes_inv(1) [OF c i p] it this]
  have l: "l = Some (cnode cl)" using a nc nth_mem [OF i] pc unfolding at_def all_nexts_def by fastforce
  have "\<not> list_ex is_handle (threads s)"
  proof
    assume "list_ex is_handle (threads s)"
    then obtain j where "j < length (threads s)" "is_handle (threads s ! j)" by (auto simp: list_ex_length)
    with al(3) [of j] pc is_handle_tokens show False by (cases "j = i") fastforce+
  qed
  then have cs: "called (hist s) = ns" using a by (simp add: at_def)
  have only: "cl' = cl" if mem: "Handle cl' sp' \<in> set (threads t)" for cl' sp'
  proof -
    obtain j where j: "j < length (threads t)" "Handle cl' sp' = threads t ! j" using mem_index [OF mem] by blast
    then have "tokens (threads t ! j) = 1" by (metis tokens.simps(12))
    with al'(3) [of j] j(1) have "j = i" by fastforce
    with j goes_at [OF go i] show ?thesis by simp
  qed
  have "Handle cl sp \<in> set (threads t)" using goes_at [OF go i] nth_mem [OF it] by simp
  then have "list_ex is_handle (threads t)" unfolding list_ex_iff by (rule bexI [rotated]) simp
  moreover have "all_nexts h g t = {}" using al'(4) goes_at [OF go i] by simp
  moreover have "called (hist t) = ns @ [cnode cl]" using p cs by (simp add: passes_def)
  ultimately show ?thesis using only l unfolding at_def by auto
qed

lemma at_answer:
  assumes f: "flowchart h g" and i: "i < length (threads s)" and pc: "threads s ! i = Handle cl sp" and c: "chart_inv h g s"
    and p: "passes h g s i p' es (set_option l') t" and h: "\<not> is_handle p'" and a: "at h g s l ns"
  shows "l = Some (cnode cl)" "at h g t l' (ns @ cnode cl # called es)"
proof -
  obtain w where go: "goes g s i p' w t" using p by (auto simp: passes_def)
  have "tokens (threads s ! i) = 1" by (simp add: pc)
  note al = token_alone [OF f c i this]
  have mem: "Handle cl sp \<in> set (threads s)" using nth_mem [OF i] pc by simp
  with a show "l = Some (cnode cl)" unfolding at_def by blast
  from a mem have cs: "called (hist s) = ns @ [cnode cl]" unfolding at_def by blast
  have it: "i < length (threads t)" using goes_length [OF go] i by simp
  have none: "\<not> is_handle (threads t ! j)" if j: "j < length (threads t)" for j
  proof (cases "j = i")
    case True
    with goes_at [OF go i] h show ?thesis by simp
  next
    case False
    from goes_other [OF go j False] al(3) [of j] False show ?thesis using is_handle_tokens [of "threads s ! j"] by auto
  qed
  then have "\<not> list_ex is_handle (threads t)" by (auto simp: list_ex_length)
  moreover from this have "\<And>cl sp. Handle cl sp \<notin> set (threads t)" by (auto simp: list_ex_iff is_handle_iff)
  moreover have "called (hist t) = ns @ cnode cl # called es" using p cs by (simp add: passes_def)
  moreover have "is_canceled t g \<or> all_nexts h g t \<subseteq> set_option l'"
  proof (cases "is_canceled t g")
    case False
    have "(\<Union>q \<in> set (threads s). nexts h g q) = {}"
      using al(4) pc unfolding all_nexts_def by auto
    moreover have "nexts h g p' \<union> set (items (wq t)) \<union> cnode ` set (pool_items (epool t)) \<subseteq> set_option l'"
      using passes_nexts [OF p False] by (simp add: al(1,2))
    ultimately have "nexts h g p' \<union> set (items (wq t)) \<union> cnode ` set (pool_items (epool t)) \<union>
        (\<Union>q \<in> set (threads s). nexts h g q) \<subseteq> set_option l'" by (simp only: Un_empty_right)
    with passes_inv(2) [OF c i p] have "all_nexts h g t \<subseteq> set_option l'" by (rule subset_trans)
    then show ?thesis ..
  qed simp
  moreover have "l' = Some n" if "n \<in> set_option l'" for n using that by (cases l') auto
  ultimately show "at h g t l' (ns @ cnode cl # called es)" unfolding at_def by auto
qed

definition starts_chart :: "heap \<Rightarrow> gid \<Rightarrow> sys \<Rightarrow> bool" where
  "starts_chart h g s \<longleftrightarrow> flowchart h g \<and> distinct (gnodes (hgraph h g)) \<and>
     (\<exists>c opts now tf. graph (hflow h tf) = g \<and> NewExecutor c opts now h [[Run tf, Wait]] = Inr s)"

lemma start_at:
  assumes "starts_chart h g s"
  shows "chart_inv h g s" "at h g s (first (chart_entries h g)) []" "fresh_executor s"
proof -
  obtain c opts now tf where g: "graph (hflow h tf) = g" and s: "NewExecutor c opts now h [[Run tf, Wait]] = Inr s"
    using assms by (auto simp: starts_chart_def)
  then have t: "threads s = [Client [Run tf, Wait]]" "heap s = h" "items (wq s) = []" "pool_items (epool s) = []" "hist s = []"
    by (auto simp: NewExecutor_def NewCopool_def comp_def NewQueue_inv split: if_splits)
  have "length (chart_entries h g) \<le> 1" using assms by (simp add: starts_chart_def flowchart_def)
  then have "n \<in> set (chart_entries h g) \<Longrightarrow> first (chart_entries h g) = Some n" for n
    by (cases "chart_entries h g") auto
  moreover have "set (chart_entries h g) \<subseteq> set (gnodes (hgraph h g))" by (auto simp: chart_entries_def)
  ultimately show "chart_inv h g s" "at h g s (first (chart_entries h g)) []"
    using t g by (auto simp: chart_inv_def at_def all_nexts_def all_tokens_def total_def)
  show "fresh_executor s" unfolding fresh_executor_def using s by blast
qed

text \<open>One step of the executor: the interpreter stays or makes one call.\<close>

lemma chart_simulation:
  assumes f: "flowchart h g" and d: "distinct (gnodes (hgraph h g))" and ac: "accounts s" and c: "chart_inv h g s"
    and a: "at h g s l ns" and st: "step s (i, ch, now) = Some t" and an: "answer F s (i, ch, now) v = Some v'"
  shows "chart_inv h g t \<and> (at h g t l ns \<and> v' = v \<or>
    (\<exists>n ms l'. l = Some n \<and> chart_step h F n v = (ms, v', l') \<and> at h g t l' (ns @ ms)))"
proof -
  have i: "i < length (threads s)" and p: "pc_step s i (threads s ! i) ch now = Some t"
    using st by (auto split: if_splits)
  show ?thesis
  proof (cases "is_handle (threads s ! i)")
    case True
    then obtain cl sp where pc: "threads s ! i = Handle cl sp" by (auto simp: is_handle_iff)
    obtain p' es l' where q: "passes h g s i p' es (set_option l') t" "\<not> is_handle p'"
      "chart_step h F (cnode cl) v = (cnode cl # called es, v', l')"
      using handle_passes [OF f c i pc p [unfolded pc] an] by blast
    from at_answer [OF f i pc c q(1,2) a] q(3) passes_inv(1) [OF c i q(1)] show ?thesis by auto
  next
    case False
    then have v: "v' = v" using an by (cases "threads s ! i") auto
    show ?thesis
    proof (cases "\<exists>cl. threads s ! i = Body cl")
      case True
      then obtain cl where pc: "threads s ! i = Body cl" ..
      from body_passes [OF f c i pc p [unfolded pc]] show ?thesis
      proof (elim disjE exE conjE)
        fix sp
        assume q: "passes h g s i (Defer cl sp True) [] (nexts h g (Body cl)) t"
        from at_quiet [OF i q [folded pc] c _ _ _ a] passes_inv(1) [OF c i q] pc v show ?thesis by simp
      next
        fix sp
        assume nc: "\<not> is_canceled s g" and q: "passes h g s i (Handle cl sp) [HCall (cnode cl)] {} t"
        from at_call [OF f i pc c q nc a] passes_inv(1) [OF c i q] v show ?thesis by simp
      qed
    next
      case nb: False
      have "\<exists>p' es. passes h g s i p' es (nexts h g (threads s ! i)) t \<and> \<not> is_handle p' \<and> called es = []"
      proof -
        consider (sched) "\<exists>n ns k. threads s ! i = Schedule ns k \<or> threads s ! i = PRef n ns k \<or> threads s ! i = PPut n ns k"
          | (loop) "(\<exists>cs. threads s ! i = Client cs) \<or> (\<exists>g' k. threads s ! i \<in> {GSetup g' k, LCheck g' k, LPop g' k, LLeave g' k}) \<or>
              (\<exists>n g' k. threads s ! i = LInvoke n g' k)"
          | (work) "threads s ! i = WPoll \<or> (\<exists>cl. threads s ! i \<in> {Deref cl, CSetup cl, Done cl}) \<or>
              (\<exists>cl sp ok. threads s ! i = Defer cl sp ok) \<or> (\<exists>cl vs. threads s ! i = Drop cl vs) \<or>
              (\<exists>cl vs cs. threads s ! i = Succs cl vs cs) \<or> (\<exists>cl cs. threads s ! i = NSetup cl cs)"
          using p nb False by (cases "threads s ! i") auto
        then show ?thesis
        proof cases
          case sched
          then obtain n ns k where "threads s ! i = Schedule ns k \<or> threads s ! i = PRef n ns k \<or> threads s ! i = PPut n ns k" by blast
          from schedule_passes [OF f c ac i this p] show ?thesis by (metis called.simps(1))
        next
          case loop
          from loop_passes [OF f d c ac i p loop] show ?thesis by (metis called.simps(1))
        next
          case work
          from worker_passes [OF f c ac i p work] show ?thesis .
        qed
      qed
      then obtain p' es where q: "passes h g s i p' es (nexts h g (threads s ! i)) t" "\<not> is_handle p'" "called es = []" by blast
      from at_quiet [OF i q(1) c False q(2,3) a] passes_inv(1) [OF c i q(1)] v show ?thesis by simp
    qed
  qed
qed

lemma follows_flowchart:
  assumes "starts_chart h g s0" "client_reach F s0 v0 s v"
  shows "\<exists>k l ns. chart_run h F k (chart_start h g v0) = (l, v, ns) \<and>
    (called (hist s) = ns \<or> (\<exists>n. l = Some n \<and> called (hist s) = ns @ [n]))"
proof -
  have fl: "flowchart h g" "distinct (gnodes (hgraph h g))" using assms(1) by (simp_all add: starts_chart_def)
  note st = start_at [OF assms(1)]
  have "chart_inv h g s \<and> (\<exists>k l ns. chart_run h F k (chart_start h g v0) = (l, v, ns) \<and> at h g s l ns)"
    using assms(2)
  proof (induction rule: client_reach.induct)
    case start
    then show ?case using st by (intro conjI exI [of _ 0] exI) (auto simp: chart_start_def)
  next
    case (step s v e t v')
    then obtain k l ns where IH: "chart_inv h g s" "chart_run h F k (chart_start h g v0) = (l, v, ns)" "at h g s l ns" by blast
    obtain i ch now where e: "e = (i, ch, now)" by (cases e)
    have "accounts s"
      using reach_accounts [OF client_reach_reach [OF step.hyps(1)] st(3)] crashed_stuck [of s e] step.hyps(2) by auto
    from chart_simulation [OF fl this IH(1,3) step.hyps(2,3) [unfolded e]] show ?case
    proof (elim conjE disjE exE)
      assume "chart_inv h g t" "at h g t l ns" "v' = v"
      with IH(2) show ?case by blast
    next
      fix n ms l'
      assume "chart_inv h g t" and q: "l = Some n" "chart_step h F n v = (ms, v', l')" "at h g t l' (ns @ ms)"
      moreover have "chart_run h F (Suc k) (chart_start h g v0) = (l', v', ns @ ms)"
        using chart_run_Suc [OF _ q(2)] IH(2) q(1) by blast
      ultimately show ?case by blast
    qed
  qed
  then obtain k l ns where r: "chart_run h F k (chart_start h g v0) = (l, v, ns)" "at h g s l ns" by blast
  have "called (hist s) = ns \<or> (\<exists>n. l = Some n \<and> called (hist s) = ns @ [n])"
  proof (cases "list_ex is_handle (threads s)")
    case True
    then obtain cl sp where "Handle cl sp \<in> set (threads s)" by (auto simp: list_ex_iff is_handle_iff)
    with r(2) show ?thesis unfolding at_def by blast
  next
    case False
    with r(2) show ?thesis by (simp add: at_def)
  qed
  with r(1) show ?thesis by blast
qed

text \<open>(C15) The executor refines the flowchart interpreter. For a flow with one entry whose tasks have at
  most one successor each and whose conditions choose the next task, loops allowed: whatever the number of
  workers and the interleaving, at every moment there is a number of steps of the sequential interpreter
  after which it has the variables of the run, and the functions called so far are those it has called, in
  its order, with at most the next one being executed. Panics and choices out of range are allowed.\<close>

theorem executor_follows_flowchart:
  assumes "starts_chart h g s0" "client_reach F s0 v0 s v"
  shows "\<exists>k l ns. chart_run h F k (chart_start h g v0) = (l, v, ns) \<and>
    (called (hist s) = ns \<or> (\<exists>n. l = Some n \<and> called (hist s) = ns @ [n]))"
  using assms by (rule follows_flowchart)

text \<open>A run of the retry loop of \<open>Scenarios\<close> whose functions count their calls.\<close>

fun client_exec :: "'v program \<Rightarrow> sys \<Rightarrow> 'v \<Rightarrow> event list \<Rightarrow> (sys \<times> 'v) option" where
  "client_exec F s v [] = Some (s, v)"
| "client_exec F s v (e # es) =
     (case (step s e, answer F s e v) of
        (Some t, Some v') \<Rightarrow> client_exec F t v' es
      | _ \<Rightarrow> None)"

lemma client_exec_reach: "client_exec F s v es = Some (t, w) \<Longrightarrow> client_reach F s0 v0 s v \<Longrightarrow> client_reach F s0 v0 t w"
proof (induction es arbitrary: s v)
  case (Cons e es)
  then show ?case by (auto split: option.splits intro: client_reach.step)
qed simp

definition count_calls :: "nat program" where
  "count_calls n k = (k + 1, if n = 3 then Chooses 0 else Returns)"

lemma retry_starts: "starts_chart retry_flow 1 (demo 2 retry_flow [Run 1, Wait])"
proof -
  have "flowchart retry_flow 1 \<and> distinct (gnodes (hgraph retry_flow 1)) \<and> graph (hflow retry_flow 1) = 1" by code_simp
  moreover have "NewExecutor 2 [] 0 retry_flow [[Run 1, Wait]] = Inr (demo 2 retry_flow [Run 1, Wait])"
    by (simp add: demo_def NewExecutor_def)
  ultimately show ?thesis unfolding starts_chart_def by blast
qed

lemma executor_follows_flowchart_witness:
  "\<exists>s. reach (demo 2 retry_flow [Run 1, Wait]) s \<and> called (hist s) = [1, 2, 3, 2] \<and>
    (\<exists>k l ns. chart_run retry_flow count_calls k (chart_start retry_flow 1 0) = (l, 4, ns) \<and>
      (called (hist s) = ns \<or> (\<exists>n. l = Some n \<and> called (hist s) = ns @ [n])))"
proof -
  have "map_option (\<lambda>(s, v). (called (hist s), v)) (client_exec count_calls (demo 2 retry_flow [Run 1, Wait]) 0 lost_retry_trace) =
    Some ([1, 2, 3, 2], 4)"
    by code_simp
  then obtain s where s: "client_exec count_calls (demo 2 retry_flow [Run 1, Wait]) 0 lost_retry_trace = Some (s, 4)"
    "called (hist s) = [1, 2, 3, 2]" by auto
  have r: "client_reach count_calls (demo 2 retry_flow [Run 1, Wait]) 0 s 4"
    by (rule client_exec_reach [OF s(1) client_reach.start])
  from executor_follows_flowchart [OF retry_starts r] client_reach_reach [OF r] s(2) show ?thesis by blast
qed

end
