(* ===== verification/Example_Crawl.thy ===== *)
theory Example_Crawl
  imports Flowchart "HOL-Library.Sublist"
begin

text \<open>
  The program \<open>examples/loop/loop.go\<close>, a crawler that retries: a loop through two conditions. Its flow
  (\<open>init\<close> is node 1, \<open>fetch_pages\<close> 2, \<open>parse\<close> 3, \<open>validate_quality\<close> 4, \<open>backoff\<close> 5, \<open>index\<close> 6, \<open>done\<close> 7),
  the functions of its tasks on the shared variables, and what a run of it computes.
\<close>

section \<open>The code\<close>

definition maxAttempts :: int where "maxAttempts = 5"

definition crawl_calls :: "build list" where
  "crawl_calls =
     [BTask ''init'' 0, BTask ''fetch_pages'' 0, BTask ''parse'' 0, BCondition ''validate_quality'' 0,
      BCondition ''backoff'' 0, BTask ''index'' 0, BTask ''done'' 0,
      BPrecede 1 [2], BPrecede 2 [3], BPrecede 3 [4], BPrecede 4 [6, 5], BPrecede 5 [2], BPrecede 6 [7]]"

definition crawl_flow :: heap where
  "crawl_flow = flow_heap ''crawl-pipeline'' crawl_calls"

text \<open>The package variables, and the number of milliseconds the program has asked to sleep.\<close>

record crawl =
  attempt :: int
  pageCount :: int
  qualityOK :: bool
  backoffMs :: int
  slept :: int

text \<open>\<open>rnd a\<close> is the value of \<open>rand.Intn(20)\<close> in attempt \<open>a\<close>.\<close>

definition init_task :: "crawl \<Rightarrow> crawl" where
  "init_task v = v\<lparr>attempt := 0, pageCount := 0, qualityOK := False, backoffMs := 100\<rparr>"

definition fetch_task :: "(int \<Rightarrow> int) \<Rightarrow> crawl \<Rightarrow> crawl" where
  "fetch_task rnd v =
     (let v = v\<lparr>attempt := attempt v + 1\<rparr>; pagesFetched = 10 + attempt v * 5 + rnd (attempt v)
      in v\<lparr>pageCount := pagesFetched, slept := slept v + backoffMs v\<rparr>)"

definition validate_task :: "crawl \<Rightarrow> crawl \<times> uint" where
  "validate_task v =
     (let threshold = 40
      in if pageCount v \<ge> threshold then (v\<lparr>qualityOK := True\<rparr>, 0)
         else if attempt v \<ge> maxAttempts then (v, 0)
         else (v, 1))"

definition backoff_task :: "crawl \<Rightarrow> crawl \<times> uint" where
  "backoff_task v = (v\<lparr>backoffMs := backoffMs v * 2\<rparr>, 0)"

text \<open>\<open>parse\<close>, \<open>index\<close> and \<open>done\<close> print only.\<close>

definition crawl_program :: "(int \<Rightarrow> int) \<Rightarrow> crawl program" where
  "crawl_program rnd n v =
     (if n = 1 then (init_task v, Returns)
      else if n = 2 then (fetch_task rnd v, Returns)
      else if n = 4 then (let (v', c) = validate_task v in (v', Chooses c))
      else if n = 5 then (let (v', c) = backoff_task v in (v', Chooses c))
      else (v, Returns))"

section \<open>The flowchart\<close>

lemma crawl_chart:
  "flowchart crawl_flow 1" "distinct (gnodes (hgraph crawl_flow 1))" "graph (hflow crawl_flow 1) = 1"
  "chart_entries crawl_flow 1 = [1]"
proof -
  have "flowchart crawl_flow 1 \<and> distinct (gnodes (hgraph crawl_flow 1)) \<and> graph (hflow crawl_flow 1) = 1 \<and>
    chart_entries crawl_flow 1 = [1]" by code_simp
  then show "flowchart crawl_flow 1" "distinct (gnodes (hgraph crawl_flow 1))" "graph (hflow crawl_flow 1) = 1"
    "chart_entries crawl_flow 1 = [1]" by blast+
qed

lemma crawl_nodes:
  "map (\<lambda>n. (ptr (hnode crawl_flow n), successors (hnode crawl_flow n))) [1, 2, 3, 4, 5, 6, 7] =
    [(PStatic, [2]), (PStatic, [3]), (PStatic, [4]), (PCondition [(0, 6), (1, 5)], [6, 5]), (PCondition [(0, 2)], [2]),
     (PStatic, [7]), (PStatic, [])]"
  by code_simp

lemma crawl_steps:
  "chart_step crawl_flow (crawl_program rnd) 1 v = ([1], init_task v, Some 2)"
  "chart_step crawl_flow (crawl_program rnd) 2 v = ([2], fetch_task rnd v, Some 3)"
  "chart_step crawl_flow (crawl_program rnd) 3 v = ([3], v, Some 4)"
  "chart_step crawl_flow (crawl_program rnd) 4 v =
     ([4], fst (validate_task v), Some (if snd (validate_task v) = 0 then 6 else 5))"
  "chart_step crawl_flow (crawl_program rnd) 5 v = ([5], fst (backoff_task v), Some 2)"
  "chart_step crawl_flow (crawl_program rnd) 6 v = ([6], v, Some 7)"
  "chart_step crawl_flow (crawl_program rnd) 7 v = ([7], v, None)"
  using crawl_nodes
  by (simp_all add: chart_step_def crawl_program_def validate_task_def backoff_task_def Let_def)

section \<open>A run\<close>

text \<open>The number of the first attempt that is good enough, or the last.\<close>

definition pages :: "(int \<Rightarrow> int) \<Rightarrow> nat \<Rightarrow> int" where
  "pages rnd a = 10 + int a * 5 + rnd (int a)"

definition enough :: "(int \<Rightarrow> int) \<Rightarrow> nat \<Rightarrow> bool" where
  "enough rnd a \<longleftrightarrow> pages rnd a \<ge> 40 \<or> a = 5"

definition attempts :: "(int \<Rightarrow> int) \<Rightarrow> nat" where
  "attempts rnd = hd (filter (enough rnd) [1, 2, 3, 4, 5])"

lemma attempts_spec:
  "0 < attempts rnd" "attempts rnd \<le> 5" "enough rnd (attempts rnd)" "0 < a \<Longrightarrow> a < attempts rnd \<Longrightarrow> \<not> enough rnd a"
proof -
  have e: "enough rnd 5" by (simp add: enough_def)
  then show A: "0 < attempts rnd" "attempts rnd \<le> 5" "enough rnd (attempts rnd)" by (simp_all add: attempts_def)
  show "\<not> enough rnd a" if "0 < a" "a < attempts rnd"
  proof -
    have "a = 1 \<or> a = 2 \<or> a = 3 \<or> a = 4" using that A(2) by linarith
    then show ?thesis using that(2) by (elim disjE) (simp_all add: attempts_def split: if_splits)
  qed
qed

text \<open>The calls of \<open>k\<close> rounds that fail, and of a whole run with \<open>a\<close> attempts.\<close>

definition retries :: "nat \<Rightarrow> nid list" where
  "retries k = 1 # concat (replicate k [2, 3, 4, 5])"

definition crawl_path :: "nat \<Rightarrow> nid list" where
  "crawl_path a = retries (a - 1) @ [2, 3, 4, 6, 7]"

lemma retries_Suc: "retries (Suc k) = retries k @ [2, 3, 4, 5]"
  unfolding retries_def replicate_Suc replicate_append_same [symmetric] by simp

lemma retries_prefix: "k < a \<Longrightarrow> prefix (retries k) (retries (a - 1))"
proof (induction a)
  case (Suc a)
  show ?case
  proof (cases "k < a")
    case True
    then obtain b where "a = Suc b" by (cases a) auto
    with Suc.IH [OF True] show ?thesis by (simp add: retries_Suc)
  next
    case False
    with Suc.prems show ?thesis by (simp add: not_less_less_Suc_eq)
  qed
qed simp

text \<open>The states of the interpreter: \<open>k\<close> rounds have failed.\<close>

definition fetched :: "(int \<Rightarrow> int) \<Rightarrow> crawl \<Rightarrow> nat \<Rightarrow> crawl \<Rightarrow> bool" where
  "fetched rnd v0 k v \<longleftrightarrow> k < attempts rnd \<and> attempt v = int (Suc k) \<and> pageCount v = pages rnd (Suc k) \<and>
     backoffMs v = 100 * 2 ^ k \<and> slept v = slept v0 + 100 * (2 ^ Suc k - 1)"

definition validated :: "(int \<Rightarrow> int) \<Rightarrow> crawl \<Rightarrow> crawl \<Rightarrow> bool" where
  "validated rnd v0 v \<longleftrightarrow> fetched rnd v0 (attempts rnd - 1) v \<and> qualityOK v = (pages rnd (attempts rnd) \<ge> 40)"

definition crawl_at :: "(int \<Rightarrow> int) \<Rightarrow> crawl \<Rightarrow> nid option \<Rightarrow> crawl \<Rightarrow> nid list \<Rightarrow> bool" where
  "crawl_at rnd v0 l v ns \<longleftrightarrow>
     l = Some 1 \<and> v = v0 \<and> ns = [] \<or>
     (\<exists>k. l = Some 2 \<and> ns = retries k \<and> k < attempts rnd \<and> attempt v = int k \<and> \<not> qualityOK v \<and>
        backoffMs v = 100 * 2 ^ k \<and> slept v = slept v0 + 100 * (2 ^ k - 1)) \<or>
     (\<exists>k. l = Some 3 \<and> ns = retries k @ [2] \<and> fetched rnd v0 k v \<and> \<not> qualityOK v) \<or>
     (\<exists>k. l = Some 4 \<and> ns = retries k @ [2, 3] \<and> fetched rnd v0 k v \<and> \<not> qualityOK v) \<or>
     (\<exists>k. l = Some 5 \<and> ns = retries k @ [2, 3, 4] \<and> fetched rnd v0 k v \<and> \<not> qualityOK v \<and> Suc k < attempts rnd) \<or>
     validated rnd v0 v \<and> (l = Some 6 \<and> ns = retries (attempts rnd - 1) @ [2, 3, 4] \<or>
       l = Some 7 \<and> ns = retries (attempts rnd - 1) @ [2, 3, 4, 6] \<or> l = None \<and> ns = crawl_path (attempts rnd))"

lemma crawl_atI:
  "k < attempts rnd \<Longrightarrow> attempt v = int k \<Longrightarrow> \<not> qualityOK v \<Longrightarrow> backoffMs v = 100 * 2 ^ k \<Longrightarrow>
     slept v = slept v0 + 100 * (2 ^ k - 1) \<Longrightarrow> crawl_at rnd v0 (Some 2) v (retries k)"
  "fetched rnd v0 k v \<Longrightarrow> \<not> qualityOK v \<Longrightarrow> crawl_at rnd v0 (Some 3) v (retries k @ [2])"
  "fetched rnd v0 k v \<Longrightarrow> \<not> qualityOK v \<Longrightarrow> crawl_at rnd v0 (Some 4) v (retries k @ [2, 3])"
  "fetched rnd v0 k v \<Longrightarrow> \<not> qualityOK v \<Longrightarrow> Suc k < attempts rnd \<Longrightarrow> crawl_at rnd v0 (Some 5) v (retries k @ [2, 3, 4])"
  "validated rnd v0 v \<Longrightarrow> crawl_at rnd v0 (Some 6) v (retries (attempts rnd - 1) @ [2, 3, 4])"
  "validated rnd v0 v \<Longrightarrow> crawl_at rnd v0 (Some 7) v (retries (attempts rnd - 1) @ [2, 3, 4, 6])"
  "validated rnd v0 v \<Longrightarrow> crawl_at rnd v0 None v (crawl_path (attempts rnd))"
  unfolding crawl_at_def by blast+

lemma crawl_at_step:
  assumes "crawl_at rnd v0 (Some n) v ns" "chart_step crawl_flow (crawl_program rnd) n v = (ms, v', l')"
  shows "crawl_at rnd v0 l' v' (ns @ ms)"
proof -
  note A = attempts_spec [where rnd = rnd]
  from assms(1) consider "n = 1" "v = v0" "ns = []"
    | k where "n = 2" "ns = retries k" "k < attempts rnd" "attempt v = int k" "\<not> qualityOK v"
        "backoffMs v = 100 * 2 ^ k" "slept v = slept v0 + 100 * (2 ^ k - 1)"
    | k where "n = 3" "ns = retries k @ [2]" "fetched rnd v0 k v" "\<not> qualityOK v"
    | k where "n = 4" "ns = retries k @ [2, 3]" "fetched rnd v0 k v" "\<not> qualityOK v"
    | k where "n = 5" "ns = retries k @ [2, 3, 4]" "fetched rnd v0 k v" "\<not> qualityOK v" "Suc k < attempts rnd"
    | "n = 6" "ns = retries (attempts rnd - 1) @ [2, 3, 4]" "validated rnd v0 v"
    | "n = 7" "ns = retries (attempts rnd - 1) @ [2, 3, 4, 6]" "validated rnd v0 v"
    unfolding crawl_at_def by blast
  then show ?thesis
  proof cases
    case 1
    then have "l' = Some 2" "ns @ ms = retries 0" "v' = init_task v"
      using assms(2) crawl_steps(1) [of rnd v0] by (simp_all add: retries_def)
    moreover have "crawl_at rnd v0 (Some 2) (init_task v) (retries 0)"
      by (rule crawl_atI(1)) (use A(1) 1 in \<open>simp_all add: init_task_def\<close>)
    ultimately show ?thesis by simp
  next
    case (2 k)
    then have r: "l' = Some 3" "ms = [2]" "v' = fetch_task rnd v" using assms(2) by (simp_all add: crawl_steps)
    then have "fetched rnd v0 k v'" "\<not> qualityOK v'"
      using 2 by (simp_all add: fetched_def fetch_task_def pages_def Let_def algebra_simps)
    then show ?thesis using crawl_atI(2) r 2 by simp
  next
    case (3 k)
    then show ?thesis using crawl_atI(3) [of rnd v0 k v] assms(2) by (simp add: crawl_steps)
  next
    case (4 k)
    have k: "k < attempts rnd" "attempt v = int (Suc k)" "pageCount v = pages rnd (Suc k)"
      using 4(3) by (simp_all add: fetched_def)
    show ?thesis
    proof (cases "enough rnd (Suc k)")
      case True
      then have a: "attempts rnd = Suc k" using A(4) [of "Suc k"] k(1) by fastforce
      then have "snd (validate_task v) = 0" "validated rnd v0 (fst (validate_task v))"
        using True k 4(3,4) by (auto simp: validate_task_def enough_def maxAttempts_def validated_def fetched_def Let_def)
      then show ?thesis using crawl_atI(5) [of rnd v0 "fst (validate_task v)"] 4 a assms(2) by (simp add: crawl_steps)
    next
      case False
      then have "Suc k \<noteq> attempts rnd" using A(3) by metis
      then have a: "Suc k < attempts rnd" using k(1) by simp
      then have "Suc k < 5" using A(2) by linarith
      then have "validate_task v = (v, 1)" using False k by (simp add: validate_task_def enough_def maxAttempts_def Let_def)
      then show ?thesis using crawl_atI(4) [of rnd v0 k v] 4 a assms(2) by (simp add: crawl_steps)
    qed
  next
    case (5 k)
    then have r: "l' = Some 2" "ns @ ms = retries (Suc k)" "v' = v\<lparr>backoffMs := backoffMs v * 2\<rparr>"
      using assms(2) by (simp_all add: crawl_steps backoff_task_def retries_Suc)
    have "crawl_at rnd v0 (Some 2) v' (retries (Suc k))"
      by (rule crawl_atI(1)) (use 5 r(3) in \<open>simp_all add: fetched_def\<close>)
    with r show ?thesis by simp
  next
    case 6
    then show ?thesis using crawl_atI(6) [of rnd v0 v] assms(2) by (simp add: crawl_steps)
  next
    case 7
    then show ?thesis using crawl_atI(7) [of rnd v0 v] assms(2) by (simp add: crawl_steps crawl_path_def)
  qed
qed

text \<open>What is known of the calls and the variables at each of these states.\<close>

lemma path_prefix:
  assumes "k < attempts rnd" "prefix us [2, 3, 4]"
  shows "prefix (retries k @ us) (crawl_path (attempts rnd))"
proof (cases "Suc k = attempts rnd")
  case True
  then have "attempts rnd - 1 = k" by simp
  moreover have "prefix us [2, 3, 4, 6, 7]" using assms(2) by (auto simp: prefix_Cons)
  ultimately show ?thesis by (simp add: crawl_path_def)
next
  case False
  then have "prefix (retries (Suc k)) (retries (attempts rnd - 1))" using assms(1) retries_prefix by simp
  moreover have "prefix (retries k @ us) (retries (Suc k))" using assms(2) by (auto simp: retries_Suc prefix_Cons)
  ultimately show ?thesis unfolding crawl_path_def by (meson prefix_order.trans prefix_prefix)
qed

lemma retries_set: "6 \<notin> set (retries k)"
  by (auto simp: retries_def)

lemma sleep_mono: "k < a \<Longrightarrow> (2 :: int) ^ k \<le> 2 ^ a"
  by (rule power_increasing) simp_all

lemma crawl_at_says:
  assumes "crawl_at rnd v0 l v ns" "hs = ns \<or> (\<exists>n. l = Some n \<and> hs = ns @ [n])"
  shows "prefix hs (crawl_path (attempts rnd)) \<and> (6 \<in> set hs \<longrightarrow> validated rnd v0 v) \<and>
    slept v \<le> slept v0 + 100 * (2 ^ attempts rnd - 1)"
proof -
  note A = attempts_spec [where rnd = rnd]
  have S: "slept v \<le> slept v0 + 100 * (2 ^ attempts rnd - 1)" if "fetched rnd v0 k v" for k
  proof -
    have "k < attempts rnd" "slept v = slept v0 + 100 * (2 ^ Suc k - 1)" using that by (simp_all add: fetched_def)
    moreover from this(1) have "(2 :: int) ^ Suc k \<le> 2 ^ attempts rnd" by (intro power_increasing) simp_all
    ultimately show ?thesis by simp
  qed
  have P: "prefix (retries k @ us) (crawl_path (attempts rnd))" if "fetched rnd v0 k v" "prefix us [2, 3, 4]" for k us
    using path_prefix that by (simp add: fetched_def)
  from assms(1) consider "l = Some 1" "v = v0" "ns = []"
    | k where "l = Some 2" "ns = retries k" "k < attempts rnd" "slept v = slept v0 + 100 * (2 ^ k - 1)"
    | k where "l = Some 3" "ns = retries k @ [2]" "fetched rnd v0 k v"
    | k where "l = Some 4" "ns = retries k @ [2, 3]" "fetched rnd v0 k v"
    | k where "l = Some 5" "ns = retries k @ [2, 3, 4]" "fetched rnd v0 k v" "Suc k < attempts rnd"
    | "l = Some 6" "ns = retries (attempts rnd - 1) @ [2, 3, 4]" "validated rnd v0 v"
    | "l = Some 7" "ns = retries (attempts rnd - 1) @ [2, 3, 4, 6]" "validated rnd v0 v"
    | "l = None" "ns = crawl_path (attempts rnd)" "validated rnd v0 v"
    unfolding crawl_at_def by blast
  then show ?thesis
  proof cases
    case 1
    have "hs = [] \<or> hs = retries 0" using assms(2) 1 by (auto simp: retries_def)
    then have "prefix hs (crawl_path (attempts rnd)) \<and> 6 \<notin> set hs"
      using path_prefix [of 0 rnd "[]"] A(1) retries_set [of 0] by auto
    moreover have "(1 :: int) \<le> 2 ^ attempts rnd" by simp
    ultimately show ?thesis using 1(2) by simp
  next
    case (2 k)
    then have "hs = retries k @ [] \<or> hs = retries k @ [2]" using assms(2) by auto
    then have "prefix hs (crawl_path (attempts rnd)) \<and> 6 \<notin> set hs"
      using path_prefix [OF 2(3), of "[]"] path_prefix [OF 2(3), of "[2]"] retries_set [of k] by auto
    moreover have "slept v \<le> slept v0 + 100 * (2 ^ attempts rnd - 1)" using 2(4) sleep_mono [OF 2(3)] by simp
    ultimately show ?thesis by blast
  next
    case (3 k)
    then have "hs = retries k @ [2] \<or> hs = retries k @ [2, 3]" using assms(2) by auto
    then show ?thesis using P [OF 3(3), of "[2]"] P [OF 3(3), of "[2, 3]"] S [OF 3(3)] retries_set [of k] by auto
  next
    case (4 k)
    then have "hs = retries k @ [2, 3] \<or> hs = retries k @ [2, 3, 4]" using assms(2) by auto
    then show ?thesis using P [OF 4(3), of "[2, 3]"] P [OF 4(3), of "[2, 3, 4]"] S [OF 4(3)] retries_set [of k] by auto
  next
    case (5 k)
    then have "hs = retries k @ [2, 3, 4] \<or> hs = retries (Suc k)" using assms(2) by (auto simp: retries_Suc)
    then show ?thesis
      using P [OF 5(3), of "[2, 3, 4]"] path_prefix [OF 5(4), of "[]"] S [OF 5(3)] retries_set [of k] retries_set [of "Suc k"] by auto
  next
    case 6
    then have "prefix hs (crawl_path (attempts rnd))" using assms(2) by (auto simp: crawl_path_def)
    then show ?thesis using S 6(3) by (auto simp: validated_def)
  next
    case 7
    then have "prefix hs (crawl_path (attempts rnd))" using assms(2) by (auto simp: crawl_path_def)
    then show ?thesis using S 7(3) by (auto simp: validated_def)
  next
    case 8
    then have "hs = crawl_path (attempts rnd)" using assms(2) by simp
    then show ?thesis using S 8(3) by (auto simp: validated_def)
  qed
qed

text \<open>(C16) The crawler, on any number of workers and in every interleaving. Its functions are called in
  the order of a path: \<open>init\<close>, then rounds of \<open>fetch_pages\<close>, \<open>parse\<close>, \<open>validate_quality\<close>, with a \<open>backoff\<close>
  between two rounds, then \<open>index\<close> and \<open>done\<close>; there are as many rounds as it takes to fetch 40 pages, 5
  at most, and, with random numbers below 20, at least 3. When \<open>index\<close> is called, the page count is that of the last round and the quality flag says
  whether it is enough. The program sleeps 3100 milliseconds at most. The run may end before the path
  does (see \<open>crawl_can_stop_early\<close>), but it never leaves it.\<close>

theorem crawl_correct:
  assumes "NewExecutor c opts now crawl_flow [[Run 1, Wait]] = Inr s0"
    and "client_reach (crawl_program rnd) s0 v0 s v"
  shows "prefix (called (hist s)) (crawl_path (attempts rnd)) \<and> attempts rnd \<le> 5 \<and>
    (\<forall>a. 0 < a \<and> a < attempts rnd \<longrightarrow> pages rnd a < 40) \<and>
    ((\<forall>a. rnd a < 20) \<longrightarrow> 3 \<le> attempts rnd) \<and>
    (6 \<in> set (called (hist s)) \<longrightarrow> attempt v = int (attempts rnd) \<and> pageCount v = pages rnd (attempts rnd) \<and>
      qualityOK v = (pageCount v \<ge> 40) \<and> (qualityOK v \<or> attempt v = maxAttempts)) \<and>
    slept v \<le> slept v0 + 3100"
proof -
  note A = attempts_spec [where rnd = rnd]
  have "starts_chart crawl_flow 1 s0" unfolding starts_chart_def using crawl_chart assms(1) by blast
  from follows_flowchart [OF this assms(2)] obtain k l ns where
    r: "chart_run crawl_flow (crawl_program rnd) k (chart_start crawl_flow 1 v0) = (l, v, ns)"
    and h: "called (hist s) = ns \<or> (\<exists>n. l = Some n \<and> called (hist s) = ns @ [n])" by blast
  have "crawl_at rnd v0 l v ns"
  proof (rule chart_run_invariant [OF r])
    show "crawl_at rnd v0 (fst (chart_start crawl_flow 1 v0)) (fst (snd (chart_start crawl_flow 1 v0))) (snd (snd (chart_start crawl_flow 1 v0)))"
      unfolding chart_start_def crawl_chart(4) by (simp add: crawl_at_def)
  qed (rule crawl_at_step)
  note S = crawl_at_says [OF this h]
  have "\<forall>a. 0 < a \<and> a < attempts rnd \<longrightarrow> pages rnd a < 40" proof (intro allI impI)
    fix a
    assume "0 < a \<and> a < attempts rnd"
    then have "\<not> enough rnd a" using A(4) by blast
    then show "pages rnd a < 40" by (simp add: enough_def)
  qed
  moreover have "3 \<le> attempts rnd" if "\<forall>a. rnd a < 20"
  proof (rule ccontr)
    assume "\<not> 3 \<le> attempts rnd"
    then consider "attempts rnd = 1" | "attempts rnd = 2" using A(1) by linarith
    then show False using A(3) that [rule_format, of 1] that [rule_format, of 2] by cases (simp_all add: enough_def pages_def)
  qed
  moreover have "Suc (attempts rnd - 1) = attempts rnd" using A(1) by simp
  then have "6 \<in> set (called (hist s)) \<longrightarrow> attempt v = int (attempts rnd) \<and> pageCount v = pages rnd (attempts rnd) \<and>
      qualityOK v = (pageCount v \<ge> 40) \<and> (qualityOK v \<or> attempt v = maxAttempts)"
    using S A(3) by (auto simp: validated_def fetched_def enough_def maxAttempts_def)
  moreover have "(2 :: int) ^ attempts rnd \<le> 2 ^ 5" using A(2) by (intro power_increasing) simp_all
  then have "slept v \<le> slept v0 + 3100" using S by simp
  ultimately show ?thesis using S A(2) by blast
qed

section \<open>Runs\<close>

text \<open>The flow as a heap, with the names left open: the executor does not look at them.\<close>

definition crawl_heap :: "string \<Rightarrow> string \<Rightarrow> string \<Rightarrow> string \<Rightarrow> string \<Rightarrow> string \<Rightarrow> string \<Rightarrow> string \<Rightarrow> heap" where
  "crawl_heap g a b c d e f k = \<lparr>hnode = (\<lambda>_. nil_node)(
     1 := \<lparr>nname = a, successors = [2], dependents = [], Typ = nodeStatic, ptr = PStatic, nstate = 0, njoin = 0, ngraph = 1, priority = NORMAL\<rparr>,
     2 := \<lparr>nname = b, successors = [3], dependents = [1, 5], Typ = nodeStatic, ptr = PStatic, nstate = 0, njoin = 0, ngraph = 1, priority = NORMAL\<rparr>,
     3 := \<lparr>nname = c, successors = [4], dependents = [2], Typ = nodeStatic, ptr = PStatic, nstate = 0, njoin = 0, ngraph = 1, priority = NORMAL\<rparr>,
     4 := \<lparr>nname = d, successors = [6, 5], dependents = [3], Typ = nodeCondition, ptr = PCondition [(0, 6), (1, 5)], nstate = 0, njoin = 0, ngraph = 1, priority = NORMAL\<rparr>,
     5 := \<lparr>nname = e, successors = [2], dependents = [4], Typ = nodeCondition, ptr = PCondition [(0, 2)], nstate = 0, njoin = 0, ngraph = 1, priority = NORMAL\<rparr>,
     6 := \<lparr>nname = f, successors = [7], dependents = [4], Typ = nodeStatic, ptr = PStatic, nstate = 0, njoin = 0, ngraph = 1, priority = NORMAL\<rparr>,
     7 := \<lparr>nname = k, successors = [], dependents = [6], Typ = nodeStatic, ptr = PStatic, nstate = 0, njoin = 0, ngraph = 1, priority = NORMAL\<rparr>),
     hgraph = (\<lambda>_. nil_graph)(1 := \<lparr>gname = g, gnodes = [1, 2, 3, 4, 5, 6, 7], gjoin = 0, entries = [], instantiated = False, canceled = False\<rparr>),
     hflow = (\<lambda>_. \<lparr>graph = 0, frozen = False\<rparr>)(1 := \<lparr>graph = 1, frozen = False\<rparr>), nnext = 8, gnext = 2, fnext = 2\<rparr>"

lemma crawl_flow_heap:
  "crawl_flow = crawl_heap ''crawl-pipeline'' ''init'' ''fetch_pages'' ''parse'' ''validate_quality'' ''backoff'' ''index'' ''done''"
  by (simp del: One_nat_def add: crawl_flow_def flow_heap_def crawl_calls_def NewTaskFlow_def newGraph_def empty_heap_def Let_def
    NewStatic_def NewCondition_def newNode_def TaskFlow_push_def graph_push_def upd_node_def upd_graph_def Task_Precede_def
    precede_def branch_put_def nil_node_def nil_graph_def case_prod_unfold crawl_heap_def) (rule ext, simp)

text \<open>A complete run on one worker with three rounds: a task and a condition up to the call of the next
  function.\<close>

definition go :: "(tid \<times> choice) list" where
  "go = steps 1 3 @ steps 0 4 @ steps 1 2 @ steps 0 1 @ steps 1 3"

definition static_next :: "nid \<Rightarrow> (tid \<times> choice) list" where
  "static_next n = [(1, Return)] @ steps 1 5 @ [(1, Sorted [n])] @ go"

definition cond_next :: "uint \<Rightarrow> nat \<Rightarrow> (tid \<times> choice) list" where
  "cond_next v k = [(1, Choose v)] @ steps 1 3 @ steps 0 4 @ steps 1 k @ steps 0 1 @ steps 1 3"

definition crawl_trace :: "event list" where
  "crawl_trace = events ([(0, Tau), (0, Sorted [1])] @ steps 0 8 @ steps 1 2 @ static_next 2 @
     concat (replicate 2 (static_next 3 @ static_next 4 @ cond_next 1 7 @ cond_next 0 6)) @
     static_next 3 @ static_next 4 @ cond_next 0 7 @ static_next 7 @
     [(1, Return)] @ steps 1 3 @ [(1, Sorted [])] @ steps 1 2 @ steps 0 3 @ steps 1 1 @ steps 0 1 @ steps 1 1)"

definition crawl_zero :: crawl where
  "crawl_zero = \<lparr>attempt = 0, pageCount = 0, qualityOK = False, backoffMs = 0, slept = 0\<rparr>"

lemma crawl_run:
  "map_option (\<lambda>(s, v). (called (hist s), v))
     (client_exec (crawl_program (\<lambda>_. 15)) (demo 1 (crawl_heap g a b c d e f k) [Run 1, Wait]) crawl_zero crawl_trace) =
   Some ([1, 2, 3, 4, 5, 2, 3, 4, 5, 2, 3, 4, 6, 7],
     \<lparr>attempt = 3, pageCount = 40, qualityOK = True, backoffMs = 400, slept = 700\<rparr>)"
  by code_simp

lemma crawl_correct_witness:
  "\<exists>s (v :: crawl). reach (demo 1 crawl_flow [Run 1, Wait]) s \<and> called (hist s) = crawl_path 3 \<and> attempts (\<lambda>_. 15) = 3 \<and>
     attempt v = 3 \<and> pageCount v = 40 \<and> qualityOK v \<and> slept v \<le> 3100"
proof -
  have "map_option (\<lambda>(s, v). (called (hist s), v)) (client_exec (crawl_program (\<lambda>_. 15)) (demo 1 crawl_flow [Run 1, Wait]) crawl_zero crawl_trace) =
   Some ([1, 2, 3, 4, 5, 2, 3, 4, 5, 2, 3, 4, 6, 7],
     \<lparr>attempt = 3, pageCount = 40, qualityOK = True, backoffMs = 400, slept = 700\<rparr>)"
    unfolding crawl_flow_heap by (rule crawl_run)
  then obtain s v where s: "client_exec (crawl_program (\<lambda>_. 15)) (demo 1 crawl_flow [Run 1, Wait]) crawl_zero crawl_trace = Some (s, v)"
    "called (hist s) = [1, 2, 3, 4, 5, 2, 3, 4, 5, 2, 3, 4, 6, 7]" by auto
  have r: "client_reach (crawl_program (\<lambda>_. 15)) (demo 1 crawl_flow [Run 1, Wait]) crawl_zero s v"
    by (rule client_exec_reach [OF s(1) client_reach.start])
  have n: "NewExecutor 1 [] 0 crawl_flow [[Run 1, Wait]] = Inr (demo 1 crawl_flow [Run 1, Wait])"
    by (simp add: demo_def NewExecutor_def)
  have a: "attempts (\<lambda>_. 15) = 3" by (simp add: attempts_def enough_def pages_def)
  have p: "called (hist s) = crawl_path 3" by (simp add: crawl_path_def retries_def s(2) numeral_2_eq_2)
  have "6 \<in> set (called (hist s))" by (simp add: s(2))
  with crawl_correct [OF n r] a have "attempt v = 3 \<and> pageCount v = 40 \<and> qualityOK v = (pageCount v \<ge> 40) \<and> slept v \<le> slept crawl_zero + 3100"
    by (simp add: pages_def)
  then have "attempt v = 3 \<and> pageCount v = 40 \<and> qualityOK v \<and> slept v \<le> 3100" by (simp add: crawl_zero_def)
  with client_reach_reach [OF r] a p show ?thesis by blast
qed

definition early_trace :: "event list" where
  "early_trace = events (steps 0 1 @ [(0, Sorted [1])] @ steps 0 8 @ steps 1 2 @ [(1, Return)] @ steps 1 5 @ [(1, Sorted [2])] @ steps 1 3 @ steps 0 4 @ steps 1 2 @ steps 0 1 @
     steps 1 3 @ [(1, Return)] @ steps 1 5 @ [(1, Sorted [3])] @ steps 1 3 @ steps 0 4 @ steps 1 2 @ steps 0 1 @ steps 1 3 @ [(1, Return)] @ steps 1 5 @ [(1, Sorted [4])] @ steps 1 3 @ steps 0 4 @ steps 1 2 @ steps 0 1 @
     steps 1 3 @ [(1, Choose 1)] @ steps 1 3 @ steps 0 4 @ steps 1 1 @
     steps 2 2 @ [(2, Choose 0)] @ steps 2 3 @ steps 0 4 @ steps 2 5 @ steps 0 1 @ steps 2 4 @ [(2, Return)] @ steps 2 5 @ [(2, Sorted [3])] @ steps 2 3 @ steps 0 4 @ steps 2 2 @ steps 0 1 @
     steps 2 3 @ [(2, Return)] @ steps 2 5 @ [(2, Sorted [])] @ steps 2 2 @ steps 0 1 @ steps 2 2 @ steps 3 1 @ steps 4 1 @ steps 1 5 @ steps 0 3 @ steps 1 2 @ steps 0 1 @ steps 1 1)"

lemma early_run:
  "map_option (\<lambda>(s, v). (called (hist s), threads s, v))
     (client_exec (crawl_program (\<lambda>_. 0)) (demo 4 (crawl_heap g a b c d e f k) [Run 1, Wait]) crawl_zero early_trace) =
   Some ([1, 2, 3, 4, 5, 2, 3], [Client [], WGone, WGone, WGone, WGone],
     \<lparr>attempt = 2, pageCount = 20, qualityOK = False, backoffMs = 200, slept = 300\<rparr>)"
  by code_simp


end
