(* ===== verification/Spec2Isabelle.thy ===== *)
theory Spec2Isabelle
  imports Static_Termination Static_Trace Scenarios Dot Typing Nested_Flows One_Worker Profile
    Example_Fibonacci Example_Merge_Sort Example_Map_Reduce Example_Crawl
begin

text \<open>
  A verification development for \<^bold>\<open>go-taskflow\<close>, a library that runs task graphs: a client builds
  a flow of named tasks and their dependencies, and an executor runs the tasks concurrently, each
  after the tasks it depends on. Tasks are static functions, subflows (a graph that is built when the
  task is first executed) or conditions (a function that chooses which branch is scheduled).

  \<^bold>\<open>The program and its parts.\<close>
  A client calls \<open>TaskFlow.NewTask\<close>, \<open>NewSubflow\<close>, \<open>NewCondition\<close>, \<open>Task.Precede\<close>, \<open>Succeed\<close> and \<open>Priority\<close>
  to build nodes and edges, then \<open>Executor.Run\<close> and \<open>Wait\<close>. \<open>Run\<close> sets the graph up (join counters,
  entries), schedules the entries into a queue shared by all graphs and hands the nodes of that
  queue to the goroutine pool until the graph's reference counter is zero. A worker of the pool
  executes the node: it calls the user function, then (in the deferred function) records the span,
  drops the join counters of the successors, schedules those that are ready, releases the graph and
  counts the wait group down. A subflow runs its own graph inside its worker. A panic cancels the graph.

  \<^bold>\<open>Theories, and the code they model.\<close>
  \<^item> \<open>Prelude\<close>: machine types, the values of a panic, slices, \<open>strconv.Itoa\<close>, generic lemmas.
  \<^item> \<open>Ring_Queue\<close>: \<open>utils/queue.go\<close>. The struct with its buffer of pointers, indices as naturals masked
    by the capacity; locale \<open>fifo\<close>, interpreted as \<open>rq\<close> by the ring buffer.
  \<^item> \<open>Copool\<close>: \<open>utils/copool.go\<close>. \<open>CtxGo\<close>, the worker loop and the end of a task; locale \<open>worker_pool\<close>,
    interpreted as \<open>cp\<close>; the pool as a machine of one submitter and its workers.
  \<^item> \<open>Flow_Graph\<close>: \<open>node.go\<close>, \<open>graph.go\<close>, \<open>flow.go\<close>, \<open>task.go\<close>, \<open>taskflow.go\<close>. Nodes, graphs and flows live
    in a heap (record \<open>heap\<close>) and are named by numbers, 0 is \<open>nil\<close>. Counters are 32-bit words.
    \<open>built h\<close> says that \<open>h\<close> was made by calls of the building API.
  \<^item> \<open>Graph_Walk\<close>: \<open>eGraph.walk\<close>.
  \<^item> \<open>Observer\<close>: \<open>profiler.go\<close>, \<open>tracer.go\<close> (spans, accumulation, trace events). \<open>Profile\<close>: the text of a
    profile, and \<open>NormalizeDuration\<close> of \<open>utils/utils.go\<close>.
  \<^item> \<open>Executor\<close>: \<open>executor.go\<close>, \<open>options.go\<close>. The state \<open>sys\<close> has the heap, the node queue, the pool, the
    wait group, the observer, the history of user calls and one program counter per goroutine. \<open>step\<close>
    is one atomic action of one goroutine; \<open>run\<close> a list of them; \<open>reach\<close> the reachable states.
  \<^item> \<open>Validator\<close>: \<open>validator.go\<close>. \<open>Dot\<close>: \<open>visualizer_dot.go\<close>.
  \<^item> The programs under \<open>examples/\<close>, each with the building calls of its \<open>main\<close> and the functions of its
    tasks on the variables they share: \<open>Example_Fibonacci\<close> (\<open>fibonacci.go\<close>), \<open>Example_Merge_Sort\<close>
    (\<open>parallel_merge_sort.go\<close>), \<open>Example_Word_Count\<close> (\<open>simple.go\<close>), \<open>Example_Map_Reduce\<close> (\<open>word_count.go\<close>),
    \<open>Example_Crawl\<close> (\<open>loop.go\<close>).

  \<^bold>\<open>What the lemmas show.\<close>
  \<^item> For every program of every client and every flow: the wait group and the pool's counters are
    exact, \<open>Wait\<close> returns only when nothing is left to do, the limit on concurrency holds, and the
    panics that can escape are the two explicit ones (\<open>Accounting\<close>); no deadlock on the locks
    (\<open>Progress\<close>); tags agree with payloads, the panic for unknown node types is never raised (\<open>Typing\<close>);
    the reference counter of a graph is the number of its nodes in flight, so the loop that runs a graph
    or a subflow ends only when all of its nodes have (\<open>Join\<close>). \<open>Transitions\<close> writes the steps of all
    programs out as one relation. \<open>Completion\<close> shows that a program with fewer subflows than workers, in
    which no graph is run twice at once and no function panics, comes to a stop only when everything has
    ended, and that what hangs after a panic is \<open>Wait\<close>: the pool leaves a task waiting only while all workers are inside tasks, a goroutine sleeps on a graph
    only while nodes of it are in flight elsewhere, and subflows are nested finitely deep. The bound on the
    subflows is sharp (\<open>subflow_starves_one_worker\<close> in \<open>Scenarios\<close>). \<open>Nested_Flows\<close>: without conditions no
    node is executed twice at once and no graph is run twice at once, so programs of nested subflows complete.
  \<^item> For one run of a flow of static tasks, under every interleaving: the list of transitions
    (\<open>Static_Flow\<close>); the positions of nodes and the join counters (\<open>Static_Safety\<close>); each task is called
    at most once, after its dependencies, and nothing crashes (\<open>Static_Results\<close>); the run completes
    when no task panics, and hangs only after a panic (\<open>Static_Liveness\<close>); it ends within
    \<open>(2 M + 20) k + 8\<close> steps (\<open>Static_Termination\<close>); its trace is a topological order that the validator
    accepts (\<open>Static_Trace\<close>). On one worker the order of the calls is that of a sequential list scheduler
    with a queue, which sorts by priority what becomes ready together (\<open>One_Worker\<close>).
  \<^item> What the functions of a run compute together: \<open>Static_Clients\<close> has the flows that lists of building
    calls make, and the order in which the functions of a completed run took effect, each at one moment
    between its call and its return (\<open>effect_order\<close>): a topological order of all tasks, and otherwise any.
    The examples on static tasks are correct for every such order; that completed runs exist is proved.
  \<^item> For flows that are sequential programs (one entry, at most one successor per task, conditions that
    choose the next task, loops): the executor, on any number of workers, refines an interpreter that
    calls one function after the other (\<open>Flowchart\<close>). The crawler is such a program; it follows its path,
    and can stop before the end of it, as a run shows.
  \<^item> \<open>Scenarios\<close>: executions with conditions, subflows, panics and repeated runs that end in a way
    the caller would not expect, evaluated step by step.
  \<^item> The validator decides a declarative notion of conformance; the drawing has exactly the nodes and
    edges of the flow; the queue refines a list; the walk visits each node once.

  \<^bold>\<open>Concurrency, choices, bounds.\<close>
  Atomic loads, stores and critical sections are single steps; where a critical section contains
  calls that take another lock it is split and the lock is the program counter of its holder. What
  the language or the user leaves open is an argument: the behaviour of a user function (\<open>choice\<close>), the
  order \<open>slices.SortFunc\<close> leaves equal priorities in, the order of a \<open>range\<close> over a map, the current time.
  Loops over the heap that need not end on every heap (\<open>walk_nodes\<close>, \<open>vis_nodes\<close>, \<open>graph_String\<close>, \<open>add_parents\<close>)
  are partial functions with value \<open>None\<close> when they do not return; that they return on the heaps
  the API builds is proved (\<open>walk_visits_once\<close>, \<open>Visualize_returns\<close>). No fuel is used. The results on
  static flows need fewer than \<open>2 ^ 32\<close> nodes and dependents, the range of the counters.

  \<^bold>\<open>Not modelled.\<close>
  The recycling of \<open>utils/obj_pool.go\<close> (a typed \<open>sync.Pool\<close>: the recycled object is written in full
  before every use) and \<open>utils/pprof.go\<close> (files only); the unsafe string casts and the test helper of
  \<open>utils/utils.go\<close>; the JSON encoding of the trace and all writing to an \<open>io.Writer\<close>; log messages; the
  texts of validation results (their \<open>%q\<close> quoting is the library's). The truncation of the
  \<open>float64\<close> durations in \<open>NormalizeDuration\<close> is taken as exact, which it is below 4096 hours. Of the
  examples, the printing and sleeping, and the programs on subflows and on priorities inside a subflow (they only print);
  their input and random numbers are arguments, strings are lists of characters, a file is the list of
  its records, and \<open>log.Fatal\<close> or a panic in a function is the value \<open>None\<close>. Termination of flowcharts is not
  stated: a loop may go on for ever, and a retry can be lost.
\<close>

end
